(* ===== verification/Prelude.thy ===== *)
theory Prelude
  imports Complex_Main "HOL-Library.Word" "HOL-Library.Char_ord"
    "HOL-Library.List_Lexorder" "HOL-Library.Product_Lexorder"
begin

text \<open>
  Shared base of the development: the results of fallible calls, the C++ integer
  conversions, the decimal printing of fmt, the numeric parsing of \<open>std::stoi\<close> and
  \<open>std::stoll\<close>, the environment lookup \<open>get_env\<close>, and \<open>std::map\<close> as a sorted
  association list behind the locale \<open>std_map\<close>.
\<close>

named_theorems cpp_simps \<open>equations of the C++ conversions and results\<close>

named_theorems map_laws \<open>laws of the ordered map\<close>

section \<open>Results of fallible calls\<close>

text \<open>
  The exceptions of the C++ library that the program can raise. A result is a sum:
  \<open>Inl e\<close> for the raised exception or the error code, \<open>Inr x\<close> for the value.
\<close>

datatype stdexc = InvalidArgument | OutOfRange | SimdjsonError

definition rbind :: "'e + 'a \<Rightarrow> ('a \<Rightarrow> 'e + 'b) \<Rightarrow> 'e + 'b" where
  "rbind r f = (case r of Inl e \<Rightarrow> Inl e | Inr x \<Rightarrow> f x)"

lemma rbind_simps [simp, cpp_simps]:
  "rbind (Inl e) f = Inl e" "rbind (Inr x) f = f x"
  by (simp_all add: rbind_def)

lemma rbind_Inr_iff: "rbind r f = Inr y \<longleftrightarrow> (\<exists>x. r = Inr x \<and> f x = Inr y)"
  by (cases r) auto

lemma rbind_Inl_iff: "rbind r f = Inl e \<longleftrightarrow> r = Inl e \<or> (\<exists>x. r = Inr x \<and> f x = Inl e)"
  by (cases r) auto

definition get_or :: "'e + 'a \<Rightarrow> 'a \<Rightarrow> 'a" where
  "get_or r d = (case r of Inl _ \<Rightarrow> d | Inr x \<Rightarrow> x)"

lemma get_or_simps [simp, cpp_simps]: "get_or (Inl e) d = d" "get_or (Inr x) d = x"
  by (simp_all add: get_or_def)

section \<open>C++ integers\<close>

text \<open>
  \<open>narrow n\<close> is the conversion of an integer to the \<open>n\<close>-bit two's complement type
  (modulo \<open>2 ^ n\<close>, as C++20 defines it); \<open>crem\<close> is the built-in \<open>%\<close>, which
  truncates towards zero, so that the result has the sign of the dividend.
\<close>

definition narrow :: "nat \<Rightarrow> int \<Rightarrow> int" where
  "narrow n i = (i + 2 ^ (n - 1)) mod 2 ^ n - 2 ^ (n - 1)"

definition crem :: "int \<Rightarrow> int \<Rightarrow> int" where
  "crem a b = sgn a * (\<bar>a\<bar> mod \<bar>b\<bar>)"

abbreviation (input) int_min :: int where "int_min \<equiv> - (2 ^ 31)"
abbreviation (input) int_max :: int where "int_max \<equiv> 2 ^ 31 - 1"
abbreviation (input) llong_min :: int where "llong_min \<equiv> - (2 ^ 63)"
abbreviation (input) llong_max :: int where "llong_max \<equiv> 2 ^ 63 - 1"

lemma narrow_id: "0 < n \<Longrightarrow> - (2 ^ (n - 1)) \<le> i \<Longrightarrow> i < 2 ^ (n - 1) \<Longrightarrow> narrow n i = i"
proof -
  assume n: "0 < n" and lo: "- (2 ^ (n - 1)) \<le> i" and hi: "i < 2 ^ (n - 1)"
  from n have "(2::int) ^ n = 2 * 2 ^ (n - 1)" by (cases n) auto
  with lo hi show ?thesis by (simp add: narrow_def)
qed

lemma narrow32_id [simp]: "int_min \<le> i \<Longrightarrow> i \<le> int_max \<Longrightarrow> narrow 32 i = i"
  by (rule narrow_id) auto

lemma narrow_range: "0 < n \<Longrightarrow> - (2 ^ (n - 1)) \<le> narrow n i \<and> narrow n i < 2 ^ (n - 1)"
proof -
  assume "0 < n"
  then have "(2::int) ^ n = 2 * 2 ^ (n - 1)" by (cases n) auto
  moreover have "0 \<le> (i + 2 ^ (n - 1)) mod 2 ^ n" "(i + 2 ^ (n - 1)) mod 2 ^ n < 2 ^ n"
    by auto
  ultimately show ?thesis by (auto simp: narrow_def)
qed

lemma crem_nonneg: "0 \<le> a \<Longrightarrow> 0 < b \<Longrightarrow> crem a b = a mod b"
  by (cases "a = 0") (auto simp: crem_def)

lemma crem_dvd: "b dvd a \<Longrightarrow> crem a b = 0"
  by (simp add: crem_def dvd_imp_mod_0)

lemma crem_neg_strict:
  assumes "a < 0" and "0 < b" and "\<not> b dvd a"
  shows "crem a b < 0"
proof -
  have "\<not> b dvd \<bar>a\<bar>" using assms(3) by simp
  then have "\<bar>a\<bar> mod b \<noteq> 0" by (simp only: dvd_eq_mod_eq_0 not_False_eq_True)
  moreover have "0 \<le> \<bar>a\<bar> mod b" using assms(2) by simp
  ultimately have "0 < \<bar>a\<bar> mod b" by linarith
  then show ?thesis using assms(1,2) by (simp add: crem_def)
qed

section \<open>Printing integers\<close>

text \<open>The text that fmt's \<open>{}\<close> produces for an integer, and \<open>{:08d}\<close> for an unsigned one.\<close>

definition digit_char :: "nat \<Rightarrow> char" where
  "digit_char d = char_of (48 + d)"

definition is_digit :: "char \<Rightarrow> bool" where
  "is_digit c \<longleftrightarrow> 48 \<le> (of_char c :: nat) \<and> (of_char c :: nat) \<le> 57"

definition digit_val :: "char \<Rightarrow> nat" where
  "digit_val c = of_char c - 48"

fun show_nat :: "nat \<Rightarrow> string" where
  "show_nat n = (if n < 10 then [digit_char n]
                 else show_nat (n div 10) @ [digit_char (n mod 10)])"

declare show_nat.simps [simp del]

definition show_int :: "int \<Rightarrow> string" where
  "show_int i = (if i < 0 then CHR ''-'' # show_nat (nat (- i)) else show_nat (nat i))"

definition show_pad8 :: "nat \<Rightarrow> string" where
  "show_pad8 n = replicate (8 - length (show_nat n)) (CHR ''0'') @ show_nat n"

definition digits_val :: "string \<Rightarrow> nat" where
  "digits_val ds = foldl (\<lambda>acc c. 10 * acc + digit_val c) 0 ds"

lemma of_char_digit: "d < 10 \<Longrightarrow> (of_char (digit_char d) :: nat) = 48 + d"
  by (simp add: digit_char_def)

lemma is_digit_char [simp]: "d < 10 \<Longrightarrow> is_digit (digit_char d)"
  by (simp add: is_digit_def of_char_digit)

lemma digit_val_char [simp]: "d < 10 \<Longrightarrow> digit_val (digit_char d) = d"
  by (simp add: digit_val_def of_char_digit)

lemma digits_val_snoc: "digits_val (ds @ [c]) = 10 * digits_val ds + digit_val c"
  by (simp add: digits_val_def)

lemma show_nat_neq_Nil [simp]: "show_nat n \<noteq> []"
  by (subst show_nat.simps) simp

lemma show_nat_digits: "\<forall>c \<in> set (show_nat n). is_digit c"
proof (induction n rule: show_nat.induct)
  case (1 n)
  then show ?case by (subst show_nat.simps) auto
qed

lemma digits_val_show_nat [simp]: "digits_val (show_nat n) = n"
proof (induction n rule: show_nat.induct)
  case (1 n)
  show ?case
  proof (cases "n < 10")
    case True
    then show ?thesis by (simp add: show_nat.simps [of n] digits_val_def)
  next
    case False
    with "1.IH" show ?thesis by (simp add: show_nat.simps [of n] digits_val_snoc)
  qed
qed

lemma show_nat_inject [simp]: "show_nat m = show_nat n \<longleftrightarrow> m = n"
  by (metis digits_val_show_nat)

lemma show_nat_hd: "show_nat n = c # cs \<Longrightarrow> is_digit c"
  using show_nat_digits [of n] by simp

lemma digit_not_minus [simp]: "\<not> is_digit (CHR ''-'')" "\<not> is_digit (CHR ''+'')"
  by (simp_all add: is_digit_def)

lemma show_nat_neq_minus: "show_nat m \<noteq> CHR ''-'' # cs"
  using show_nat_hd digit_not_minus by blast

lemma show_int_inject [simp]: "show_int i = show_int j \<longleftrightarrow> i = j"
  using show_nat_neq_minus [of "nat i" "show_nat (nat (- j))"]
    show_nat_neq_minus [of "nat j" "show_nat (nat (- i))"]
  by (auto simp: show_int_def)

lemma digits_val_replicate0 [simp]: "digits_val (replicate k (CHR ''0'') @ ds) = digits_val ds"
  by (induction k) (auto simp: digits_val_def digit_val_def)

lemma digits_val_pad8 [simp]: "digits_val (show_pad8 n) = n"
  by (simp add: show_pad8_def)

lemma show_pad8_inject [simp]: "show_pad8 m = show_pad8 n \<longleftrightarrow> m = n"
  by (metis digits_val_pad8)

lemma length_show_pad8: "8 \<le> length (show_pad8 n)"
  by (simp add: show_pad8_def)

text \<open>No separator that the program puts after a printed number is a digit or a sign.\<close>

lemma show_nat_chars: "c \<in> set (show_nat n) \<Longrightarrow> is_digit c"
  using show_nat_digits by blast

lemma show_int_chars: "c \<in> set (show_int i) \<Longrightarrow> is_digit c \<or> c = CHR ''-''"
  by (auto simp: show_int_def dest: show_nat_chars split: if_splits)

lemma prefix_sep_inject:
  "c \<notin> set xs \<Longrightarrow> c \<notin> set ys \<Longrightarrow> xs @ c # us = ys @ c # vs \<longleftrightarrow> xs = ys \<and> us = vs"
proof (induction xs arbitrary: ys)
  case Nil
  then show ?case by (cases ys) auto
next
  case (Cons x xs)
  then show ?case by (cases ys) auto
qed

section \<open>Parsing integers: std::stoi and std::stoll\<close>

text \<open>
  \<open>std::stoll\<close> skips white space, takes an optional sign and the longest run of decimal
  digits, ignores what follows, raises \<open>std::invalid_argument\<close> when there is no digit and
  \<open>std::out_of_range\<close> when the value does not fit. \<open>std::stoi\<close> is the same at \<open>int\<close>.
\<close>

definition is_space :: "char \<Rightarrow> bool" where
  "is_space c \<longleftrightarrow> c = CHR '' '' \<or> (9 \<le> (of_char c :: nat) \<and> (of_char c :: nat) \<le> 13)"

definition strto_int :: "int \<Rightarrow> int \<Rightarrow> string \<Rightarrow> stdexc + int" where
  "strto_int lo hi s =
     (let s1 = dropWhile is_space s;
          neg = (s1 \<noteq> [] \<and> hd s1 = CHR ''-'');
          s2 = (if s1 \<noteq> [] \<and> (hd s1 = CHR ''-'' \<or> hd s1 = CHR ''+'') then tl s1 else s1);
          ds = takeWhile is_digit s2;
          v = (if neg then - int (digits_val ds) else int (digits_val ds))
      in if ds = [] then Inl InvalidArgument
         else if v < lo \<or> hi < v then Inl OutOfRange else Inr v)"

definition stoi :: "string \<Rightarrow> stdexc + int" where
  "stoi = strto_int int_min int_max"

definition stoll :: "string \<Rightarrow> stdexc + int" where
  "stoll = strto_int llong_min llong_max"

lemma digit_not_space: "is_digit c \<Longrightarrow> \<not> is_space c"
  by (auto simp: is_digit_def is_space_def)

lemma takeWhile_show_nat [simp]:
  "(rest = [] \<or> \<not> is_digit (hd rest)) \<Longrightarrow> takeWhile is_digit (show_nat n @ rest) = show_nat n"
  using show_nat_digits [of n] by (cases rest) (auto simp: takeWhile_append)

lemma strto_show_int:
  assumes "lo \<le> i" and "i \<le> hi" and "rest = [] \<or> \<not> is_digit (hd rest)"
  shows "strto_int lo hi (show_int i @ rest) = Inr i"
proof (cases "i < 0")
  case True
  have "\<not> is_space (CHR ''-'')" by (simp add: is_space_def)
  with True assms show ?thesis by (simp add: strto_int_def show_int_def Let_def)
next
  case False
  obtain c cs where s: "show_nat (nat i) = c # cs" by (cases "show_nat (nat i)") auto
  then have d: "is_digit c" by (rule show_nat_hd)
  then have "c \<noteq> CHR ''-''" "c \<noteq> CHR ''+''" by auto
  moreover have "dropWhile is_space (show_nat (nat i) @ rest) = show_nat (nat i) @ rest"
    using s d digit_not_space by simp
  moreover have "takeWhile is_digit (show_nat (nat i) @ rest) = show_nat (nat i)"
    using assms(3) by simp
  ultimately show ?thesis using False assms s
    by (simp add: strto_int_def show_int_def Let_def) (metis digits_val_show_nat nat_0_le not_less)
qed

lemma stoll_show_int:
  "llong_min \<le> i \<Longrightarrow> i \<le> llong_max \<Longrightarrow> stoll (show_int i) = Inr i"
  using strto_show_int [of llong_min i llong_max "[]"] by (simp add: stoll_def)

lemma strto_int_range: "strto_int lo hi s = Inr v \<Longrightarrow> lo \<le> v \<and> v \<le> hi"
  by (auto simp: strto_int_def Let_def split: if_splits)

lemma stoi_range: "stoi s = Inr v \<Longrightarrow> int_min \<le> v \<and> v \<le> int_max"
  unfolding stoi_def by (rule strto_int_range)

section \<open>The environment\<close>

type_synonym environment = "string \<Rightarrow> string option"

definition get_env :: "environment \<Rightarrow> string \<Rightarrow> string \<Rightarrow> string" where
  "get_env env var default_value =
     (case env var of Some val \<Rightarrow> val | None \<Rightarrow> default_value)"

section \<open>std::map\<close>

text \<open>
  A \<open>std::map\<close> is an association list with strictly increasing keys; iterating over it is
  reading the list. \<open>std_map\<close> states the interface that the components use: \<open>find\<close>,
  \<open>insert\<close> (assignment through \<open>operator[]\<close>), \<open>erase\<close> and the keys in order.
\<close>

type_synonym ('k, 'v) smap = "('k \<times> 'v) list"

fun smap_insert :: "'k::linorder \<Rightarrow> 'v \<Rightarrow> ('k, 'v) smap \<Rightarrow> ('k, 'v) smap" where
  "smap_insert k v [] = [(k, v)]"
| "smap_insert k v ((k', v') # m) =
     (if k < k' then (k, v) # (k', v') # m
      else if k = k' then (k, v) # m
      else (k', v') # smap_insert k v m)"

definition smap_erase :: "'k::linorder \<Rightarrow> ('k, 'v) smap \<Rightarrow> ('k, 'v) smap" where
  "smap_erase k m = filter (\<lambda>(k', _). k' \<noteq> k) m"

definition smap_inv :: "('k::linorder, 'v) smap \<Rightarrow> bool" where
  "smap_inv m \<longleftrightarrow> sorted_wrt (<) (map fst m)"

locale std_map =
  fixes find :: "'m \<Rightarrow> 'k \<Rightarrow> 'v option"
    and insert :: "'k \<Rightarrow> 'v \<Rightarrow> 'm \<Rightarrow> 'm"
    and erase :: "'k \<Rightarrow> 'm \<Rightarrow> 'm"
    and keys :: "'m \<Rightarrow> 'k list"
    and invar :: "'m \<Rightarrow> bool"
  assumes find_insert: "invar m \<Longrightarrow> find (insert k v m) = (find m)(k := Some v)"
    and find_erase: "invar m \<Longrightarrow> find (erase k m) = (find m)(k := None)"
    and keys_find: "invar m \<Longrightarrow> set (keys m) = {k. find m k \<noteq> None}"
    and invar_insert: "invar m \<Longrightarrow> invar (insert k v m)"
    and invar_erase: "invar m \<Longrightarrow> invar (erase k m)"
begin

lemma find_erase_list:
  "invar m \<Longrightarrow> find (fold erase ks m) = (\<lambda>k. if k \<in> set ks then None else find m k)"
  by (induction ks arbitrary: m) (auto simp: find_erase invar_erase fun_eq_iff)

lemma invar_erase_list: "invar m \<Longrightarrow> invar (fold erase ks m)"
  by (induction ks arbitrary: m) (auto simp: invar_erase)

lemma invar_insert_list: "invar m \<Longrightarrow> invar (fold (\<lambda>x. insert (f x) (g x)) xs m)"
  by (induction xs arbitrary: m) (auto simp: invar_insert)

lemma find_insert_list_other:
  "invar m \<Longrightarrow> k \<notin> f ` set xs \<Longrightarrow> find (fold (\<lambda>x. insert (f x) (g x)) xs m) k = find m k"
  by (induction xs arbitrary: m) (auto simp: find_insert invar_insert)

lemma find_insert_list_last:
  "invar m \<Longrightarrow> k = f x \<Longrightarrow> k \<notin> f ` set ys \<Longrightarrow>
   find (fold (\<lambda>x. insert (f x) (g x)) (xs @ x # ys) m) k = Some (g x)"
  by (simp add: find_insert find_insert_list_other invar_insert invar_insert_list)

lemma find_insert_list_None_iff:
  "invar m \<Longrightarrow> find (fold (\<lambda>x. insert (f x) (g x)) xs m) k = None
     \<longleftrightarrow> find m k = None \<and> k \<notin> f ` set xs"
  by (induction xs arbitrary: m) (auto simp: find_insert invar_insert)

end

lemma smap_insert_keys: "set (map fst (smap_insert k v m)) = insert k (set (map fst m))"
  by (induction k v m rule: smap_insert.induct) auto

lemma smap_inv_Nil [simp, map_laws]: "smap_inv []"
  by (simp add: smap_inv_def)

lemma smap_inv_Cons:
  "smap_inv ((k, v) # m) \<longleftrightarrow> (\<forall>k' \<in> set (map fst m). k < k') \<and> smap_inv m"
  by (auto simp: smap_inv_def)

lemma smap_inv_insert [map_laws]: "smap_inv m \<Longrightarrow> smap_inv (smap_insert k v m)"
proof (induction k v m rule: smap_insert.induct)
  case (1 k v)
  then show ?case by (simp add: smap_inv_Cons)
next
  case (2 k v k' v' m)
  then show ?case
    using smap_insert_keys [of k v m] by (fastforce simp: smap_inv_Cons)
qed

lemma smap_inv_erase [map_laws]: "smap_inv m \<Longrightarrow> smap_inv (smap_erase k m)"
  by (induction m) (auto simp: smap_erase_def smap_inv_Cons)

lemma smap_find_insert [map_laws]: "smap_inv m \<Longrightarrow> map_of (smap_insert k v m) = (map_of m)(k := Some v)"
  by (induction k v m rule: smap_insert.induct) (auto simp: smap_inv_Cons fun_eq_iff)

lemma smap_find_erase [map_laws]: "map_of (smap_erase k m) = (map_of m)(k := None)"
  by (induction m) (auto simp: smap_erase_def fun_eq_iff)

interpretation smap: std_map map_of smap_insert smap_erase "map fst" smap_inv
  by unfold_locales (auto simp: map_laws map_of_eq_None_iff dom_map_of_conv_image_fst)

lemma smap_inv_distinct: "smap_inv m \<Longrightarrow> distinct (map fst m)"
  by (simp add: smap_inv_def strict_sorted_iff)

lemma smap_in_find: "smap_inv m \<Longrightarrow> (k, v) \<in> set m \<longleftrightarrow> map_of m k = Some v"
  by (simp add: smap_inv_distinct)

lemma smap_erase_absent: "map_of m k = None \<Longrightarrow> smap_erase k m = m"
  by (induction m) (auto simp: smap_erase_def split: if_splits)

text \<open>Two ordered maps with the same lookups are the same list, as \<open>operator==\<close> has it.\<close>

lemma smap_as_keys:
  assumes "smap_inv m"
  shows "map (\<lambda>k. (k, the (map_of m k))) (map fst m) = m"
proof -
  have "\<And>p. p \<in> set m \<Longrightarrow> (fst p, the (map_of m (fst p))) = p"
    using assms smap_inv_distinct by fastforce
  then show ?thesis by (simp add: o_def map_idI)
qed

lemma smap_ext:
  assumes "smap_inv m" and "smap_inv m'" and eq: "map_of m = map_of m'"
  shows "m = m'"
proof -
  have "set (map fst m) = set (map fst m')"
    using eq by (metis dom_map_of_conv_image_fst set_map)
  then have "map fst m = map fst m'"
    using assms(1,2) by (simp add: smap_inv_def strict_sorted_equal)
  then show ?thesis
    using smap_as_keys [OF assms(1)] smap_as_keys [OF assms(2)] eq by metis
qed

section \<open>Lists updated at an index\<close>

lemma length_filter_update:
  "i < length xs \<Longrightarrow> length (filter P (xs[i := x])) + (if P (xs ! i) then 1 else 0)
     = length (filter P xs) + (if P x then 1 else 0)"
proof (induction xs arbitrary: i)
  case (Cons y ys)
  show ?case
  proof (cases i)
    case (Suc k)
    with Cons.IH [of k] Cons.prems show ?thesis by auto
  qed simp
qed simp

lemma sum_list_update_less:
  fixes f :: "'a \<Rightarrow> nat"
  shows "i < length xs \<Longrightarrow> sum_list (map f (xs[i := x])) + f (xs ! i) = sum_list (map f xs) + f x"
proof (induction xs arbitrary: i)
  case Nil
  then show ?case by simp
next
  case (Cons y ys)
  then show ?case by (cases i) auto
qed

section \<open>Invariants of transition systems\<close>

text \<open>
  The interface of the state machines of the program: an initial-state predicate, a step
  relation, and an invariant that the start establishes and every step keeps.
\<close>

locale transition_system =
  fixes init :: "'s \<Rightarrow> bool"
    and step :: "'s \<Rightarrow> 's \<Rightarrow> bool"
    and inv :: "'s \<Rightarrow> bool"
  assumes inv_init: "init s \<Longrightarrow> inv s"
    and inv_step: "step s t \<Longrightarrow> inv s \<Longrightarrow> inv t"
begin

lemma inv_steps: "step\<^sup>*\<^sup>* s t \<Longrightarrow> inv s \<Longrightarrow> inv t"
  by (induction rule: rtranclp_induct) (auto intro: inv_step)

lemma inv_reachable: "init s \<Longrightarrow> step\<^sup>*\<^sup>* s t \<Longrightarrow> inv t"
  using inv_init inv_steps by blast

end

text \<open>
  A run in which some of the steps, \<open>n\<close> of them, are counted as the own steps of the threads
  under consideration, and the others may be anybody's.
\<close>

inductive interleaved :: "('s \<Rightarrow> 's \<Rightarrow> bool) \<Rightarrow> ('s \<Rightarrow> 's \<Rightarrow> bool) \<Rightarrow> nat \<Rightarrow> 's \<Rightarrow> 's \<Rightarrow> bool"
  for step move :: "'s \<Rightarrow> 's \<Rightarrow> bool" where
  Start: "interleaved step move 0 s s"
| Own: "interleaved step move n s t \<Longrightarrow> move t u \<Longrightarrow> interleaved step move (Suc n) s u"
| Any: "interleaved step move n s t \<Longrightarrow> step t u \<Longrightarrow> interleaved step move n s u"

text \<open>
  Threads that end once they are told to: while the system is \<open>closing\<close>, nobody's step adds to
  the work left for them, each of their own steps reduces it, and unless they have \<open>finished\<close> one
  of them can step.
\<close>

locale ending_threads = transition_system init step inv
  for init :: "'s \<Rightarrow> bool" and step :: "'s \<Rightarrow> 's \<Rightarrow> bool" and inv :: "'s \<Rightarrow> bool" +
  fixes move :: "'s \<Rightarrow> 's \<Rightarrow> bool"
    and closing :: "'s \<Rightarrow> bool"
    and work :: "'s \<Rightarrow> nat"
    and finished :: "'s \<Rightarrow> bool"
  assumes move_step: "move s t \<Longrightarrow> step s t"
    and closing_step: "step s t \<Longrightarrow> inv s \<Longrightarrow> closing s \<Longrightarrow> closing t \<and> work t \<le> work s"
    and move_work: "move s t \<Longrightarrow> inv s \<Longrightarrow> closing s \<Longrightarrow> work t < work s"
    and not_stuck: "inv s \<Longrightarrow> closing s \<Longrightarrow> \<not> finished s \<Longrightarrow> \<exists>t. move s t"
begin

lemma interleaved_work:
  "interleaved step move n s t \<Longrightarrow> inv s \<Longrightarrow> closing s \<Longrightarrow> inv t \<and> closing t \<and> n + work t \<le> work s"
proof (induction rule: interleaved.induct)
  case (Start s)
  then show ?case by simp
next
  case (Own n s t u)
  then have t: "inv t" "closing t" "n + work t \<le> work s" by simp_all
  have "inv u" "closing u" "work u < work t"
    using Own.hyps(2) t move_step inv_step closing_step move_work by blast+
  with t(3) show ?case by simp
next
  case (Any n s t u)
  then have t: "inv t" "closing t" "n + work t \<le> work s" by simp_all
  have "inv u" "closing u" "work u \<le> work t"
    using Any.hyps(2) t inv_step closing_step by blast+
  with t(3) show ?case by simp
qed

lemma own_steps_bounded:
  assumes "interleaved step move n s t" and "inv s" and "closing s"
  shows "n \<le> work s" and "finished t \<or> (\<exists>u. move t u)"
  using interleaved_work [OF assms] not_stuck [of t] by auto

lemma can_finish: "inv s \<Longrightarrow> closing s \<Longrightarrow> \<exists>t. move\<^sup>*\<^sup>* s t \<and> finished t"
proof (induction "work s" arbitrary: s rule: less_induct)
  case less
  show ?case
  proof (cases "finished s")
    case False
    then obtain t where t: "move s t" using not_stuck less.prems by blast
    then have "inv t" "closing t" "work t < work s"
      using less.prems move_step inv_step closing_step move_work by blast+
    from less.hyps [OF this(3,1,2)] t show ?thesis by (blast intro: converse_rtranclp_into_rtranclp)
  qed blast
qed

end

end
