(* ===== verification/Fifo.thy ===== *)
theory Fifo
  imports Prelude
begin

text \<open>
  The stoppable queue of \<open>src/src/utils/fifo.h\<close>. Every method body runs under
  \<open>mtx_\<close> (or is one atomic increment), so a method is one atomic step on the state record;
  threads interleave between methods. The clock reading of \<open>push\<close> is an argument, in
  nanoseconds since the clock's epoch. \<open>wait_and_pop\<close> on an empty open queue leaves the
  caller on the condition variable: that outcome is the value \<open>WouldBlock\<close> (theory \<open>FifoWait\<close>
  models the sleep and the wake-up). The counters
  are \<open>size_t\<close> and wrap; the number of queued items is bounded by memory and is a natural.
  The locale \<open>stoppable_queue\<close> is the contract that the pipeline's loops rely on.
\<close>

section \<open>State and operations\<close>

record 'a fifo =
  queue :: "'a list"
  warning_threshold :: "64 word"
  fifo_name :: string
  stopped :: bool
  last_warning_time :: int
  peak_size :: nat
  total_pushed :: "64 word"
  total_popped :: "64 word"
  drop_count :: "64 word"

record queue_stats =
  st_current_size :: nat
  st_peak_size :: nat
  st_total_pushed :: "64 word"
  st_total_popped :: "64 word"
  st_drop_count :: "64 word"

datatype ('a, 'q) pop_result = WouldBlock | Nullopt | Popped 'a 'q

text \<open>What an iteration of a consumer loop ends in.\<close>

datatype loop_state = LoopRunning | LoopWaiting | LoopEnded

abbreviation (input) ten_seconds :: int where "ten_seconds \<equiv> 10 * 10 ^ 9"

definition fifo_new :: "64 word \<Rightarrow> string \<Rightarrow> 'a fifo" where
  "fifo_new threshold nm =
     \<lparr>queue = [], warning_threshold = threshold, fifo_name = nm, stopped = False,
      last_warning_time = 0, peak_size = 0, total_pushed = 0, total_popped = 0,
      drop_count = 0\<rparr>"

text \<open>The second component of \<open>fifo_push\<close> says whether the warning was logged.\<close>

definition fifo_push :: "int \<Rightarrow> 'a \<Rightarrow> 'a fifo \<Rightarrow> 'a fifo \<times> bool" where
  "fifo_push now v q =
     (if stopped q then (q, False)
      else
        let q1 = q\<lparr>queue := queue q @ [v], total_pushed := total_pushed q + 1\<rparr>;
            q2 = (if peak_size q1 < length (queue q1)
                  then q1\<lparr>peak_size := length (queue q1)\<rparr> else q1)
        in if unat (warning_threshold q2) < length (queue q2)
           then if ten_seconds < now - last_warning_time q2
                then (q2\<lparr>last_warning_time := now\<rparr>, True)
                else (q2, False)
           else (q2, False))"

definition wait_and_pop :: "'a fifo \<Rightarrow> ('a, 'a fifo) pop_result" where
  "wait_and_pop q =
     (if queue q = [] \<and> \<not> stopped q then WouldBlock
      else if stopped q \<and> queue q = [] then Nullopt
      else Popped (hd (queue q))
             (q\<lparr>queue := tl (queue q), total_popped := total_popped q + 1\<rparr>))"

definition fifo_stop :: "'a fifo \<Rightarrow> 'a fifo" where
  "fifo_stop q = q\<lparr>stopped := True\<rparr>"

definition fifo_size :: "'a fifo \<Rightarrow> nat" where
  "fifo_size q = length (queue q)"

definition get_stats :: "bool \<Rightarrow> 'a fifo \<Rightarrow> queue_stats \<times> 'a fifo" where
  "get_stats reset_peak q =
     (\<lparr>st_current_size = length (queue q), st_peak_size = peak_size q,
       st_total_pushed = total_pushed q, st_total_popped = total_popped q,
       st_drop_count = drop_count q\<rparr>,
      if reset_peak then q\<lparr>peak_size := length (queue q)\<rparr> else q)"

definition increment_drop_count :: "'a fifo \<Rightarrow> 'a fifo" where
  "increment_drop_count q = q\<lparr>drop_count := drop_count q + 1\<rparr>"

abbreviation push :: "int \<Rightarrow> 'a \<Rightarrow> 'a fifo \<Rightarrow> 'a fifo" where
  "push now v q \<equiv> fst (fifo_push now v q)"

section \<open>The contract of a stoppable queue\<close>

text \<open>
  \<open>drain\<close> is the consumer loop of the worker, batching and publisher threads: pop until
  the queue reports its end. The flag says that the end was reported; fuel bounds the
  number of pops.
\<close>

fun drain :: "('q \<Rightarrow> ('a, 'q) pop_result) \<Rightarrow> nat \<Rightarrow> 'q \<Rightarrow> 'a list \<times> 'q \<times> bool" where
  "drain pop 0 q = ([], q, False)"
| "drain pop (Suc n) q =
     (case pop q of
        WouldBlock \<Rightarrow> ([], q, False)
      | Nullopt \<Rightarrow> ([], q, True)
      | Popped x q' \<Rightarrow> (case drain pop n q' of (xs, r, e) \<Rightarrow> (x # xs, r, e)))"

locale stoppable_queue =
  fixes contents :: "'q \<Rightarrow> 'a list"
    and closed :: "'q \<Rightarrow> bool"
    and enq :: "'t \<Rightarrow> 'a \<Rightarrow> 'q \<Rightarrow> 'q"
    and pop :: "'q \<Rightarrow> ('a, 'q) pop_result"
    and close :: "'q \<Rightarrow> 'q"
  assumes enq_open: "\<not> closed q \<Longrightarrow> contents (enq t x q) = contents q @ [x]"
    and enq_closed: "closed q \<Longrightarrow> enq t x q = q"
    and closed_enq: "closed (enq t x q) = closed q"
    and pop_item: "contents q = x # xs \<Longrightarrow>
      \<exists>q'. pop q = Popped x q' \<and> contents q' = xs \<and> closed q' = closed q"
    and pop_empty: "contents q = [] \<Longrightarrow> pop q = (if closed q then Nullopt else WouldBlock)"
    and contents_close: "contents (close q) = contents q"
    and closed_close: "closed (close q)"
begin

lemma enq_list_open:
  "\<not> closed q \<Longrightarrow>
   contents (fold (\<lambda>(t, x). enq t x) txs q) = contents q @ map snd txs
   \<and> \<not> closed (fold (\<lambda>(t, x). enq t x) txs q)"
proof (induction txs arbitrary: q)
  case Nil
  then show ?case by simp
next
  case (Cons p txs)
  obtain t x where p: "p = (t, x)" by (cases p)
  have "\<not> closed (enq t x q)" using Cons.prems by (simp add: closed_enq)
  from Cons.IH [OF this] Cons.prems show ?case by (simp add: p enq_open)
qed

lemma enq_list_closed: "closed q \<Longrightarrow> fold (\<lambda>(t, x). enq t x) txs q = q"
  by (induction txs arbitrary: q) (auto simp: enq_closed)

lemma drain_open:
  "\<not> closed q \<Longrightarrow> length (contents q) < n \<Longrightarrow>
   fst (drain pop n q) = contents q \<and> \<not> snd (snd (drain pop n q))"
proof (induction n arbitrary: q)
  case 0
  then show ?case by simp
next
  case (Suc n)
  show ?case
  proof (cases "contents q")
    case Nil
    with Suc.prems show ?thesis by (simp add: pop_empty)
  next
    case (Cons x xs)
    then obtain q' where q': "pop q = Popped x q'" "contents q' = xs" "closed q' = closed q"
      using pop_item by blast
    with Suc.IH [of q'] Suc.prems Cons show ?thesis by (auto split: prod.splits)
  qed
qed

lemma drain_closed:
  "closed q \<Longrightarrow> length (contents q) < n \<Longrightarrow>
   fst (drain pop n q) = contents q \<and> snd (snd (drain pop n q))"
proof (induction n arbitrary: q)
  case 0
  then show ?case by simp
next
  case (Suc n)
  show ?case
  proof (cases "contents q")
    case Nil
    with Suc.prems show ?thesis by (simp add: pop_empty)
  next
    case (Cons x xs)
    then obtain q' where q': "pop q = Popped x q'" "contents q' = xs" "closed q' = closed q"
      using pop_item by blast
    with Suc.IH [of q'] Suc.prems Cons show ?thesis by (auto split: prod.splits)
  qed
qed

text \<open>
  The shutdown contract: what was accepted before the close is handed out in order, then the
  end is reported; what is offered after the close is not accepted.
\<close>

lemma close_then_drain:
  assumes "\<not> closed q"
    and "length (contents q) + length txs < n"
  shows "fst (drain pop n
             (fold (\<lambda>(t, x). enq t x) late (close (fold (\<lambda>(t, x). enq t x) txs q))))
           = contents q @ map snd txs"
    and "snd (snd (drain pop n
             (fold (\<lambda>(t, x). enq t x) late (close (fold (\<lambda>(t, x). enq t x) txs q)))))"
proof -
  let ?q = "close (fold (\<lambda>(t, x). enq t x) txs q)"
  have c: "contents ?q = contents q @ map snd txs" "closed ?q"
    using enq_list_open [OF assms(1), of txs] by (simp_all add: contents_close closed_close)
  then have "fold (\<lambda>(t, x). enq t x) late ?q = ?q"
    by (simp add: enq_list_closed)
  with drain_closed [of ?q n] c assms(2) show
    "fst (drain pop n (fold (\<lambda>(t, x). enq t x) late ?q)) = contents q @ map snd txs"
    "snd (snd (drain pop n (fold (\<lambda>(t, x). enq t x) late ?q)))"
    by simp_all
qed

end

lemma fifo_push_stopped [simp]: "stopped q \<Longrightarrow> fifo_push now v q = (q, False)"
  by (simp add: fifo_push_def)

lemma fifo_push_fields:
  assumes "\<not> stopped q"
  shows "queue (push now v q) = queue q @ [v]"
    and "stopped (push now v q) = False"
    and "total_pushed (push now v q) = total_pushed q + 1"
    and "total_popped (push now v q) = total_popped q"
    and "peak_size (push now v q) = max (peak_size q) (Suc (length (queue q)))"
    and "warning_threshold (push now v q) = warning_threshold q"
    and "last_warning_time (push now v q)
           = (if snd (fifo_push now v q) then now else last_warning_time q)"
    and "snd (fifo_push now v q) \<longleftrightarrow>
           unat (warning_threshold q) < Suc (length (queue q))
           \<and> ten_seconds < now - last_warning_time q"
  using assms by (auto simp: fifo_push_def Let_def)

lemma stopped_push [simp]: "stopped (push now v q) = stopped q"
  by (cases "stopped q") (simp_all add: fifo_push_fields)

lemma wait_and_pop_Cons:
  "queue q = x # xs \<Longrightarrow>
   wait_and_pop q = Popped x (q\<lparr>queue := xs, total_popped := total_popped q + 1\<rparr>)"
  by (simp add: wait_and_pop_def)

lemma wait_and_pop_Nil:
  "queue q = [] \<Longrightarrow> wait_and_pop q = (if stopped q then Nullopt else WouldBlock)"
  by (simp add: wait_and_pop_def)

lemma wait_and_pop_Popped:
  "wait_and_pop q = Popped x q' \<longleftrightarrow>
   (\<exists>xs. queue q = x # xs \<and> q' = q\<lparr>queue := xs, total_popped := total_popped q + 1\<rparr>)"
  by (cases "queue q") (auto simp: wait_and_pop_def)

lemma fifo_stop_fields [simp]:
  "queue (fifo_stop q) = queue q" "stopped (fifo_stop q)"
  "total_pushed (fifo_stop q) = total_pushed q" "total_popped (fifo_stop q) = total_popped q"
  "peak_size (fifo_stop q) = peak_size q"
  "warning_threshold (fifo_stop q) = warning_threshold q"
  "last_warning_time (fifo_stop q) = last_warning_time q"
  by (simp_all add: fifo_stop_def)

lemma push_queue [simp]:
  "queue (push t x q) = (if stopped q then queue q else queue q @ [x])"
  by (simp add: fifo_push_def Let_def)

interpretation fq: stoppable_queue queue stopped push wait_and_pop fifo_stop
  by unfold_locales
    (auto simp: fifo_push_fields wait_and_pop_Cons wait_and_pop_Nil)

section \<open>Runs: any interleaving of the methods\<close>

text \<open>
  A run is the sequence of method calls in the order in which the threads obtain the mutex.
  Each call leaves events: what was accepted or rejected, the warning, what was handed out.
\<close>

datatype 'a queue_op = Push int 'a | Pop | Stop | Stats bool | IncDrop

datatype 'a queue_event =
  Accepted 'a | Rejected 'a | Warned int nat | Got 'a | Blocked | Ended

fun fifo_step :: "'a queue_op \<Rightarrow> 'a fifo \<Rightarrow> 'a fifo \<times> 'a queue_event list" where
  "fifo_step (Push now v) q =
     (push now v q,
      (if stopped q then [Rejected v] else [Accepted v]) @
      (if snd (fifo_push now v q) then [Warned now (length (queue (push now v q)))] else []))"
| "fifo_step Pop q =
     (case wait_and_pop q of
        WouldBlock \<Rightarrow> (q, [Blocked])
      | Nullopt \<Rightarrow> (q, [Ended])
      | Popped x q' \<Rightarrow> (q', [Got x]))"
| "fifo_step Stop q = (fifo_stop q, [])"
| "fifo_step (Stats r) q = (snd (get_stats r q), [])"
| "fifo_step IncDrop q = (increment_drop_count q, [])"

fun fifo_run :: "'a queue_op list \<Rightarrow> 'a fifo \<Rightarrow> 'a fifo \<times> 'a queue_event list" where
  "fifo_run [] q = (q, [])"
| "fifo_run (a # ops) q =
     (case fifo_step a q of (q1, es) \<Rightarrow>
        (case fifo_run ops q1 of (q2, fs) \<Rightarrow> (q2, es @ fs)))"

definition accepted_of :: "'a queue_event list \<Rightarrow> 'a list" where
  "accepted_of es = concat (map (\<lambda>e. case e of Accepted x \<Rightarrow> [x] | _ \<Rightarrow> []) es)"

definition got_of :: "'a queue_event list \<Rightarrow> 'a list" where
  "got_of es = concat (map (\<lambda>e. case e of Got x \<Rightarrow> [x] | _ \<Rightarrow> []) es)"

definition warnings_of :: "'a queue_event list \<Rightarrow> (int \<times> nat) list" where
  "warnings_of es = concat (map (\<lambda>e. case e of Warned t n \<Rightarrow> [(t, n)] | _ \<Rightarrow> []) es)"

lemma event_proj_append [simp]:
  "accepted_of (es @ fs) = accepted_of es @ accepted_of fs"
  "got_of (es @ fs) = got_of es @ got_of fs"
  "warnings_of (es @ fs) = warnings_of es @ warnings_of fs"
  by (simp_all add: accepted_of_def got_of_def warnings_of_def)

lemma event_proj_simps [simp]:
  "accepted_of [] = []" "got_of [] = []" "warnings_of [] = []"
  "accepted_of (Accepted x # es) = x # accepted_of es"
  "got_of (Accepted x # es) = got_of es"
  "warnings_of (Accepted x # es) = warnings_of es"
  "accepted_of (Rejected x # es) = accepted_of es"
  "got_of (Rejected x # es) = got_of es"
  "warnings_of (Rejected x # es) = warnings_of es"
  "accepted_of (Warned t n # es) = accepted_of es"
  "got_of (Warned t n # es) = got_of es"
  "warnings_of (Warned t n # es) = (t, n) # warnings_of es"
  "accepted_of (Got x # es) = accepted_of es"
  "got_of (Got x # es) = x # got_of es"
  "warnings_of (Got x # es) = warnings_of es"
  "accepted_of (Blocked # es) = accepted_of es"
  "got_of (Blocked # es) = got_of es"
  "warnings_of (Blocked # es) = warnings_of es"
  "accepted_of (Ended # es) = accepted_of es"
  "got_of (Ended # es) = got_of es"
  "warnings_of (Ended # es) = warnings_of es"
  by (simp_all add: accepted_of_def got_of_def warnings_of_def)

lemma get_stats_fields [simp]:
  "queue (snd (get_stats r q)) = queue q" "stopped (snd (get_stats r q)) = stopped q"
  "total_pushed (snd (get_stats r q)) = total_pushed q"
  "total_popped (snd (get_stats r q)) = total_popped q"
  "warning_threshold (snd (get_stats r q)) = warning_threshold q"
  "last_warning_time (snd (get_stats r q)) = last_warning_time q"
  "peak_size (snd (get_stats r q)) = (if r then length (queue q) else peak_size q)"
  by (simp_all add: get_stats_def)

lemma increment_drop_fields [simp]:
  "queue (increment_drop_count q) = queue q" "stopped (increment_drop_count q) = stopped q"
  "total_pushed (increment_drop_count q) = total_pushed q"
  "total_popped (increment_drop_count q) = total_popped q"
  "warning_threshold (increment_drop_count q) = warning_threshold q"
  "last_warning_time (increment_drop_count q) = last_warning_time q"
  "peak_size (increment_drop_count q) = peak_size q"
  by (simp_all add: increment_drop_count_def)

text \<open>One call preserves the order and the books of the queue.\<close>

lemma fifo_step_order:
  "queue q @ accepted_of (snd (fifo_step a q)) = got_of (snd (fifo_step a q)) @ queue (fst (fifo_step a q))"
proof (cases a)
  case (Push t v)
  then show ?thesis by (cases "stopped q") (auto simp: fifo_push_fields)
next
  case Pop
  then show ?thesis by (cases "queue q") (auto simp: wait_and_pop_Cons wait_and_pop_Nil)
qed auto

lemma fifo_run_Cons:
  "fst (fifo_run (a # ops) q) = fst (fifo_run ops (fst (fifo_step a q)))"
  "snd (fifo_run (a # ops) q) = snd (fifo_step a q) @ snd (fifo_run ops (fst (fifo_step a q)))"
  by (simp_all split: prod.splits)

text \<open>
  The invariant of the counters: pushed minus popped is the number of queued items (in the
  wrapping arithmetic of \<open>size_t\<close>) and the peak is never below the current size.
\<close>

definition fifo_inv :: "'a fifo \<Rightarrow> bool" where
  "fifo_inv q \<longleftrightarrow> total_pushed q = total_popped q + of_nat (length (queue q))
     \<and> length (queue q) \<le> peak_size q"

lemma fifo_inv_new [simp]: "fifo_inv (fifo_new thr nm)"
  by (simp add: fifo_inv_def fifo_new_def)

lemma fifo_inv_step: "fifo_inv q \<Longrightarrow> fifo_inv (fst (fifo_step a q))"
proof (cases a)
  case (Push t v)
  then show "fifo_inv q \<Longrightarrow> ?thesis"
    by (cases "stopped q") (auto simp: fifo_inv_def fifo_push_fields)
next
  case Pop
  then show "fifo_inv q \<Longrightarrow> ?thesis"
    by (cases "queue q") (auto simp: fifo_inv_def wait_and_pop_Cons wait_and_pop_Nil)
qed (auto simp: fifo_inv_def)

interpretation fifo_ts: transition_system
  "\<lambda>q. \<exists>thr nm. q = fifo_new thr nm" "\<lambda>q q'. \<exists>a. q' = fst (fifo_step a q)" fifo_inv
  by unfold_locales (auto simp: fifo_inv_step)

lemma fifo_run_steps: "(\<lambda>q q'. \<exists>a. q' = fst (fifo_step a q))\<^sup>*\<^sup>* q (fst (fifo_run ops q))"
proof (induction ops arbitrary: q)
  case Nil
  then show ?case by simp
next
  case (Cons a ops)
  show ?case
    unfolding fifo_run_Cons by (rule converse_rtranclp_into_rtranclp [OF _ Cons.IH]) blast
qed

lemma fifo_step_counts:
  "total_pushed (fst (fifo_step a q))
     = total_pushed q + of_nat (length (accepted_of (snd (fifo_step a q))))
   \<and> total_popped (fst (fifo_step a q))
     = total_popped q + of_nat (length (got_of (snd (fifo_step a q))))"
proof (cases a)
  case (Push t v)
  then show ?thesis by (cases "stopped q") (auto simp: fifo_push_fields)
next
  case Pop
  then show ?thesis by (cases "queue q") (auto simp: wait_and_pop_Cons wait_and_pop_Nil)
qed auto

lemma fifo_step_warnings:
  "warnings_of (snd (fifo_step a q)) = [] \<and>
     last_warning_time (fst (fifo_step a q)) = last_warning_time q
   \<or> (\<exists>t n. warnings_of (snd (fifo_step a q)) = [(t, n)]
        \<and> last_warning_time (fst (fifo_step a q)) = t
        \<and> ten_seconds < t - last_warning_time q
        \<and> unat (warning_threshold q) < n)"
proof (cases a)
  case (Push t v)
  then show ?thesis by (cases "stopped q") (auto simp: fifo_push_fields)
next
  case Pop
  then show ?thesis by (cases "queue q") (auto simp: wait_and_pop_Cons wait_and_pop_Nil)
qed auto

lemma warning_threshold_step [simp]:
  "warning_threshold (fst (fifo_step a q)) = warning_threshold q"
proof (cases a)
  case (Push t v)
  then show ?thesis by (cases "stopped q") (auto simp: fifo_push_fields)
next
  case Pop
  then show ?thesis by (cases "queue q") (auto simp: wait_and_pop_Cons wait_and_pop_Nil)
qed auto

section \<open>Properties\<close>

text \<open>
  C20: under any interleaving of pushes, pops, stops and statistics calls, what the consumers
  get is a prefix of what the queue accepted, in the same order, and the queue holds the rest.
\<close>

theorem fifo_order:
  "queue q @ accepted_of (snd (fifo_run ops q))
     = got_of (snd (fifo_run ops q)) @ queue (fst (fifo_run ops q))"
proof (induction ops arbitrary: q)
  case Nil
  then show ?case by simp
next
  case (Cons a ops)
  have "queue q @ accepted_of (snd (fifo_step a q))
      = got_of (snd (fifo_step a q)) @ queue (fst (fifo_step a q))"
    by (rule fifo_step_order)
  with Cons.IH [of "fst (fifo_step a q)"] show ?case
    unfolding fifo_run_Cons event_proj_append by (metis append.assoc)
qed

text \<open>
  from a new queue, the wrapping counters after any run are the numbers of accepted and of
  handed-out items, and the recorded peak is at least the current size.
\<close>

theorem fifo_counters:
  fixes thr :: "64 word" and nm :: string and ops :: "'a queue_op list"
  defines "r \<equiv> fifo_run ops (fifo_new thr nm)"
  shows "total_pushed (fst r) = of_nat (length (accepted_of (snd r)))
    \<and> total_popped (fst r) = of_nat (length (got_of (snd r)))
    \<and> total_pushed (fst r) - total_popped (fst r) = of_nat (length (queue (fst r)))
    \<and> length (queue (fst r)) \<le> peak_size (fst r)"
proof -
  have cnt: "total_pushed (fst (fifo_run ops q))
        = total_pushed q + of_nat (length (accepted_of (snd (fifo_run ops q))))
      \<and> total_popped (fst (fifo_run ops q))
        = total_popped q + of_nat (length (got_of (snd (fifo_run ops q))))" for q :: "'a fifo"
    by (induction ops arbitrary: q) (auto simp: fifo_run_Cons fifo_step_counts simp del: fifo_run.simps(2))
  have "fifo_inv (fst r)"
    unfolding r_def by (rule fifo_ts.inv_reachable [OF _ fifo_run_steps]) blast
  with cnt [of "fifo_new thr nm"] show ?thesis
    by (simp add: r_def fifo_inv_def fifo_new_def)
qed

text \<open>
  once \<open>stop\<close> has been called, the consumer loop terminates: it takes everything that was
  accepted before the stop, in order, then sees the end; pushes after the stop leave no trace.
\<close>

theorem fifo_stop_then_drain:
  assumes "\<not> stopped q" and "length (queue q) + length txs < n"
  shows "fst (drain wait_and_pop n
             (fold (\<lambda>(t, x). push t x) late (fifo_stop (fold (\<lambda>(t, x). push t x) txs q))))
           = queue q @ map snd txs
    \<and> snd (snd (drain wait_and_pop n
             (fold (\<lambda>(t, x). push t x) late (fifo_stop (fold (\<lambda>(t, x). push t x) txs q)))))"
  using fq.close_then_drain [OF assms] by blast

theorem fifo_stop_then_drain_witness:
  "fst (drain wait_and_pop 3
      (fold (\<lambda>(t, x). push t x) [(9, 7)]
        (fifo_stop (fold (\<lambda>(t, x). push t x) [(1, 5), (2, 6)] (fifo_new 0 ''q'')))))
     = [5, 6::nat]"
  using fifo_stop_then_drain [of "fifo_new 0 ''q''" "[(1, 5), (2, 6::nat)]" 3 "[(9, 7)]"]
  by (simp add: fifo_new_def)

text \<open>
  in any run the high-water warnings are more than ten seconds apart, the first one more
  than ten seconds after the clock value stored in the queue, and each is logged at a size above
  the threshold.
\<close>

theorem fifo_warnings_rate_limited:
  "sorted_wrt (\<lambda>s t. ten_seconds < t - s)
      (last_warning_time q # map fst (warnings_of (snd (fifo_run ops q))))
   \<and> list_all (\<lambda>(t, n). unat (warning_threshold q) < n) (warnings_of (snd (fifo_run ops q)))"
proof (induction ops arbitrary: q)
  case Nil
  then show ?case by simp
next
  case (Cons a ops)
  let ?q = "fst (fifo_step a q)"
  note IH = Cons.IH [of ?q]
  from fifo_step_warnings [of a q] show ?case
  proof (elim disjE exE conjE)
    assume "warnings_of (snd (fifo_step a q)) = []" "last_warning_time ?q = last_warning_time q"
    with IH show ?thesis by (simp add: fifo_run_Cons del: fifo_run.simps(2))
  next
    fix t n
    assume w: "warnings_of (snd (fifo_step a q)) = [(t, n)]" "last_warning_time ?q = t"
      "ten_seconds < t - last_warning_time q" "unat (warning_threshold q) < n"
    then show ?thesis using IH
      by (auto simp: fifo_run_Cons simp del: fifo_run.simps(2))
  qed
qed

end
