(* ===== verification/FifoWait.thy ===== *)
theory FifoWait
  imports Fifo
begin

text \<open>
  The condition variable of \<open>src/src/utils/fifo.h\<close>. Theory \<open>Fifo\<close> takes a call of a method as one
  atomic step; here a call of \<open>wait_and_pop\<close> is the code between two points at which the mutex is
  free: it takes an item, reports the end, or goes to sleep; a sleeping thread is notified by
  \<open>push\<close> or \<open>stop\<close>, or wakes up for no reason, and then tests the condition again. The steps
  refine those of theory \<open>Fifo\<close>, and no wake-up is lost.
\<close>

section \<open>State and steps\<close>

text \<open>Where a consumer thread is: outside the queue, asleep, or woken and about to test again.\<close>

datatype waiter = Outside | Asleep | Woken

record 'a monitor =
  shared :: "'a fifo"
  waiters :: "waiter list"
  handed :: "(nat \<times> 'a) list"

definition monitor_start :: "64 word \<Rightarrow> string \<Rightarrow> nat \<Rightarrow> 'a monitor" where
  "monitor_start thr nm n = \<lparr>shared = fifo_new thr nm, waiters = replicate n Outside, handed = []\<rparr>"

definition notify_one :: "nat \<Rightarrow> waiter list \<Rightarrow> waiter list" where
  "notify_one j ws = (if j < length ws \<and> ws ! j = Asleep then ws[j := Woken] else ws)"

definition notify_all :: "waiter list \<Rightarrow> waiter list" where
  "notify_all ws = map (\<lambda>w. if w = Asleep then Woken else w) ws"

text \<open>\<open>j\<close> is the thread that the condition variable chooses to notify.\<close>

definition push_region :: "int \<Rightarrow> 'a \<Rightarrow> nat \<Rightarrow> 'a monitor \<Rightarrow> 'a monitor" where
  "push_region now v j m =
     (if stopped (shared m) then m
      else m\<lparr>shared := push now v (shared m), waiters := notify_one j (waiters m)\<rparr>)"

definition stop_region :: "'a monitor \<Rightarrow> 'a monitor" where
  "stop_region m = m\<lparr>shared := fifo_stop (shared m), waiters := notify_all (waiters m)\<rparr>"

definition pop_region :: "nat \<Rightarrow> 'a monitor \<Rightarrow> 'a monitor option" where
  "pop_region i m =
     (if i < length (waiters m) \<and> waiters m ! i \<noteq> Asleep
      then Some (case wait_and_pop (shared m) of
              WouldBlock \<Rightarrow> m\<lparr>waiters := (waiters m)[i := Asleep]\<rparr>
            | Nullopt \<Rightarrow> m\<lparr>waiters := (waiters m)[i := Outside]\<rparr>
            | Popped v q \<Rightarrow> m\<lparr>shared := q, waiters := (waiters m)[i := Outside],
                             handed := handed m @ [(i, v)]\<rparr>)
      else None)"

definition spurious :: "nat \<Rightarrow> 'a monitor \<Rightarrow> 'a monitor" where
  "spurious j m = m\<lparr>waiters := notify_one j (waiters m)\<rparr>"

text \<open>A thread that sleeps is notified if there is one.\<close>

definition chooses :: "nat \<Rightarrow> waiter list \<Rightarrow> bool" where
  "chooses j ws \<longleftrightarrow> (Asleep \<in> set ws \<longrightarrow> j < length ws \<and> ws ! j = Asleep)"

inductive monitor_step :: "'a monitor \<Rightarrow> 'a monitor \<Rightarrow> bool" where
  Push: "chooses j (waiters m) \<Longrightarrow> monitor_step m (push_region now v j m)"
| Pop: "pop_region i m = Some m' \<Longrightarrow> monitor_step m m'"
| Stop: "monitor_step m (stop_region m)"
| Spurious: "monitor_step m (spurious j m)"
| Stats: "monitor_step m (m\<lparr>shared := snd (get_stats r (shared m))\<rparr>)"
| Drop: "monitor_step m (m\<lparr>shared := increment_drop_count (shared m)\<rparr>)"

inductive_cases monitor_stepE: "monitor_step m m'"

section \<open>The steps refine those of the atomic queue\<close>

definition woken :: "waiter list \<Rightarrow> nat" where
  "woken ws = length (filter (\<lambda>w. w = Woken) ws)"

definition monitor_inv :: "'a monitor \<Rightarrow> bool" where
  "monitor_inv m \<longleftrightarrow>
     (Asleep \<in> set (waiters m) \<longrightarrow>
        \<not> stopped (shared m) \<and> length (queue (shared m)) \<le> woken (waiters m))"

lemma woken_update:
  "i < length ws \<Longrightarrow> woken (ws[i := w]) + (if ws ! i = Woken then 1 else 0)
     = woken ws + (if w = Woken then 1 else 0)"
  unfolding woken_def by (rule length_filter_update)

lemma asleep_update:
  "Asleep \<in> set (ws[i := w]) \<Longrightarrow> w \<noteq> Asleep \<Longrightarrow> Asleep \<in> set ws"
  using set_update_subset_insert [of ws i w] by auto

lemma notify_one_woken:
  assumes "Asleep \<in> set (notify_one j ws)" and "chooses j ws"
  shows "woken (notify_one j ws) = Suc (woken ws)"
proof -
  have "Asleep \<in> set ws"
    using assms(1) asleep_update [of ws j Woken] by (auto simp: notify_one_def split: if_splits)
  with assms(2) show ?thesis
    using woken_update [of j ws Woken] by (auto simp: chooses_def notify_one_def)
qed

lemma notify_one_mono: "woken ws \<le> woken (notify_one j ws)"
  using woken_update [of j ws Woken] by (auto simp: notify_one_def)

lemma notify_one_asleep: "Asleep \<in> set (notify_one j ws) \<Longrightarrow> Asleep \<in> set ws"
  using asleep_update [of ws j Woken] by (auto simp: notify_one_def split: if_splits)

lemma pop_region_inv:
  assumes "monitor_inv m" and "pop_region i m = Some m'"
  shows "monitor_inv m'"
proof -
  have i: "i < length (waiters m)" "waiters m ! i \<noteq> Asleep"
    using assms(2) by (auto simp: pop_region_def split: if_splits)
  show ?thesis
  proof (cases "wait_and_pop (shared m)")
    case WouldBlock
    then have "queue (shared m) = []" "\<not> stopped (shared m)"
      by (auto simp: wait_and_pop_def split: if_splits)
    with assms(2) i WouldBlock show ?thesis by (auto simp: pop_region_def monitor_inv_def)
  next
    case Nullopt
    then have "stopped (shared m)" by (auto simp: wait_and_pop_def split: if_splits)
    with assms i Nullopt asleep_update [of "waiters m" i Outside] show ?thesis
      by (auto simp: pop_region_def monitor_inv_def)
  next
    case (Popped v q)
    then have "length (queue (shared m)) = Suc (length (queue q))" "stopped q = stopped (shared m)"
      by (auto simp: wait_and_pop_Popped)
    with assms i Popped asleep_update [of "waiters m" i Outside] woken_update [OF i(1), of Outside]
    show ?thesis by (fastforce simp: pop_region_def monitor_inv_def split: if_splits)
  qed
qed

lemma push_region_inv:
  assumes "monitor_inv m" and "chooses j (waiters m)"
  shows "monitor_inv (push_region now v j m)"
  using assms notify_one_woken [OF _ assms(2)] notify_one_asleep [of j "waiters m"]
  by (auto simp: push_region_def monitor_inv_def)

lemma stop_region_inv: "monitor_inv (stop_region m)"
  by (auto simp: stop_region_def monitor_inv_def notify_all_def split: if_splits)

lemma spurious_inv: "monitor_inv m \<Longrightarrow> monitor_inv (spurious j m)"
  using notify_one_asleep [of j "waiters m"] notify_one_mono [of "waiters m" j]
  by (auto simp: spurious_def monitor_inv_def)

interpretation monitor_ts: transition_system "\<lambda>m. \<exists>thr nm n. m = monitor_start thr nm n"
  monitor_step monitor_inv
proof unfold_locales
  show "monitor_inv m" if "\<exists>thr nm n. m = monitor_start thr nm n" for m :: "'a monitor"
    using that by (auto simp: monitor_inv_def monitor_start_def)
  show "monitor_inv m'" if "monitor_step m m'" "monitor_inv m" for m m' :: "'a monitor"
    using that by (auto elim!: monitor_stepE intro: pop_region_inv push_region_inv stop_region_inv spurious_inv)
      (auto simp: monitor_inv_def increment_drop_count_def)
qed

text \<open>A step is a call of the atomic queue or leaves the queue as it is.\<close>

lemma monitor_step_refines:
  assumes "monitor_step m m'"
  shows "shared m' = shared m \<and> handed m' = handed m
    \<or> (\<exists>a. shared m' = fst (fifo_step a (shared m))
         \<and> map snd (handed m') = map snd (handed m) @ got_of (snd (fifo_step a (shared m))))"
  using assms
proof (rule monitor_stepE)
  fix i
  assume "pop_region i m = Some m'"
  then have "shared m' = shared m \<and> handed m' = handed m
    \<or> shared m' = fst (fifo_step queue_op.Pop (shared m))
      \<and> map snd (handed m') = map snd (handed m) @ got_of (snd (fifo_step queue_op.Pop (shared m)))"
    by (auto simp: pop_region_def split: if_splits pop_result.splits)
  then show ?thesis by blast
next
  fix j now v
  assume "m' = push_region now v j m"
  then have "shared m' = fst (fifo_step (queue_op.Push now v) (shared m))" "handed m' = handed m"
    by (auto simp: push_region_def fifo_push_def)
  then show ?thesis by (intro disjI2 exI [of _ "queue_op.Push now v"]) simp
next
  assume "m' = stop_region m"
  then show ?thesis by (intro disjI2 exI [of _ queue_op.Stop]) (simp add: stop_region_def)
next
  fix r
  assume "m' = m\<lparr>shared := snd (get_stats r (shared m))\<rparr>"
  then show ?thesis by (intro disjI2 exI [of _ "queue_op.Stats r"]) simp
next
  assume "m' = m\<lparr>shared := increment_drop_count (shared m)\<rparr>"
  then show ?thesis by (intro disjI2 exI [of _ queue_op.IncDrop]) simp
qed (simp add: spurious_def)

lemma fifo_run_snoc: "fifo_run (as @ [a]) q =
    (fst (fifo_step a (fst (fifo_run as q))),
     snd (fifo_run as q) @ snd (fifo_step a (fst (fifo_run as q))))"
  by (induction as arbitrary: q) (simp_all add: split_beta)

lemma monitor_refines:
  "monitor_step\<^sup>*\<^sup>* m m' \<Longrightarrow> handed m = [] \<Longrightarrow>
   \<exists>as. shared m' = fst (fifo_run as (shared m))
     \<and> map snd (handed m') = got_of (snd (fifo_run as (shared m)))"
proof (induction rule: rtranclp_induct)
  case base
  then show ?case by (intro exI [of _ "[]"]) simp
next
  case (step m1 m2)
  then obtain as where as: "shared m1 = fst (fifo_run as (shared m))"
      "map snd (handed m1) = got_of (snd (fifo_run as (shared m)))" by blast
  from monitor_step_refines [OF step.hyps(2)] show ?case
  proof (elim disjE exE conjE)
    assume "shared m2 = shared m1" "handed m2 = handed m1"
    with as show ?thesis by auto
  next
    fix a
    assume "shared m2 = fst (fifo_step a (shared m1))"
      "map snd (handed m2) = map snd (handed m1) @ got_of (snd (fifo_step a (shared m1)))"
    with as show ?thesis by (intro exI [of _ "as @ [a]"]) (simp add: fifo_run_snoc)
  qed
qed

section \<open>Nobody sleeps on\<close>

text \<open>The calls that are under way after a stop all return.\<close>

definition calls_inside :: "'a monitor \<Rightarrow> nat" where
  "calls_inside m = length (filter (\<lambda>w. w \<noteq> Outside) (waiters m))"

lemma calls_notify:
  "length (filter (\<lambda>w. w \<noteq> Outside) (notify_one j ws)) = length (filter (\<lambda>w. w \<noteq> Outside) ws)"
  "length (filter (\<lambda>w. w \<noteq> Outside) (notify_all ws)) = length (filter (\<lambda>w. w \<noteq> Outside) ws)"
proof -
  show "length (filter (\<lambda>w. w \<noteq> Outside) (notify_one j ws)) = length (filter (\<lambda>w. w \<noteq> Outside) ws)"
    using length_filter_update [of j ws "\<lambda>w. w \<noteq> Outside" Woken] by (auto simp: notify_one_def)
  show "length (filter (\<lambda>w. w \<noteq> Outside) (notify_all ws)) = length (filter (\<lambda>w. w \<noteq> Outside) ws)"
    by (induction ws) (simp_all add: notify_all_def)
qed

lemma stopped_pop:
  assumes "stopped (shared m)" and "pop_region i m = Some m'"
  shows "stopped (shared m') \<and> calls_inside m' + (if waiters m ! i \<noteq> Outside then 1 else 0) = calls_inside m"
proof -
  have i: "i < length (waiters m)" using assms(2) by (auto simp: pop_region_def split: if_splits)
  have "waiters m' = (waiters m)[i := Outside] \<and> stopped (shared m')"
    using assms by (cases "wait_and_pop (shared m)")
      (auto simp: pop_region_def wait_and_pop_def split: if_splits)
  with length_filter_update [OF i, of "\<lambda>w. w \<noteq> Outside" Outside] show ?thesis
    by (simp add: calls_inside_def)
qed

inductive resumes :: "'a monitor \<Rightarrow> 'a monitor \<Rightarrow> bool" where
  "i < length (waiters m) \<Longrightarrow> waiters m ! i = Woken \<Longrightarrow> pop_region i m = Some m' \<Longrightarrow> resumes m m'"

inductive_cases resumesE: "resumes m m'"

lemma woken_can_resume:
  assumes "i < length (waiters m)" and "waiters m ! i = Woken"
  shows "\<exists>m'. resumes m m'"
proof -
  have "\<exists>m'. pop_region i m = Some m'" using assms by (simp add: pop_region_def)
  then show ?thesis using assms by (blast intro: resumes.intros)
qed

lemma stopped_step:
  assumes "monitor_step m m'" and "stopped (shared m)"
  shows "stopped (shared m') \<and> calls_inside m' \<le> calls_inside m"
  using assms(1)
proof (rule monitor_stepE)
  fix i
  assume "pop_region i m = Some m'"
  from stopped_pop [OF assms(2) this] show ?thesis by auto
qed (use assms(2) in \<open>simp_all add: push_region_def stop_region_def spurious_def increment_drop_count_def
    calls_inside_def calls_notify\<close>)

interpretation consumers: ending_threads "\<lambda>m. \<exists>thr nm n. m = monitor_start thr nm n" monitor_step
  monitor_inv resumes "\<lambda>m. stopped (shared m)" calls_inside "\<lambda>m. calls_inside m = 0"
proof unfold_locales
  fix m m' :: "'a monitor"
  show "resumes m m' \<Longrightarrow> monitor_step m m'" by (auto elim!: resumesE intro: monitor_step.Pop)
  show "monitor_step m m' \<Longrightarrow> stopped (shared m)
      \<Longrightarrow> stopped (shared m') \<and> calls_inside m' \<le> calls_inside m"
    by (rule stopped_step)
  show "resumes m m' \<Longrightarrow> stopped (shared m) \<Longrightarrow> calls_inside m' < calls_inside m"
    using stopped_pop by (fastforce elim!: resumesE)
  show "\<exists>m'. resumes m m'" if c: "monitor_inv m" "stopped (shared m)" "calls_inside m \<noteq> 0"
  proof -
    obtain w where "w \<in> set (waiters m)" "w \<noteq> Outside"
      using c(3) by (auto simp: calls_inside_def filter_empty_conv)
    moreover have "Asleep \<notin> set (waiters m)" using c(1,2) by (auto simp: monitor_inv_def)
    ultimately obtain i where "i < length (waiters m)" "waiters m ! i = Woken"
      by (metis in_set_conv_nth waiter.exhaust)
    then show ?thesis by (rule woken_can_resume)
  qed
qed

section \<open>Properties\<close>

text \<open>
  C21: no wake-up is lost: with any number of consumer threads and any interleaving, the calls
  that complete are a run of the atomic queue, so that the items handed out are the ones it hands
  out, in order; while items are queued and a consumer sleeps, at least as many consumers have been
  woken as there are items, so that one of them can take an item at once; nobody sleeps on a
  stopped queue, and every call that is under way then returns after at most as many own steps as
  there are such calls.
\<close>

theorem no_lost_wakeup:
  fixes m :: "'a monitor"
  assumes "monitor_step\<^sup>*\<^sup>* (monitor_start thr nm n) m"
  shows "(\<exists>as. shared m = fst (fifo_run as (fifo_new thr nm))
        \<and> map snd (handed m) = got_of (snd (fifo_run as (fifo_new thr nm))))
    \<and> (Asleep \<in> set (waiters m) \<longrightarrow>
         \<not> stopped (shared m) \<and> length (queue (shared m)) \<le> woken (waiters m)
         \<and> (queue (shared m) \<noteq> [] \<longrightarrow> (\<exists>m'. resumes m m')))
    \<and> (stopped (shared m) \<longrightarrow> (\<forall>k m'. interleaved monitor_step resumes k m m' \<longrightarrow>
         k \<le> calls_inside m \<and> (calls_inside m' = 0 \<or> (\<exists>m''. resumes m' m''))))"
proof -
  have inv: "monitor_inv m" using monitor_ts.inv_reachable assms by blast
  have "\<exists>m'. resumes m m'" if a: "Asleep \<in> set (waiters m)" "queue (shared m) \<noteq> []"
  proof -
    have "0 < length (queue (shared m))" using a(2) by simp
    then have "0 < woken (waiters m)" using inv a(1) unfolding monitor_inv_def by linarith
    then obtain i where "i < length (waiters m)" "waiters m ! i = Woken"
      by (auto simp: woken_def filter_empty_conv in_set_conv_nth)
    then show ?thesis by (rule woken_can_resume)
  qed
  then show ?thesis
    using monitor_refines [OF assms] inv consumers.own_steps_bounded [OF _ inv]
    by (simp add: monitor_start_def monitor_inv_def)
qed

text \<open>One consumer goes to sleep, an item is pushed, the consumer is woken.\<close>

definition sleeper :: "nat monitor" where
  "sleeper = \<lparr>shared = fifo_new 9 ''q'', waiters = [Asleep], handed = []\<rparr>"

lemma sleeper_reached: "monitor_step\<^sup>*\<^sup>* (monitor_start 9 ''q'' 1) (stop_region sleeper)"
proof -
  have "pop_region 0 (monitor_start 9 ''q'' 1) = Some sleeper"
    by (simp add: pop_region_def monitor_start_def sleeper_def wait_and_pop_def fifo_new_def)
  then have "monitor_step (monitor_start 9 ''q'' 1) sleeper" by (rule monitor_step.Pop)
  then show ?thesis using monitor_step.Stop [of sleeper] by auto
qed

theorem no_lost_wakeup_witness: "\<exists>m'. resumes (stop_region sleeper) m'"
proof -
  have "stopped (shared (stop_region sleeper))" "calls_inside (stop_region sleeper) \<noteq> 0"
    by (simp_all add: stop_region_def sleeper_def calls_inside_def notify_all_def)
  moreover have "interleaved monitor_step resumes 0 (stop_region sleeper) (stop_region sleeper)"
    by (rule Start)
  moreover note no_lost_wakeup [OF sleeper_reached]
  ultimately show ?thesis by metis
qed

end
