(* ===== verification/Logger.thy ===== *)
theory Logger
  imports Prelude
begin

text \<open>
  \<open>src/src/utils/logger.h\<close> and \<open>logger.cpp\<close>: the log levels with the order that the
  macros compare by, the parsing of a level's name, and the line that a macro writes. The
  global \<open>G_LOG_LEVEL\<close> is an argument; the wall-clock text is an argument.
\<close>

datatype LogLevel = FAIL | ERROR | WARN | INFO | DEBUG

fun level_value :: "LogLevel \<Rightarrow> nat" where
  "level_value FAIL = 0"
| "level_value ERROR = 1"
| "level_value WARN = 2"
| "level_value INFO = 3"
| "level_value DEBUG = 4"

lemma level_value_inject [simp]: "level_value a = level_value b \<longleftrightarrow> a = b"
  by (cases a; cases b) simp_all

instantiation LogLevel :: linorder
begin

definition less_eq_LogLevel :: "LogLevel \<Rightarrow> LogLevel \<Rightarrow> bool" where
  "less_eq_LogLevel a b \<longleftrightarrow> level_value a \<le> level_value b"

definition less_LogLevel :: "LogLevel \<Rightarrow> LogLevel \<Rightarrow> bool" where
  "less_LogLevel a b \<longleftrightarrow> level_value a < level_value b"

instance
  by standard (auto simp: less_eq_LogLevel_def less_LogLevel_def)

end

definition toupper :: "char \<Rightarrow> char" where
  "toupper c = (if 97 \<le> (of_char c :: nat) \<and> (of_char c :: nat) \<le> 122
                then char_of ((of_char c :: nat) - 32) else c)"

definition string_to_loglevel :: "string \<Rightarrow> LogLevel" where
  "string_to_loglevel level_str =
     (case level_str of
        [] \<Rightarrow> INFO
      | c # _ \<Rightarrow>
          (let u = toupper c in
           if u = CHR ''F'' then FAIL
           else if u = CHR ''E'' then ERROR
           else if u = CHR ''W'' then WARN
           else if u = CHR ''I'' then INFO
           else if u = CHR ''D'' then DEBUG
           else INFO))"

datatype out_stream = Stdout | Stderr

definition log_print :: "out_stream \<Rightarrow> string \<Rightarrow> string \<Rightarrow> string \<Rightarrow> nat \<Rightarrow> string
    \<Rightarrow> out_stream \<times> string" where
  "log_print stream now level_str file line msg =
     (stream,
      ''['' @ now @ ''] ['' @ level_str @ ''] ['' @ file @ '':'' @ show_nat line @ ''] ''
      @ msg @ [char_of (10::nat)])"

text \<open>The tag and the stream with which each macro calls \<open>_log_print\<close>.\<close>

fun level_tag :: "LogLevel \<Rightarrow> string" where
  "level_tag FAIL = ''FAIL ''"
| "level_tag ERROR = ''ERROR''"
| "level_tag WARN = ''WARN ''"
| "level_tag INFO = ''INFO ''"
| "level_tag DEBUG = ''DEBUG''"

fun level_stream :: "LogLevel \<Rightarrow> out_stream" where
  "level_stream FAIL = Stderr"
| "level_stream ERROR = Stderr"
| "level_stream WARN = Stdout"
| "level_stream INFO = Stdout"
| "level_stream DEBUG = Stdout"

text \<open>\<open>log_msg\<close> is the macro of level \<open>lvl\<close> under the global level \<open>g\<close>.\<close>

definition log_msg :: "LogLevel \<Rightarrow> LogLevel \<Rightarrow> string \<Rightarrow> string \<Rightarrow> nat \<Rightarrow> string
    \<Rightarrow> (out_stream \<times> string) option" where
  "log_msg g lvl now file line msg =
     (if g \<ge> lvl then Some (log_print (level_stream lvl) now (level_tag lvl) file line msg)
      else None)"

lemma FAIL_least [simp]: "FAIL \<le> l"
  by (simp add: less_eq_LogLevel_def)

lemma DEBUG_greatest [simp]: "l \<le> DEBUG"
  by (cases l) (simp_all add: less_eq_LogLevel_def)

lemma length_level_tag: "length (level_tag l) = 5"
  by (cases l) simp_all

text \<open>The first letter of a level's tag is the letter that selects it.\<close>

lemma string_to_loglevel_tag: "string_to_loglevel (level_tag l) = l"
  by (cases l) (simp_all add: string_to_loglevel_def toupper_def Let_def)

text \<open>
  the text configured as log level decides by its first letter, in either case: F, E, W and D
  select their level and every other text, the empty one included, selects INFO; the macros that
  then print are exactly those from FAIL up to the selected level.
\<close>

theorem log_gate:
  "(string_to_loglevel s = l \<longleftrightarrow>
      (if l = INFO then toupper (hd (s @ ''I'')) \<notin> set ''FEWD''
       else toupper (hd (s @ ''I'')) = hd (level_tag l)))
   \<and> {lvl. log_msg (string_to_loglevel s) lvl now file line msg \<noteq> None}
       = {FAIL..string_to_loglevel s}"
proof -
  have "toupper (CHR ''I'') = CHR ''I''" by (simp add: toupper_def)
  then have "string_to_loglevel s = l \<longleftrightarrow>
      (if l = INFO then toupper (hd (s @ ''I'')) \<notin> set ''FEWD''
       else toupper (hd (s @ ''I'')) = hd (level_tag l))"
    by (cases l; cases s) (auto simp: string_to_loglevel_def Let_def split: if_splits)
  then show ?thesis by (auto simp: log_msg_def)
qed

end
