(* ===== verification/Doubles.thy ===== *)
theory Doubles
  imports Prelude "HOL-Library.Log_Nat"
begin

text \<open>
  The part of IEEE binary64 arithmetic that the program uses: the quotient of two finite
  values, rounded to nearest with ties to even (subnormals included), and the conversion of
  a double to \<open>int\<close>. A finite double is its exact rational value. A quotient that
  overflows is no finite value (\<open>None\<close>), and converting a value outside \<open>int\<close> is
  undefined in C++ (\<open>None\<close>). The JSON reader and FFmpeg hand over finite values only.
\<close>

type_synonym double = rat

definition pow2 :: "int \<Rightarrow> rat" where
  "pow2 e = (if 0 \<le> e then 2 ^ nat e else 1 / 2 ^ nat (- e))"

definition binade :: "rat \<Rightarrow> int" where
  "binade x = (case quotient_of x of (p, q) \<Rightarrow>
     let e = bitlen p - bitlen q in if pow2 e \<le> x then e else e - 1)"

definition round_half_even :: "rat \<Rightarrow> int" where
  "round_half_even m =
     (let f = \<lfloor>m\<rfloor>; d = m - of_int f
      in if d < 1 / 2 then f else if 1 / 2 < d then f + 1
         else if even f then f else f + 1)"

definition round_double :: "rat \<Rightarrow> rat" where
  "round_double x =
     (if x = 0 then 0
      else let e = max (binade \<bar>x\<bar> - 52) (- 1074)
           in sgn x * of_int (round_half_even (\<bar>x\<bar> / pow2 e)) * pow2 e)"

definition double_div :: "double \<Rightarrow> double \<Rightarrow> double option" where
  "double_div a b =
     (let r = round_double (a / b) in if pow2 1024 \<le> \<bar>r\<bar> then None else Some r)"

definition double_to_int :: "double \<Rightarrow> int option" where
  "double_to_int x =
     (let i = (if 0 \<le> x then \<lfloor>x\<rfloor> else \<lceil>x\<rceil>)
      in if int_min \<le> i \<and> i \<le> int_max then Some i else None)"

lemma pow2_pos [simp]: "0 < pow2 e"
  by (simp add: pow2_def)

lemma pow2_power_int: "pow2 e = 2 powi e"
  by (simp add: pow2_def power_int_def power_one_over)

lemma pow2_add: "pow2 (a + b) = pow2 a * pow2 b"
  by (simp add: pow2_power_int power_int_add)

lemma pow2_less_iff [simp]: "pow2 a < pow2 b \<longleftrightarrow> a < b"
proof -
  have mono: "pow2 c < pow2 d" if "c < d" for c d
    using that by (simp add: pow2_power_int power_int_strict_increasing)
  show ?thesis using mono [of a b] mono [of b a] by (cases a b rule: linorder_cases) auto
qed

lemma pow2_le_iff [simp]: "pow2 a \<le> pow2 b \<longleftrightarrow> a \<le> b"
  by (metis not_less pow2_less_iff)

lemma pow2_nat: "pow2 (int n) = 2 ^ n"
  by (simp add: pow2_def)

lemma bitlen_pow2:
  assumes "0 < (p::int)"
  shows "pow2 (bitlen p - 1) \<le> of_int p" and "of_int p < pow2 (bitlen p)"
proof -
  have b: "2 ^ nat (bitlen p - 1) \<le> p" "p < 2 ^ nat (bitlen p)"
    using bitlen_bounds [OF assms] by simp_all
  have pos: "0 < bitlen p" using assms b(2) by (cases "0 < bitlen p") auto
  have "(of_int (2 ^ nat (bitlen p - 1)) :: rat) \<le> of_int p"
    using b(1) by (simp only: of_int_le_iff)
  then show "pow2 (bitlen p - 1) \<le> of_int p" using pos by (simp add: pow2_def)
  have "(of_int p :: rat) < of_int (2 ^ nat (bitlen p))"
    using b(2) by (simp only: of_int_less_iff)
  then show "of_int p < pow2 (bitlen p)" using pos by (simp add: pow2_def)
qed

lemma binade_bounds:
  assumes "0 < x"
  shows "pow2 (binade x) \<le> x \<and> x < pow2 (binade x + 1)"
proof -
  obtain p q where pq: "quotient_of x = (p, q)" by fastforce
  then have x: "x = of_int p / of_int q" and q: "0 < q"
    by (auto dest: quotient_of_div quotient_of_denom_pos)
  with assms have p: "0 < p" by (simp add: zero_less_divide_iff)
  let ?e = "bitlen p - bitlen q"
  have lo: "pow2 (?e - 1) \<le> x"
  proof -
    have "pow2 (bitlen q) * pow2 (?e - 1) = pow2 (bitlen p - 1)"
      by (simp flip: pow2_add)
    also have "\<dots> \<le> of_int p" by (rule bitlen_pow2 [OF p])
    finally have "of_int q * pow2 (?e - 1) \<le> of_int p"
      using bitlen_pow2(2) [OF q] pow2_pos [of "?e - 1"]
      by (meson less_le_trans less_imp_le mult_right_mono order.trans)
    then show ?thesis using q by (simp add: x field_simps)
  qed
  have hi: "x < pow2 (?e + 1)"
  proof -
    have "of_int p < pow2 (bitlen p)" by (rule bitlen_pow2 [OF p])
    also have "\<dots> = pow2 (bitlen q - 1) * pow2 (?e + 1)"
      by (simp flip: pow2_add)
    also have "\<dots> \<le> of_int q * pow2 (?e + 1)"
      using bitlen_pow2(1) [OF q] by (simp add: less_imp_le mult_right_mono)
    finally show ?thesis using q by (simp add: x field_simps)
  qed
  show ?thesis using lo hi by (auto simp: binade_def pq Let_def)
qed

lemma round_half_even_lower: "of_int k \<le> m \<Longrightarrow> k \<le> round_half_even m"
  by (auto simp: round_half_even_def Let_def le_floor_iff intro: add_increasing2)

lemma round_half_even_upper:
  assumes "m \<le> of_int k"
  shows "round_half_even m \<le> k"
proof (cases "\<lfloor>m\<rfloor> = k")
  case True
  with assms have "m = of_int k" by linarith
  then show ?thesis by (simp add: round_half_even_def)
next
  case False
  with assms have "\<lfloor>m\<rfloor> + 1 \<le> k" by linarith
  then show ?thesis by (auto simp: round_half_even_def Let_def)
qed

text \<open>
  Rounding never crosses an integer below \<open>2 ^ 53\<close>: every such integer is a double.
\<close>

lemma int_scaled:
  assumes "e \<le> 0"
  shows "\<exists>k::int. of_int n = of_int k * pow2 e"
proof -
  have "of_int n = of_int (n * 2 ^ nat (- e)) * pow2 e"
    using assms by (auto simp: pow2_def)
  then show ?thesis by blast
qed

lemma round_double_scale:
  assumes "0 < x" and "x < 2 ^ 53"
  obtains e where "e \<le> 0" "round_double x = of_int (round_half_even (x / pow2 e)) * pow2 e"
proof -
  have "pow2 (binade x) < pow2 53"
    using binade_bounds [OF assms(1)] assms(2) pow2_nat [of 53] by simp
  then have "max (binade x - 52) (- 1074) \<le> 0" by simp
  with assms(1) show thesis by (intro that) (auto simp: round_double_def Let_def)
qed

lemma round_double_lower:
  assumes "0 < x" and "x < 2 ^ 53" and "of_int n \<le> x"
  shows "of_int n \<le> round_double x"
proof -
  obtain e where e: "e \<le> 0" "round_double x = of_int (round_half_even (x / pow2 e)) * pow2 e"
    using round_double_scale [OF assms(1,2)] .
  obtain k where k: "of_int n = (of_int k :: rat) * pow2 e" using int_scaled [OF e(1)] by blast
  have "of_int k \<le> x / pow2 e" using assms(3) k by (simp add: field_simps)
  then have "k \<le> round_half_even (x / pow2 e)" by (rule round_half_even_lower)
  then show ?thesis by (simp add: e(2) k less_imp_le)
qed

lemma round_double_upper:
  assumes "0 < x" and "x < 2 ^ 53" and "x \<le> of_int n"
  shows "round_double x \<le> of_int n"
proof -
  obtain e where e: "e \<le> 0" "round_double x = of_int (round_half_even (x / pow2 e)) * pow2 e"
    using round_double_scale [OF assms(1,2)] .
  obtain k where k: "of_int n = (of_int k :: rat) * pow2 e" using int_scaled [OF e(1)] by blast
  have "x / pow2 e \<le> of_int k" using assms(3) k by (simp add: field_simps)
  then have "round_half_even (x / pow2 e) \<le> k" by (rule round_half_even_upper)
  then show ?thesis by (simp add: e(2) k less_imp_le)
qed

lemma double_div_bounds:
  assumes "0 < a" and "0 < b" and "a / b < 2 ^ 31"
  obtains r where "double_div a b = Some r" and "of_int \<lfloor>a / b\<rfloor> \<le> r"
    and "r \<le> of_int (\<lfloor>a / b\<rfloor> + 1)" and "0 \<le> r"
    and "\<And>k. a / b \<le> of_int k \<Longrightarrow> r \<le> of_int k"
proof -
  let ?x = "a / b" and ?r = "round_double (a / b)"
  have x: "0 < ?x" "?x < 2 ^ 53"
    using assms by simp (rule less_trans [OF assms(3)], simp)
  have up: "\<And>k. ?x \<le> of_int k \<Longrightarrow> ?r \<le> of_int k" by (rule round_double_upper [OF x])
  have lo: "of_int \<lfloor>?x\<rfloor> \<le> ?r" by (rule round_double_lower [OF x]) simp
  have r0: "of_int 0 \<le> ?r" by (rule round_double_lower [OF x]) (use x in simp)
  have "?r \<le> of_int (2 ^ 31)" by (rule up) (use assms in simp)
  moreover have "pow2 32 \<le> pow2 1024" by simp
  moreover have "pow2 32 = 2 ^ 32" using pow2_nat [of 32] by simp
  ultimately have "double_div a b = Some ?r" using r0 by (auto simp: double_div_def Let_def)
  moreover have "?r \<le> of_int (\<lfloor>?x\<rfloor> + 1)" by (rule up) linarith
  ultimately show thesis using lo r0 up by (intro that [of ?r]) simp_all
qed

end
