(* ===== verification/Types.thy ===== *)
theory Types
  imports Doubles
begin

text \<open>
  \<open>src/src/utils/types.h\<close> and \<open>types.cpp\<close>: the configuration structs with their
  \<open>operator==\<close>, the frame that travels through the queues, the deleters of the FFmpeg
  handles and the truncation of thread names. \<open>int\<close> and \<open>long long\<close> members are integers
  whose range the readers of the JSON file enforce.
\<close>

section \<open>Configuration structs\<close>

record ScaleConfig =
  sc_width :: int
  sc_height :: int

record CropConfig =
  cr_x :: int
  cr_y :: int
  cr_width :: int
  cr_height :: int

record ProcessingConfig =
  scale :: ScaleConfig
  crop :: CropConfig

record EventConfig =
  ev_id :: "32 word"
  ev_name :: string
  ev_target_fps :: double
  batch_size :: int
  ev_processing :: ProcessingConfig

record StreamConfig =
  st_id :: int
  url :: string
  target_fps :: double
  wait_for_keyframe :: bool
  enabled :: bool
  processing :: ProcessingConfig
  events :: "EventConfig list"

record GlobalConfig =
  log_level_str :: string
  stream_configs :: "StreamConfig list"
  instance_slot :: int
  total_instances :: int
  max_streams :: int
  stream_id_whitelist :: "int set"
  has_stream_whitelist :: bool

text \<open>The default member initialisers.\<close>

definition default_processing :: ProcessingConfig where
  "default_processing =
     \<lparr>scale = \<lparr>sc_width = 0, sc_height = 0\<rparr>,
      crop = \<lparr>cr_x = 0, cr_y = 0, cr_width = 0, cr_height = 0\<rparr>\<rparr>"

definition default_event :: EventConfig where
  "default_event =
     \<lparr>ev_id = 0, ev_name = [], ev_target_fps = 1, batch_size = 8,
      ev_processing = default_processing\<rparr>"

definition default_global :: GlobalConfig where
  "default_global =
     \<lparr>log_level_str = ''INFO'', stream_configs = [], instance_slot = 0, total_instances = 1,
      max_streams = 0, stream_id_whitelist = {}, has_stream_whitelist = False\<rparr>"

section \<open>Equality operators\<close>

definition scale_eq :: "ScaleConfig \<Rightarrow> ScaleConfig \<Rightarrow> bool" where
  "scale_eq a b \<longleftrightarrow> sc_width a = sc_width b \<and> sc_height a = sc_height b"

definition crop_eq :: "CropConfig \<Rightarrow> CropConfig \<Rightarrow> bool" where
  "crop_eq a b \<longleftrightarrow> cr_x a = cr_x b \<and> cr_y a = cr_y b \<and> cr_width a = cr_width b
     \<and> cr_height a = cr_height b"

definition processing_eq :: "ProcessingConfig \<Rightarrow> ProcessingConfig \<Rightarrow> bool" where
  "processing_eq a b \<longleftrightarrow> scale_eq (scale a) (scale b) \<and> crop_eq (crop a) (crop b)"

definition event_eq :: "EventConfig \<Rightarrow> EventConfig \<Rightarrow> bool" where
  "event_eq a b \<longleftrightarrow> ev_id a = ev_id b \<and> ev_name a = ev_name b
     \<and> ev_target_fps a = ev_target_fps b \<and> batch_size a = batch_size b
     \<and> processing_eq (ev_processing a) (ev_processing b)"

definition stream_eq :: "StreamConfig \<Rightarrow> StreamConfig \<Rightarrow> bool" where
  "stream_eq a b \<longleftrightarrow> st_id a = st_id b \<and> url a = url b
     \<and> wait_for_keyframe a = wait_for_keyframe b \<and> enabled a = enabled b
     \<and> list_all2 event_eq (events a) (events b) \<and> processing_eq (processing a) (processing b)"

definition global_eq :: "GlobalConfig \<Rightarrow> GlobalConfig \<Rightarrow> bool" where
  "global_eq a b \<longleftrightarrow> log_level_str a = log_level_str b
     \<and> list_all2 stream_eq (stream_configs a) (stream_configs b)
     \<and> instance_slot a = instance_slot b \<and> total_instances a = total_instances b
     \<and> max_streams a = max_streams b \<and> has_stream_whitelist a = has_stream_whitelist b
     \<and> stream_id_whitelist a = stream_id_whitelist b"

lemma scale_eq_iff [simp]: "scale_eq a b \<longleftrightarrow> a = b"
  by (cases a; cases b) (simp add: scale_eq_def)

lemma crop_eq_iff [simp]: "crop_eq a b \<longleftrightarrow> a = b"
  by (cases a; cases b) (simp add: crop_eq_def)

lemma processing_eq_iff [simp]: "processing_eq a b \<longleftrightarrow> a = b"
  by (cases a; cases b) (simp add: processing_eq_def)

lemma event_eq_iff [simp]: "event_eq a b \<longleftrightarrow> a = b"
  by (cases a; cases b) (simp add: event_eq_def)

lemma event_eq_is_eq: "event_eq = (=)"
  by (simp add: fun_eq_iff)

text \<open>\<open>StreamConfig::operator==\<close> compares every member but the stream's own \<open>target_fps\<close>.\<close>

definition erase_fps :: "StreamConfig \<Rightarrow> StreamConfig" where
  "erase_fps s = s\<lparr>target_fps := 0\<rparr>"

lemma stream_eq_iff: "stream_eq a b \<longleftrightarrow> erase_fps a = erase_fps b"
  by (cases a; cases b) (auto simp: stream_eq_def erase_fps_def event_eq_is_eq list.rel_eq)

lemma stream_eq_refl [simp]: "stream_eq a a"
  by (simp add: stream_eq_iff)

lemma stream_eq_id: "stream_eq a b \<Longrightarrow> st_id a = st_id b"
  by (simp add: stream_eq_def)

lemma list_all2_stream_eq: "list_all2 stream_eq xs ys \<longleftrightarrow> map erase_fps xs = map erase_fps ys"
  by (induction xs arbitrary: ys) (auto simp: list_all2_Cons1 stream_eq_iff Cons_eq_map_conv)

lemma global_eq_iff:
  "global_eq a b \<longleftrightarrow>
   a\<lparr>stream_configs := map erase_fps (stream_configs a)\<rparr>
   = b\<lparr>stream_configs := map erase_fps (stream_configs b)\<rparr>"
  by (cases a; cases b) (auto simp: global_eq_def list_all2_stream_eq)

lemma global_eq_refl [simp]: "global_eq a a"
  by (simp add: global_eq_iff)

lemma global_eq_sym: "global_eq a b \<Longrightarrow> global_eq b a"
  by (simp add: global_eq_iff)

lemma global_eq_trans: "global_eq a b \<Longrightarrow> global_eq b c \<Longrightarrow> global_eq a c"
  by (simp add: global_eq_iff)

section \<open>Frames\<close>

text \<open>
  The members of FFmpeg's \<open>AVFrame\<close> that the program reads: a plane is the byte sequence its
  \<open>data\<close> pointer addresses.
\<close>

type_synonym byte = "8 word"

record AVRational =
  num :: int
  den :: int

record AVFrame =
  width :: int
  height :: int
  format :: int
  pts :: "64 word"
  linesize :: "int list"
  data :: "byte list list"
  sample_aspect_ratio :: AVRational

record DecodedFrame =
  frame :: AVFrame
  source_config :: StreamConfig
  event_config :: EventConfig
  time_base :: AVRational

abbreviation (input) AV_PIX_FMT_NONE :: int where "AV_PIX_FMT_NONE \<equiv> - 1"
abbreviation (input) AV_PIX_FMT_YUV420P :: int where "AV_PIX_FMT_YUV420P \<equiv> 0"
abbreviation (input) AV_PIX_FMT_YUVJ420P :: int where "AV_PIX_FMT_YUVJ420P \<equiv> 12"

section \<open>Thread names and deleters\<close>

definition thread_name :: "string \<Rightarrow> string" where
  "thread_name nm = take 15 nm"

text \<open>
  A deleter gets the pointer that a \<open>unique_ptr\<close> held (\<open>None\<close> is the null pointer) and
  calls the FFmpeg release function on it; three of them test for null first.
\<close>

datatype ff_release =
  av_packet_free "nat option" | av_frame_free "nat option" | avcodec_free_context "nat option"
| avformat_close_input "nat option" | avfilter_graph_free "nat option"
| sws_freeContext "nat option" | av_parser_close "nat option"

definition AVPacketDeleter :: "nat option \<Rightarrow> ff_release list" where
  "AVPacketDeleter p = [av_packet_free p]"

definition AVFrameDeleter :: "nat option \<Rightarrow> ff_release list" where
  "AVFrameDeleter p = [av_frame_free p]"

definition AVCodecContextDeleter :: "nat option \<Rightarrow> ff_release list" where
  "AVCodecContextDeleter p = [avcodec_free_context p]"

definition AVFormatContextCloseInputDeleter :: "nat option \<Rightarrow> ff_release list" where
  "AVFormatContextCloseInputDeleter f = (if f \<noteq> None then [avformat_close_input f] else [])"

definition AVFilterGraphDeleter :: "nat option \<Rightarrow> ff_release list" where
  "AVFilterGraphDeleter g = (if g \<noteq> None then [avfilter_graph_free g] else [])"

definition SwsContextDeleter :: "nat option \<Rightarrow> ff_release list" where
  "SwsContextDeleter s = (if s \<noteq> None then [sws_freeContext s] else [])"

definition AVCodecParserContextDeleter :: "nat option \<Rightarrow> ff_release list" where
  "AVCodecParserContextDeleter p = (if p \<noteq> None then [av_parser_close p] else [])"

text \<open>
  C34: the equality that the reloader and the stream manager decide by is an equivalence that
  sees every member of the configuration except the streams' own \<open>target_fps\<close>: changing only
  that member is no change.
\<close>

theorem config_equality:
  "equivp global_eq
   \<and> (global_eq a b \<longleftrightarrow>
        a\<lparr>stream_configs := map erase_fps (stream_configs a)\<rparr>
        = b\<lparr>stream_configs := map erase_fps (stream_configs b)\<rparr>)
   \<and> stream_eq s (s\<lparr>target_fps := f\<rparr>)
   \<and> (event_eq e e' \<longleftrightarrow> e = e')"
proof -
  have "equivp global_eq"
    by (rule equivpI) (auto simp: reflp_def symp_def transp_def
        intro: global_eq_sym global_eq_trans)
  then show ?thesis by (simp add: global_eq_iff stream_eq_iff erase_fps_def)
qed

end
