(* ===== verification/Handles.thy ===== *)
theory Handles
  imports Types "HOL-Library.Multiset"
begin

text \<open>
  The move-only wrappers: \<open>RedisConnection\<close> (\<open>src/src/utils/redis_client.h\<close>), \<open>CurlHandle\<close>
  (\<open>config_manager.cpp\<close>) and the \<open>unique_ptr\<close> types of \<open>types.h\<close> with their deleters. A context
  or handle of the C library is a number, the null pointer is \<open>None\<close>; the destructor and the
  assignments return what they release. The locale \<open>move_only\<close> is the ownership contract that all
  of them satisfy.
\<close>

section \<open>The wrappers\<close>

record RedisConnection =
  redis_context :: "nat option"

record CurlHandle =
  curl_handle :: "nat option"

text \<open>
  \<open>redisConnectWithTimeout\<close> yields no context, or a context and whether its \<open>err\<close> is set.
  The constructor returns the object and the contexts it released on the way.
\<close>

definition redis_ctor :: "(nat \<times> bool) option \<Rightarrow> RedisConnection \<times> nat list" where
  "redis_ctor conn_res =
     (case conn_res of
        None \<Rightarrow> (\<lparr>redis_context = None\<rparr>, [])
      | Some (c, err) \<Rightarrow>
          if err then (\<lparr>redis_context = None\<rparr>, [c]) else (\<lparr>redis_context = Some c\<rparr>, []))"

definition redis_dtor :: "RedisConnection \<Rightarrow> nat list" where
  "redis_dtor r = (case redis_context r of Some c \<Rightarrow> [c] | None \<Rightarrow> [])"

definition redis_move_ctor :: "RedisConnection \<Rightarrow> RedisConnection \<times> RedisConnection" where
  "redis_move_ctor other = (\<lparr>redis_context = redis_context other\<rparr>, other\<lparr>redis_context := None\<rparr>)"

text \<open>The first argument says whether both sides are the same object.\<close>

definition redis_move_assign ::
  "bool \<Rightarrow> RedisConnection \<Rightarrow> RedisConnection \<Rightarrow> RedisConnection \<times> RedisConnection \<times> nat list"
where
  "redis_move_assign same this other =
     (if \<not> same
      then (this\<lparr>redis_context := redis_context other\<rparr>, other\<lparr>redis_context := None\<rparr>,
            case redis_context this of Some c \<Rightarrow> [c] | None \<Rightarrow> [])
      else (this, other, []))"

definition is_valid :: "RedisConnection \<Rightarrow> bool" where
  "is_valid r \<longleftrightarrow> redis_context r \<noteq> None"

definition redis_get :: "RedisConnection \<Rightarrow> nat option" where
  "redis_get r = redis_context r"

definition curl_ctor :: "nat option \<Rightarrow> CurlHandle" where
  "curl_ctor init_result = \<lparr>curl_handle = init_result\<rparr>"

definition curl_dtor :: "CurlHandle \<Rightarrow> nat list" where
  "curl_dtor h = (case curl_handle h of Some c \<Rightarrow> [c] | None \<Rightarrow> [])"

definition curl_move_ctor :: "CurlHandle \<Rightarrow> CurlHandle \<times> CurlHandle" where
  "curl_move_ctor other = (\<lparr>curl_handle = curl_handle other\<rparr>, other\<lparr>curl_handle := None\<rparr>)"

definition curl_move_assign ::
  "bool \<Rightarrow> CurlHandle \<Rightarrow> CurlHandle \<Rightarrow> CurlHandle \<times> CurlHandle \<times> nat list" where
  "curl_move_assign same this other =
     (if \<not> same
      then (this\<lparr>curl_handle := curl_handle other\<rparr>, other\<lparr>curl_handle := None\<rparr>,
            case curl_handle this of Some c \<Rightarrow> [c] | None \<Rightarrow> [])
      else (this, other, []))"

definition curl_get :: "CurlHandle \<Rightarrow> nat option" where
  "curl_get h = curl_handle h"

text \<open>
  A \<open>unique_ptr\<close> calls its deleter on a pointer that is not null; assigning is \<open>reset(release())\<close>.
\<close>

record unique_ptr =
  up_ptr :: "nat option"

definition up_dtor :: "(nat option \<Rightarrow> ff_release list) \<Rightarrow> unique_ptr \<Rightarrow> ff_release list" where
  "up_dtor deleter p = (case up_ptr p of None \<Rightarrow> [] | Some c \<Rightarrow> deleter (Some c))"

definition up_move_ctor :: "unique_ptr \<Rightarrow> unique_ptr \<times> unique_ptr" where
  "up_move_ctor other = (\<lparr>up_ptr = up_ptr other\<rparr>, other\<lparr>up_ptr := None\<rparr>)"

definition up_move_assign ::
  "(nat option \<Rightarrow> ff_release list) \<Rightarrow> bool \<Rightarrow> unique_ptr \<Rightarrow> unique_ptr
     \<Rightarrow> unique_ptr \<times> unique_ptr \<times> ff_release list" where
  "up_move_assign deleter same this other =
     (if \<not> same then (this\<lparr>up_ptr := up_ptr other\<rparr>, other\<lparr>up_ptr := None\<rparr>, up_dtor deleter this)
      else (this, other, []))"

definition UniqueAVPacket :: "unique_ptr \<Rightarrow> ff_release list" where
  "UniqueAVPacket = up_dtor AVPacketDeleter"

definition UniqueAVFrame :: "unique_ptr \<Rightarrow> ff_release list" where
  "UniqueAVFrame = up_dtor AVFrameDeleter"

definition UniqueAVCodecContext :: "unique_ptr \<Rightarrow> ff_release list" where
  "UniqueAVCodecContext = up_dtor AVCodecContextDeleter"

definition UniqueAVFormatContext :: "unique_ptr \<Rightarrow> ff_release list" where
  "UniqueAVFormatContext = up_dtor AVFormatContextCloseInputDeleter"

definition UniqueAVFilterGraph :: "unique_ptr \<Rightarrow> ff_release list" where
  "UniqueAVFilterGraph = up_dtor AVFilterGraphDeleter"

definition UniqueSwsContext :: "unique_ptr \<Rightarrow> ff_release list" where
  "UniqueSwsContext = up_dtor SwsContextDeleter"

definition UniqueAVCodecParserContext :: "unique_ptr \<Rightarrow> ff_release list" where
  "UniqueAVCodecParserContext = up_dtor AVCodecParserContextDeleter"

section \<open>The ownership contract\<close>

text \<open>
  A pool of objects on which client code moves ownership around; index pairs may coincide
  (self-assignment). The result is the pool and what the moves released.
\<close>

datatype move_op = MoveNew nat | MoveAssign nat nat

fun pool_step :: "('h \<Rightarrow> 'h \<times> 'h) \<Rightarrow> (bool \<Rightarrow> 'h \<Rightarrow> 'h \<Rightarrow> 'h \<times> 'h \<times> 'r list)
    \<Rightarrow> move_op \<Rightarrow> 'h list \<Rightarrow> 'h list \<times> 'r list" where
  "pool_step mv asg (MoveNew i) hs =
     (if i < length hs
      then (case mv (hs ! i) of (n, old) \<Rightarrow> (hs[i := old] @ [n], []))
      else (hs, []))"
| "pool_step mv asg (MoveAssign i j) hs =
     (if i < length hs \<and> j < length hs
      then (case asg (i = j) (hs ! i) (hs ! j) of (t, old, fr) \<Rightarrow> ((hs[j := old])[i := t], fr))
      else (hs, []))"

fun pool_run :: "('h \<Rightarrow> 'h \<times> 'h) \<Rightarrow> (bool \<Rightarrow> 'h \<Rightarrow> 'h \<Rightarrow> 'h \<times> 'h \<times> 'r list)
    \<Rightarrow> move_op list \<Rightarrow> 'h list \<Rightarrow> 'h list \<times> 'r list" where
  "pool_run mv asg [] hs = (hs, [])"
| "pool_run mv asg (a # ops) hs =
     (case pool_step mv asg a hs of (hs1, fr) \<Rightarrow>
        (case pool_run mv asg ops hs1 of (hs2, fr') \<Rightarrow> (hs2, fr @ fr')))"

lemma mset_concat_update:
  "i < length xs \<Longrightarrow>
   mset (concat (map f (xs[i := y]))) + mset (f (xs ! i)) = mset (concat (map f xs)) + mset (f y)"
  by (induction xs arbitrary: i) (auto split: nat.splits)

locale move_only =
  fixes owned :: "'h \<Rightarrow> nat option"
    and dtor :: "'h \<Rightarrow> 'r list"
    and mv :: "'h \<Rightarrow> 'h \<times> 'h"
    and asg :: "bool \<Rightarrow> 'h \<Rightarrow> 'h \<Rightarrow> 'h \<times> 'h \<times> 'r list"
  assumes dtor_None: "owned h = None \<Longrightarrow> dtor h = []"
    and dtor_cong: "owned h = owned h' \<Longrightarrow> dtor h = dtor h'"
    and mv_new: "owned (fst (mv h)) = owned h"
    and mv_old: "owned (snd (mv h)) = None"
    and asg_new: "owned (fst (asg False t h)) = owned h"
    and asg_old: "owned (fst (snd (asg False t h))) = None"
    and asg_freed: "snd (snd (asg False t h)) = dtor t"
    and asg_self: "asg True t h = (t, h, [])"
begin

lemma pool_step_conserves:
  "mset (snd (pool_step mv asg a hs)) + mset (concat (map dtor (fst (pool_step mv asg a hs))))
     = mset (concat (map dtor hs))"
proof (cases a)
  case (MoveNew i)
  show ?thesis
  proof (cases "i < length hs")
    case True
    obtain n old where m: "mv (hs ! i) = (n, old)" by fastforce
    then have "dtor n = dtor (hs ! i)" "dtor old = []"
      using mv_new [of "hs ! i"] mv_old [of "hs ! i"] by (auto intro: dtor_cong dtor_None)
    with mset_concat_update [OF True, of dtor old] MoveNew True m show ?thesis by simp
  next
    case False
    with MoveNew show ?thesis by simp
  qed
next
  case (MoveAssign i j)
  show ?thesis
  proof (cases "i < length hs \<and> j < length hs \<and> i \<noteq> j")
    case True
    obtain t old fr where m: "asg False (hs ! i) (hs ! j) = (t, old, fr)" by (metis prod_cases3)
    then have d: "dtor t = dtor (hs ! j)" "dtor old = []" "fr = dtor (hs ! i)"
      using asg_new [of "hs ! i" "hs ! j"] asg_old [of "hs ! i" "hs ! j"]
        asg_freed [of "hs ! i" "hs ! j"] by (auto intro: dtor_cong dtor_None)
    from True have "i < length (hs[j := old])" "(hs[j := old]) ! i = hs ! i" by simp_all
    with mset_concat_update [of i "hs[j := old]" dtor t] mset_concat_update [of j hs dtor old]
      MoveAssign True m d show ?thesis by (simp add: union_commute)
  next
    case False
    with MoveAssign asg_self show ?thesis by auto
  qed
qed

lemma pool_run_conserves:
  "mset (snd (pool_run mv asg ops hs)) + mset (concat (map dtor (fst (pool_run mv asg ops hs))))
     = mset (concat (map dtor hs))"
proof (induction ops arbitrary: hs)
  case Nil
  then show ?case by simp
next
  case (Cons a ops)
  obtain hs1 fr where s: "pool_step mv asg a hs = (hs1, fr)" by fastforce
  obtain hs2 fr' where r: "pool_run mv asg ops hs1 = (hs2, fr')" by fastforce
  from Cons.IH [of hs1] pool_step_conserves [of a hs] s r show ?case
    by (simp add: add.assoc)
qed

end

interpretation redis: move_only redis_context redis_dtor redis_move_ctor redis_move_assign
  by unfold_locales
    (auto simp: redis_dtor_def redis_move_ctor_def redis_move_assign_def split: option.splits)

interpretation curl: move_only curl_handle curl_dtor curl_move_ctor curl_move_assign
  by unfold_locales
    (auto simp: curl_dtor_def curl_move_ctor_def curl_move_assign_def split: option.splits)

interpretation up: move_only up_ptr "up_dtor deleter" up_move_ctor "up_move_assign deleter" for deleter
  by unfold_locales (auto simp: up_dtor_def up_move_ctor_def up_move_assign_def split: option.splits)

lemmas unique_defs = UniqueAVPacket_def UniqueAVFrame_def UniqueAVCodecContext_def
  UniqueAVFormatContext_def UniqueAVFilterGraph_def UniqueSwsContext_def UniqueAVCodecParserContext_def

lemmas deleter_defs = AVPacketDeleter_def AVFrameDeleter_def AVCodecContextDeleter_def
  AVFormatContextCloseInputDeleter_def AVFilterGraphDeleter_def SwsContextDeleter_def
  AVCodecParserContextDeleter_def

text \<open>Destroying one of the wrappers calls the release function of its object, and only if it has one.\<close>

lemma unique_ptr_releases:
  "UniqueAVPacket p = map (av_packet_free \<circ> Some) (case up_ptr p of None \<Rightarrow> [] | Some c \<Rightarrow> [c])"
  "UniqueAVFrame p = map (av_frame_free \<circ> Some) (case up_ptr p of None \<Rightarrow> [] | Some c \<Rightarrow> [c])"
  "UniqueAVCodecContext p = map (avcodec_free_context \<circ> Some) (case up_ptr p of None \<Rightarrow> [] | Some c \<Rightarrow> [c])"
  "UniqueAVFormatContext p = map (avformat_close_input \<circ> Some) (case up_ptr p of None \<Rightarrow> [] | Some c \<Rightarrow> [c])"
  "UniqueAVFilterGraph p = map (avfilter_graph_free \<circ> Some) (case up_ptr p of None \<Rightarrow> [] | Some c \<Rightarrow> [c])"
  "UniqueSwsContext p = map (sws_freeContext \<circ> Some) (case up_ptr p of None \<Rightarrow> [] | Some c \<Rightarrow> [c])"
  "UniqueAVCodecParserContext p = map (av_parser_close \<circ> Some) (case up_ptr p of None \<Rightarrow> [] | Some c \<Rightarrow> [c])"
  by (simp_all add: unique_defs up_dtor_def deleter_defs split: option.splits)

lemma redis_ctor_balance:
  "redis_dtor (fst (redis_ctor r)) @ snd (redis_ctor r) = (case r of None \<Rightarrow> [] | Some (c, _) \<Rightarrow> [c])"
  by (auto simp: redis_ctor_def redis_dtor_def split: option.splits)

text \<open>
  C35: however client code moves Redis connections around (constructions, assignments,
  self-assignments), the contexts released by the moves together with those that the final
  destructors release are exactly the contexts owned at the start, each as often as it was
  owned: none leaks and none is freed twice. The same holds of the CURL handles and of the
  \<open>unique_ptr\<close> wrappers with any deleter.
\<close>

theorem handles_released_once:
  "mset (snd (pool_run redis_move_ctor redis_move_assign ops rs))
     + mset (concat (map redis_dtor (fst (pool_run redis_move_ctor redis_move_assign ops rs))))
     = mset (concat (map redis_dtor rs))
   \<and> mset (snd (pool_run curl_move_ctor curl_move_assign ops' cs))
     + mset (concat (map curl_dtor (fst (pool_run curl_move_ctor curl_move_assign ops' cs))))
     = mset (concat (map curl_dtor cs))
   \<and> mset (snd (pool_run up_move_ctor (up_move_assign deleter) ops'' us))
     + mset (concat (map (up_dtor deleter) (fst (pool_run up_move_ctor (up_move_assign deleter) ops'' us))))
     = mset (concat (map (up_dtor deleter) us))"
  using redis.pool_run_conserves curl.pool_run_conserves up.pool_run_conserves by blast

end
