(* ===== verification/ConfigManager.thy ===== *)
theory ConfigManager
  imports Types Handles
begin

text \<open>
  \<open>src/src/components/config_manager\<close>: construction from the environment, the filters that
  distribute streams over instances, the parsing of the JSON file, the merge of an API response
  into the file, and the reloader. The JSON library is the parameter \<open>'e simdjson\<close>: its
  element type and its accessors, each returning an error code or a value. The file system maps
  paths to contents; what libcurl and the file operations answer are arguments.
\<close>

section \<open>Parameters\<close>

type_synonym sj_error = nat

record 'e simdjson =
  parse :: "string \<Rightarrow> sj_error + 'e"
  at_key :: "'e \<Rightarrow> string \<Rightarrow> sj_error + 'e"
  get_string :: "'e \<Rightarrow> sj_error + string"
  get_int64 :: "'e \<Rightarrow> sj_error + int"
  get_double :: "'e \<Rightarrow> sj_error + double"
  get_bool :: "'e \<Rightarrow> sj_error + bool"
  get_array :: "'e \<Rightarrow> sj_error + 'e list"
  get_object :: "'e \<Rightarrow> sj_error + 'e"
  minify :: "'e \<Rightarrow> string"

type_synonym files = "string \<Rightarrow> string option"

text \<open>\<open>parser.load\<close> reads the file and parses it; a missing file is its IO error.\<close>

abbreviation (input) sj_io_error :: sj_error where "sj_io_error \<equiv> 25"

definition load_json :: "'e simdjson \<Rightarrow> files \<Rightarrow> string \<Rightarrow> sj_error + 'e" where
  "load_json sj fls path = (case fls path of None \<Rightarrow> Inl sj_io_error | Some s \<Rightarrow> parse sj s)"

record fs_calls =
  tmp_opens :: bool
  stored :: "string \<Rightarrow> string"
  rename_ok :: bool
  remove_ok :: bool

record curl_calls =
  curl_init :: "nat option"
  chunks :: "(string \<times> nat \<times> nat) list"
  curl_code :: int
  http_code :: int

section \<open>Construction\<close>

record ConfigManager =
  config_path :: string
  api_url :: string
  reload_interval :: int
  current_config :: GlobalConfig
  cm_instance_slot :: int
  cm_total_instances :: int
  cm_max_streams :: int
  cm_whitelist :: "int set"
  cm_has_whitelist :: bool
  cm_has_callback :: bool

lemma tl_dropWhile_shorter:
  assumes "c \<in> set s"
  shows "length (tl (dropWhile P s)) < length s"
proof -
  from assms have "0 < length s" by (cases s) auto
  with length_dropWhile_le [of P s] show ?thesis by (simp only: length_tl)
qed

text \<open>The loop over the comma-separated \<open>FP_STREAM_IDS\<close>.\<close>

function parse_ids :: "string \<Rightarrow> int set \<Rightarrow> stdexc + int set" where
  "parse_ids s acc =
     (if CHR '','' \<in> set s
      then let id_str = takeWhile (\<lambda>c. c \<noteq> CHR '','') s;
               rest = tl (dropWhile (\<lambda>c. c \<noteq> CHR '','') s)
           in if id_str \<noteq> [] then rbind (stoll id_str) (\<lambda>v. parse_ids rest (insert v acc))
              else parse_ids rest acc
      else if s \<noteq> [] then rbind (stoll s) (\<lambda>v. Inr (insert v acc))
      else Inr acc)"
  by pat_completeness auto

termination parse_ids
  by (relation "measure (\<lambda>(s, _). length s)") (simp_all add: tl_dropWhile_shorter del: length_tl)

declare parse_ids.simps [simp del]

definition config_manager_ctor :: "environment \<Rightarrow> stdexc + ConfigManager" where
  "config_manager_ctor env =
     rbind (stoll (get_env env ''FP_CONFIG_RELOAD_INTERVAL_S'' ''60'')) (\<lambda>interval.
     rbind (stoi (get_env env ''FP_INSTANCE_SLOT'' ''0'')) (\<lambda>slot.
     rbind (stoi (get_env env ''FP_TOTAL_INSTANCES'' ''1'')) (\<lambda>total.
     rbind (stoi (get_env env ''FP_MAX_STREAMS'' ''0'')) (\<lambda>maxs.
     let ids = get_env env ''FP_STREAM_IDS'' '''' in
     rbind (if ids \<noteq> [] then parse_ids ids {} else Inr {}) (\<lambda>wl.
       Inr \<lparr>config_path = get_env env ''FP_CONFIG_PATH'' ''/etc/fp/configs/config.json'',
            api_url = get_env env ''FP_CONFIG_API_URL'' '''',
            reload_interval = interval, current_config = default_global,
            cm_instance_slot = slot, cm_total_instances = total, cm_max_streams = maxs,
            cm_whitelist = wl, cm_has_whitelist = (ids \<noteq> []), cm_has_callback = False\<rparr>)))))"

section \<open>The instance filters\<close>

definition owns_stream :: "ConfigManager \<Rightarrow> int \<Rightarrow> bool" where
  "owns_stream cm stream_id =
     (if cm_total_instances cm \<le> 1 then True
      else crem stream_id (cm_total_instances cm)
             = crem (cm_instance_slot cm) (cm_total_instances cm))"

definition is_stream_whitelisted :: "ConfigManager \<Rightarrow> int \<Rightarrow> bool" where
  "is_stream_whitelisted cm stream_id =
     (if \<not> cm_has_whitelist cm then True else stream_id \<in> cm_whitelist cm)"

section \<open>Parsing the configuration file\<close>

definition int_field :: "'e simdjson \<Rightarrow> 'e \<Rightarrow> string \<Rightarrow> int \<Rightarrow> int" where
  "int_field sj obj key old =
     (case rbind (at_key sj obj key) (get_int64 sj) of Inl _ \<Rightarrow> old | Inr v \<Rightarrow> narrow 32 v)"

definition parse_processing :: "'e simdjson \<Rightarrow> 'e \<Rightarrow> ProcessingConfig" where
  "parse_processing sj stream_elem =
     (case rbind (at_key sj stream_elem ''processing'') (get_object sj) of
        Inl _ \<Rightarrow> default_processing
      | Inr proc_obj \<Rightarrow>
          let p1 = (case rbind (at_key sj proc_obj ''scale'') (get_object sj) of
                      Inl _ \<Rightarrow> default_processing
                    | Inr scale_obj \<Rightarrow> default_processing\<lparr>scale :=
                        \<lparr>sc_width = int_field sj scale_obj ''width'' 0,
                         sc_height = int_field sj scale_obj ''height'' 0\<rparr>\<rparr>)
          in (case rbind (at_key sj proc_obj ''crop'') (get_object sj) of
                Inl _ \<Rightarrow> p1
              | Inr crop_obj \<Rightarrow> p1\<lparr>crop :=
                  \<lparr>cr_x = int_field sj crop_obj ''x'' 0,
                   cr_y = int_field sj crop_obj ''y'' 0,
                   cr_width = int_field sj crop_obj ''width'' 0,
                   cr_height = int_field sj crop_obj ''height'' 0\<rparr>\<rparr>))"

definition parse_event :: "'e simdjson \<Rightarrow> 'e \<Rightarrow> EventConfig" where
  "parse_event sj event_elem =
     default_event\<lparr>
       ev_name := get_or (rbind (at_key sj event_elem ''name'') (get_string sj)) [],
       ev_target_fps := get_or (rbind (at_key sj event_elem ''target_fps'') (get_double sj)) 1,
       batch_size := narrow 32
         (get_or (rbind (at_key sj event_elem ''batch_size'') (get_int64 sj)) 8)\<rparr>"

text \<open>
  One iteration of the loop over the streams array; \<open>n\<close> is the number of streams already
  accepted, \<open>None\<close> is one of the \<open>continue\<close> statements.
\<close>

definition parse_stream :: "ConfigManager \<Rightarrow> 'e simdjson \<Rightarrow> nat \<Rightarrow> 'e \<Rightarrow> StreamConfig option" where
  "parse_stream cm sj n stream_elem =
     (case rbind (at_key sj stream_elem ''id'') (get_int64 sj) of
        Inl _ \<Rightarrow> None
      | Inr id_val \<Rightarrow>
          if \<not> is_stream_whitelisted cm id_val then None
          else if \<not> owns_stream cm id_val then None
          else if 0 < cm_max_streams cm \<and> nat (cm_max_streams cm) \<le> n then None
          else (case rbind (at_key sj stream_elem ''url'') (get_string sj) of
                  Inl _ \<Rightarrow> None
                | Inr url_val \<Rightarrow>
                    let cfg = \<lparr>st_id = id_val, url = url_val,
                          target_fps =
                            get_or (rbind (at_key sj stream_elem ''target_fps'') (get_double sj)) 1,
                          wait_for_keyframe =
                            get_or (rbind (at_key sj stream_elem ''wait_for_keyframe'')
                              (get_bool sj)) False,
                          enabled =
                            get_or (rbind (at_key sj stream_elem ''enabled'') (get_bool sj)) False,
                          processing = parse_processing sj stream_elem,
                          events = (case rbind (at_key sj stream_elem ''events'') (get_array sj) of
                                      Inl _ \<Rightarrow> []
                                    | Inr evs \<Rightarrow> map (parse_event sj) evs)\<rparr>
                    in if url cfg = [] then None else Some cfg))"

fun parse_streams ::
  "ConfigManager \<Rightarrow> 'e simdjson \<Rightarrow> StreamConfig list \<Rightarrow> 'e list \<Rightarrow> StreamConfig list" where
  "parse_streams cm sj acc [] = acc"
| "parse_streams cm sj acc (e # es) =
     (case parse_stream cm sj (length acc) e of
        None \<Rightarrow> parse_streams cm sj acc es
      | Some cfg \<Rightarrow> parse_streams cm sj (acc @ [cfg]) es)"

definition parse_config_json ::
  "ConfigManager \<Rightarrow> 'e simdjson \<Rightarrow> files \<Rightarrow> GlobalConfig \<Rightarrow> bool \<times> GlobalConfig" where
  "parse_config_json cm sj fls config_out =
     (case load_json sj fls (config_path cm) of
        Inl _ \<Rightarrow> (False, config_out)
      | Inr doc \<Rightarrow>
          let c1 = config_out\<lparr>
                log_level_str :=
                  get_or (rbind (rbind (at_key sj doc ''global_settings'')
                                       (\<lambda>g. at_key sj g ''log_level'')) (get_string sj)) ''INFO'',
                instance_slot := cm_instance_slot cm,
                total_instances := cm_total_instances cm,
                max_streams := cm_max_streams cm,
                has_stream_whitelist := cm_has_whitelist cm,
                stream_id_whitelist := cm_whitelist cm\<rparr>
          in (case rbind (at_key sj doc ''streams'') (get_array sj) of
                Inl _ \<Rightarrow> (False, c1)
              | Inr streams_arr \<Rightarrow>
                  (True, c1\<lparr>stream_configs := parse_streams cm sj [] streams_arr\<rparr>)))"

definition load_initial_config ::
  "'e simdjson \<Rightarrow> files \<Rightarrow> ConfigManager \<Rightarrow> bool \<times> ConfigManager" where
  "load_initial_config sj fls cm =
     (case parse_config_json cm sj fls default_global of
        (parsed, initial) \<Rightarrow>
          if \<not> parsed then (False, cm) else (True, cm\<lparr>current_config := initial\<rparr>))"

section \<open>The filters\<close>

lemma crem_mod_eq:
  assumes "1 < n" and "0 \<le> b"
  shows "\<exists>!slot. slot \<in> {b..<b + n} \<and> slot mod n = k mod (n::int)"
proof -
  let ?s = "b + (k - b) mod n"
  have "0 \<le> (k - b) mod n" "(k - b) mod n < n" using assms by simp_all
  then have "?s \<in> {b..<b + n}" by simp
  moreover have "?s mod n = k mod n" by (simp add: mod_add_right_eq)
  moreover have "slot = ?s" if "slot \<in> {b..<b + n}" "slot mod n = k mod n" for slot
  proof -
    have "(slot - b) mod n = (k - b) mod n" using that(2) by (metis mod_diff_left_eq)
    moreover have "(slot - b) mod n = slot - b" using that(1) by simp
    ultimately show ?thesis by simp
  qed
  ultimately show ?thesis by blast
qed

text \<open>
  C28: consecutively numbered slots (0-based, or 1-based as the orchestrator numbers them)
  partition the streams: with \<open>n > 1\<close> instances a stream is owned by exactly one of the slots
  \<open>b, \<dots>, b + n - 1\<close> when its id is non-negative or a multiple of \<open>n\<close>, and by no slot at all
  otherwise (a negative id has a negative C++ remainder).
\<close>

theorem owns_stream_partition:
  assumes "1 < n" and "0 \<le> b"
  shows "(0 \<le> stream_id \<or> n dvd stream_id \<longrightarrow>
            (\<exists>!slot. slot \<in> {b..<b + n} \<and>
              owns_stream (cm\<lparr>cm_instance_slot := slot, cm_total_instances := n\<rparr>) stream_id))
    \<and> (\<not> (0 \<le> stream_id \<or> n dvd stream_id) \<longrightarrow>
            (\<forall>slot. 0 \<le> slot \<longrightarrow>
              \<not> owns_stream (cm\<lparr>cm_instance_slot := slot, cm_total_instances := n\<rparr>) stream_id))"
proof (rule conjI; rule impI)
  have slot: "owns_stream (cm\<lparr>cm_instance_slot := s, cm_total_instances := n\<rparr>) stream_id
      \<longleftrightarrow> s mod n = crem stream_id n" if "0 \<le> s" for s
    using that assms by (auto simp: owns_stream_def crem_nonneg)
  show "\<exists>!slot. slot \<in> {b..<b + n} \<and>
      owns_stream (cm\<lparr>cm_instance_slot := slot, cm_total_instances := n\<rparr>) stream_id"
    if id: "0 \<le> stream_id \<or> n dvd stream_id"
  proof -
    have "crem stream_id n = stream_id mod n"
      using assms id by (cases "0 \<le> stream_id") (auto simp: crem_nonneg crem_dvd)
    then have pq: "(s \<in> {b..<b + n} \<and>
          owns_stream (cm\<lparr>cm_instance_slot := s, cm_total_instances := n\<rparr>) stream_id)
        \<longleftrightarrow> (s \<in> {b..<b + n} \<and> s mod n = stream_id mod n)" for s
      using slot [of s] assms(2) by auto
    show ?thesis unfolding pq by (rule crem_mod_eq [OF assms])
  qed
  show "\<forall>slot. 0 \<le> slot \<longrightarrow>
      \<not> owns_stream (cm\<lparr>cm_instance_slot := slot, cm_total_instances := n\<rparr>) stream_id"
    if "\<not> (0 \<le> stream_id \<or> n dvd stream_id)"
  proof (intro allI impI)
    fix s :: int assume "0 \<le> s"
    have "crem stream_id n < 0" using that assms by (auto intro: crem_neg_strict)
    moreover have "0 \<le> s mod n" using assms by simp
    ultimately show "\<not> owns_stream (cm\<lparr>cm_instance_slot := s, cm_total_instances := n\<rparr>) stream_id"
      using slot [OF \<open>0 \<le> s\<close>] by simp
  qed
qed

theorem owns_stream_partition_witness:
  "(\<exists>!slot. slot \<in> {1..<1 + 3} \<and>
     owns_stream (ConfigManager.make [] [] 60 default_global 0 1 0 {} False False
       \<lparr>cm_instance_slot := slot, cm_total_instances := 3\<rparr>) 7)
   \<and> \<not> owns_stream (ConfigManager.make [] [] 60 default_global 0 1 0 {} False False
       \<lparr>cm_instance_slot := 2, cm_total_instances := 3\<rparr>) (- 7)"
proof -
  note part = owns_stream_partition
    [of 3 1 _ "ConfigManager.make [] [] 60 default_global 0 1 0 {} False False"]
  show ?thesis using part [of 7] part [of "- 7"] by simp
qed

text \<open>The ids of \<open>FP_STREAM_IDS\<close> as an operator writes them.\<close>

fun join_ids :: "int list \<Rightarrow> string" where
  "join_ids [] = []"
| "join_ids [i] = show_int i"
| "join_ids (i # is) = show_int i @ CHR '','' # join_ids is"

lemma comma_not_in_show_int: "CHR '','' \<notin> set (show_int i)"
  using show_int_chars [of "CHR '',''" i] by (auto simp: is_digit_def)

lemma show_int_neq_Nil [simp]: "show_int i \<noteq> []"
  by (simp add: show_int_def)

lemma parse_ids_join:
  "is \<noteq> [] \<Longrightarrow> set is \<subseteq> {llong_min..llong_max} \<Longrightarrow> parse_ids (join_ids is) acc = Inr (set is \<union> acc)"
proof (induction "is" arbitrary: acc rule: join_ids.induct)
  case 1
  then show ?case by simp
next
  case (2 i)
  then show ?case
    using comma_not_in_show_int [of i] by (simp add: parse_ids.simps stoll_show_int)
next
  case (3 i j js)
  let ?rest = "join_ids (j # js)"
  have ne: "\<forall>c \<in> set (show_int i). c \<noteq> CHR '',''" using comma_not_in_show_int [of i] by auto
  then have "takeWhile (\<lambda>c. c \<noteq> CHR '','') (show_int i @ CHR '','' # ?rest) = show_int i"
    "dropWhile (\<lambda>c. c \<noteq> CHR '','') (show_int i @ CHR '','' # ?rest) = CHR '','' # ?rest"
    by (simp_all add: takeWhile_append2 dropWhile_append2)
  with 3 show ?case
    by (subst parse_ids.simps) (simp add: stoll_show_int insert_commute)
qed

text \<open>
  C37: a whitelist written as decimal ids joined by commas is read back exactly: the constructed
  manager lets through these streams and no other.
\<close>

theorem whitelist_roundtrip:
  assumes "is \<noteq> []" and "set is \<subseteq> {llong_min..llong_max}"
  shows "\<exists>cm. config_manager_ctor [''FP_STREAM_IDS'' \<mapsto> join_ids is] = Inr cm
    \<and> {i. is_stream_whitelisted cm i} = set is"
proof -
  have ne: "join_ids is \<noteq> []" using assms(1) by (cases "is" rule: join_ids.cases) auto
  have def: "stoll ''60'' = Inr 60" "stoi ''0'' = Inr 0" "stoi ''1'' = Inr 1"
    by (simp_all add: stoll_def stoi_def strto_int_def is_space_def is_digit_def digits_val_def
        digit_val_def)
  show ?thesis
    using ne parse_ids_join [OF assms, of "{}"]
    by (simp add: config_manager_ctor_def get_env_def def is_stream_whitelisted_def)
qed

theorem whitelist_roundtrip_witness:
  "\<exists>cm. config_manager_ctor [''FP_STREAM_IDS'' \<mapsto> join_ids [12, - 3]] = Inr cm
    \<and> {i. is_stream_whitelisted cm i} = {12, - 3}"
  using whitelist_roundtrip [of "[12, - 3]"] by simp

section \<open>A concrete JSON library\<close>

text \<open>
  JSON values with accessors that behave as the library documents, over a given text parser: the
  instance at which the theorems with hypotheses about the library are exercised.
\<close>

datatype json =
  JNull | JBool bool | JInt int | JDouble rat | JString string
| JArray "json list" | JObject "(string \<times> json) list"

fun json_at_key :: "json \<Rightarrow> string \<Rightarrow> sj_error + json" where
  "json_at_key (JObject kvs) k = (case map_of kvs k of Some v \<Rightarrow> Inr v | None \<Rightarrow> Inl 19)"
| "json_at_key _ k = Inl 17"

fun json_minify :: "json \<Rightarrow> string" where
  "json_minify JNull = ''null''"
| "json_minify (JBool b) = (if b then ''true'' else ''false'')"
| "json_minify (JInt i) = show_int i"
| "json_minify (JDouble d) = show_int \<lfloor>d\<rfloor>"
| "json_minify (JString s) = [CHR 0x22] @ s @ [CHR 0x22]"
| "json_minify (JArray es) = ''['' @ concat (map (\<lambda>e. json_minify e @ '','') es) @ '']''"
| "json_minify (JObject kvs) =
     ''{'' @ concat (map (\<lambda>(k, e). k @ '':'' @ json_minify e @ '','') kvs) @ ''}''"

definition json_lib :: "(string \<Rightarrow> sj_error + json) \<Rightarrow> json simdjson" where
  "json_lib parser =
     \<lparr>parse = parser, at_key = json_at_key,
      get_string = (\<lambda>e. case e of JString s \<Rightarrow> Inr s | _ \<Rightarrow> Inl 17),
      get_int64 = (\<lambda>e. case e of JInt i \<Rightarrow> Inr i | _ \<Rightarrow> Inl 17),
      get_double = (\<lambda>e. case e of JDouble d \<Rightarrow> Inr d | JInt i \<Rightarrow> Inr (of_int i) | _ \<Rightarrow> Inl 17),
      get_bool = (\<lambda>e. case e of JBool b \<Rightarrow> Inr b | _ \<Rightarrow> Inl 17),
      get_array = (\<lambda>e. case e of JArray es \<Rightarrow> Inr es | _ \<Rightarrow> Inl 17),
      get_object = (\<lambda>e. case e of JObject kvs \<Rightarrow> Inr (JObject kvs) | _ \<Rightarrow> Inl 17),
      minify = json_minify\<rparr>"

lemma json_lib_simps [simp]:
  "parse (json_lib p) = p" "at_key (json_lib p) = json_at_key"
  "minify (json_lib p) = json_minify"
  "get_array (json_lib p) (JArray es) = Inr es"
  by (simp_all add: json_lib_def)

section \<open>The parsed configuration\<close>

text \<open>
  The specification of the loop: the stream that an array element describes, if it passes the
  filters that do not depend on its position.
\<close>

definition stream_candidate :: "ConfigManager \<Rightarrow> 'e simdjson \<Rightarrow> 'e \<Rightarrow> StreamConfig option" where
  "stream_candidate cm sj e = parse_stream (cm\<lparr>cm_max_streams := 0\<rparr>) sj 0 e"

lemma parse_stream_candidate:
  "parse_stream cm sj n e =
     (if 0 < cm_max_streams cm \<and> nat (cm_max_streams cm) \<le> n then None
      else stream_candidate cm sj e)"
  by (auto simp: parse_stream_def stream_candidate_def is_stream_whitelisted_def
      owns_stream_def Let_def split: sum.splits)

lemma stream_candidate_filters:
  "stream_candidate cm sj e = Some s \<Longrightarrow>
   is_stream_whitelisted cm (st_id s) \<and> owns_stream cm (st_id s) \<and> url s \<noteq> []"
  by (auto simp: parse_stream_def stream_candidate_def is_stream_whitelisted_def
      owns_stream_def Let_def split: sum.splits if_splits)

lemma map_filter_Cons:
  "List.map_filter f (x # xs) = (case f x of None \<Rightarrow> [] | Some y \<Rightarrow> [y]) @ List.map_filter f xs"
  by (simp add: List.map_filter_def split: option.splits)

lemma parse_streams_acc:
  "0 < cm_max_streams cm \<Longrightarrow> length acc \<le> nat (cm_max_streams cm) \<Longrightarrow>
   parse_streams cm sj acc es
     = acc @ take (nat (cm_max_streams cm) - length acc) (List.map_filter (stream_candidate cm sj) es)"
proof (induction es arbitrary: acc)
  case Nil
  then show ?case by (simp add: List.map_filter_def)
next
  case (Cons e es)
  show ?case
  proof (cases "nat (cm_max_streams cm) \<le> length acc")
    case True
    with Cons show ?thesis by (simp add: parse_stream_candidate)
  next
    case False
    with Cons show ?thesis
      by (auto simp: parse_stream_candidate map_filter_Cons Suc_diff_Suc take_Cons'
          split: option.splits)
  qed
qed

lemma parse_streams_unlimited:
  "cm_max_streams cm \<le> 0 \<Longrightarrow>
   parse_streams cm sj acc es = acc @ List.map_filter (stream_candidate cm sj) es"
  by (induction es arbitrary: acc)
    (auto simp: parse_stream_candidate map_filter_Cons List.map_filter_def split: option.splits)

lemma parse_streams_take:
  "parse_streams cm sj [] es
     = (if 0 < cm_max_streams cm
        then take (nat (cm_max_streams cm)) (List.map_filter (stream_candidate cm sj) es)
        else List.map_filter (stream_candidate cm sj) es)"
  using parse_streams_acc [of cm "[]" sj es] parse_streams_unlimited [of cm sj "[]" es] by auto

definition passes_filters :: "ConfigManager \<Rightarrow> StreamConfig \<Rightarrow> bool" where
  "passes_filters cm s \<longleftrightarrow>
     is_stream_whitelisted cm (st_id s) \<and> owns_stream cm (st_id s) \<and> url s \<noteq> []"

lemma parse_streams_filters: "list_all (passes_filters cm) (parse_streams cm sj [] es)"
proof -
  have "\<forall>s \<in> set (List.map_filter (stream_candidate cm sj) es). passes_filters cm s"
    by (induction es)
      (auto simp: map_filter_Cons List.map_filter_def passes_filters_def
        dest: stream_candidate_filters split: option.splits)
  then show ?thesis by (auto simp: parse_streams_take list_all_iff dest: in_set_takeD)
qed

lemma parse_config_json_filters:
  "parse_config_json cm sj fls c0 = (True, c) \<Longrightarrow> list_all (passes_filters cm) (stream_configs c)"
  by (auto simp: parse_config_json_def Let_def parse_streams_filters split: sum.splits)

text \<open>
  What a document may say of a stream, each member optional, and how it is written as JSON; what
  the program is to make of it is stated on the entry, without the parser.
\<close>

record event_entry =
  ee_name :: "string option"
  ee_fps :: "double option"
  ee_batch :: "int option"

record stream_entry =
  se_id :: "int option"
  se_url :: "string option"
  se_fps :: "double option"
  se_keyframe :: "bool option"
  se_enabled :: "bool option"
  se_scale :: "(int \<times> int) option"
  se_crop :: "(int \<times> int \<times> int \<times> int) option"
  se_events :: "event_entry list option"

definition member :: "string \<Rightarrow> ('a \<Rightarrow> json) \<Rightarrow> 'a option \<Rightarrow> (string \<times> json) list" where
  "member k f v = (case v of None \<Rightarrow> [] | Some x \<Rightarrow> [(k, f x)])"

definition event_json :: "event_entry \<Rightarrow> json" where
  "event_json e = JObject (member ''name'' JString (ee_name e) @ member ''target_fps'' JDouble (ee_fps e)
     @ member ''batch_size'' JInt (ee_batch e))"

definition scale_json :: "int \<times> int \<Rightarrow> json" where
  "scale_json s = (case s of (w, h) \<Rightarrow> JObject [(''width'', JInt w), (''height'', JInt h)])"

definition crop_json :: "int \<times> int \<times> int \<times> int \<Rightarrow> json" where
  "crop_json c = (case c of (x, y, w, h) \<Rightarrow>
     JObject [(''x'', JInt x), (''y'', JInt y), (''width'', JInt w), (''height'', JInt h)])"

definition stream_json :: "stream_entry \<Rightarrow> json" where
  "stream_json s = JObject (member ''id'' JInt (se_id s) @ member ''url'' JString (se_url s)
     @ member ''target_fps'' JDouble (se_fps s) @ member ''wait_for_keyframe'' JBool (se_keyframe s)
     @ member ''enabled'' JBool (se_enabled s)
     @ [(''processing'', JObject (member ''scale'' scale_json (se_scale s)
                                  @ member ''crop'' crop_json (se_crop s)))]
     @ member ''events'' (\<lambda>es. JArray (map event_json es)) (se_events s))"

abbreviation given_or :: "'a option \<Rightarrow> 'a \<Rightarrow> 'a" where
  "given_or v d \<equiv> (case v of None \<Rightarrow> d | Some x \<Rightarrow> x)"

definition entry_event :: "event_entry \<Rightarrow> EventConfig" where
  "entry_event e =
     \<lparr>ev_id = 0, ev_name = given_or (ee_name e) [], ev_target_fps = given_or (ee_fps e) 1,
      batch_size = narrow 32 (given_or (ee_batch e) 8), ev_processing = default_processing\<rparr>"

definition entry_config :: "stream_entry \<Rightarrow> int \<Rightarrow> string \<Rightarrow> StreamConfig" where
  "entry_config s i u =
     \<lparr>st_id = i, url = u, target_fps = given_or (se_fps s) 1,
      wait_for_keyframe = given_or (se_keyframe s) False, enabled = given_or (se_enabled s) False,
      processing =
        \<lparr>scale = (case given_or (se_scale s) (0, 0) of
                    (w, h) \<Rightarrow> \<lparr>sc_width = narrow 32 w, sc_height = narrow 32 h\<rparr>),
         crop = (case given_or (se_crop s) (0, 0, 0, 0) of
                   (x, y, w, h) \<Rightarrow> \<lparr>cr_x = narrow 32 x, cr_y = narrow 32 y, cr_width = narrow 32 w,
                                    cr_height = narrow 32 h\<rparr>)\<rparr>,
      events = map entry_event (given_or (se_events s) [])\<rparr>"

text \<open>An instance takes an entry with an id and a URL whose id its environment selects.\<close>

definition loaded_entry :: "ConfigManager \<Rightarrow> stream_entry \<Rightarrow> StreamConfig option" where
  "loaded_entry cm s =
     (case (se_id s, se_url s) of
        (Some i, Some u) \<Rightarrow>
          if u \<noteq> [] \<and> (cm_has_whitelist cm \<longrightarrow> i \<in> cm_whitelist cm)
            \<and> (1 < cm_total_instances cm \<longrightarrow>
                crem i (cm_total_instances cm) = crem (cm_instance_slot cm) (cm_total_instances cm))
          then Some (entry_config s i u) else None
      | _ \<Rightarrow> None)"

definition loaded_streams :: "ConfigManager \<Rightarrow> stream_entry list \<Rightarrow> StreamConfig list" where
  "loaded_streams cm xs =
     (if 0 < cm_max_streams cm then take (nat (cm_max_streams cm)) (List.map_filter (loaded_entry cm) xs)
      else List.map_filter (loaded_entry cm) xs)"

text \<open>Reading a member that may be absent.\<close>

lemma at_member:
  "json_at_key (JObject (member k f v @ kvs)) k'
     = (if k' = k then (case v of None \<Rightarrow> json_at_key (JObject kvs) k' | Some x \<Rightarrow> Inr (f x))
        else json_at_key (JObject kvs) k')"
  "json_at_key (JObject (member k f v)) k'
     = (if k' = k then (case v of None \<Rightarrow> Inl 19 | Some x \<Rightarrow> Inr (f x)) else Inl 19)"
  by (auto simp: member_def split: option.splits)

lemma at_first:
  "json_at_key (JObject ((k, v) # kvs)) k' = (if k' = k then Inr v else json_at_key (JObject kvs) k')"
  "json_at_key (JObject []) k' = Inl 19"
  by simp_all

lemmas at_members = at_member at_first

lemma rbind_member [simp]:
  "rbind (case v of None \<Rightarrow> Inl er | Some x \<Rightarrow> Inr (f x)) g = (case v of None \<Rightarrow> Inl er | Some x \<Rightarrow> g (f x))"
  by (simp split: option.splits)

lemma get_or_member [simp]:
  "get_or (case v of None \<Rightarrow> Inl er | Some x \<Rightarrow> Inr (f x)) d = (case v of None \<Rightarrow> d | Some x \<Rightarrow> f x)"
  by (simp split: option.splits)

lemma json_lib_values [simp]:
  "get_int64 (json_lib p) (JInt i) = Inr i" "get_string (json_lib p) (JString s) = Inr s"
  "get_double (json_lib p) (JDouble d) = Inr d" "get_bool (json_lib p) (JBool b) = Inr b"
  "get_object (json_lib p) (JObject kvs) = Inr (JObject kvs)"
  by (simp_all add: json_lib_def)

lemma parse_event_entry: "parse_event (json_lib p) (event_json e) = entry_event e"
  by (simp add: parse_event_def event_json_def entry_event_def default_event_def at_members
      del: json_at_key.simps(1) cong: option.case_cong)

lemma parse_processing_entry:
  "parse_processing (json_lib p) (stream_json s) = processing (entry_config s i u)"
proof -
  let ?o = "JObject (member ''scale'' scale_json (se_scale s) @ member ''crop'' crop_json (se_crop s))"
  have "json_at_key (stream_json s) ''processing'' = Inr ?o"
    by (simp add: stream_json_def at_members del: json_at_key.simps(1))
  then show ?thesis
    by (cases "se_scale s"; cases "se_crop s")
      (auto simp: parse_processing_def entry_config_def default_processing_def scale_json_def
        crop_json_def int_field_def at_members simp del: json_at_key.simps(1))
qed

lemma stream_json_keys [simp]:
  "json_at_key (stream_json s) ''id'' = (case se_id s of None \<Rightarrow> Inl 19 | Some x \<Rightarrow> Inr (JInt x))"
  "json_at_key (stream_json s) ''url'' = (case se_url s of None \<Rightarrow> Inl 19 | Some x \<Rightarrow> Inr (JString x))"
  "json_at_key (stream_json s) ''target_fps'' = (case se_fps s of None \<Rightarrow> Inl 19 | Some x \<Rightarrow> Inr (JDouble x))"
  "json_at_key (stream_json s) ''wait_for_keyframe''
     = (case se_keyframe s of None \<Rightarrow> Inl 19 | Some x \<Rightarrow> Inr (JBool x))"
  "json_at_key (stream_json s) ''enabled'' = (case se_enabled s of None \<Rightarrow> Inl 19 | Some x \<Rightarrow> Inr (JBool x))"
  "json_at_key (stream_json s) ''events''
     = (case se_events s of None \<Rightarrow> Inl 19 | Some es \<Rightarrow> Inr (JArray (map event_json es)))"
  by (simp_all add: stream_json_def at_members del: json_at_key.simps(1) cong: option.case_cong)

lemma stream_candidate_entry: "stream_candidate cm (json_lib p) (stream_json s) = loaded_entry cm s"
proof (cases "se_id s")
  case None
  then show ?thesis by (simp add: stream_candidate_def parse_stream_def loaded_entry_def)
next
  case (Some i)
  have ev: "(case (case se_events s of None \<Rightarrow> Inl (19 :: sj_error) | Some es \<Rightarrow> Inr (map event_json es)) of
      Inl _ \<Rightarrow> [] | Inr evs \<Rightarrow> map (parse_event (json_lib p)) evs) = map entry_event (given_or (se_events s) [])"
    by (simp add: parse_event_entry split: option.splits)
  show ?thesis
  proof (cases "se_url s")
    case None
    with Some show ?thesis by (simp add: stream_candidate_def parse_stream_def loaded_entry_def)
  next
    case (Some u)
    with \<open>se_id s = Some i\<close> show ?thesis
      using parse_processing_entry [of p s i u] ev
      by (auto simp: stream_candidate_def parse_stream_def loaded_entry_def is_stream_whitelisted_def
          owns_stream_def Let_def entry_config_def cong: option.case_cong)
  qed
qed

lemma parse_streams_entries:
  "parse_streams cm (json_lib p) [] (map stream_json xs) = loaded_streams cm xs"
proof -
  have "List.map_filter (stream_candidate cm (json_lib p)) (map stream_json xs) = List.map_filter (loaded_entry cm) xs"
    by (induction xs) (simp_all add: map_filter_Cons List.map_filter_def stream_candidate_entry)
  then show ?thesis by (simp add: parse_streams_take loaded_streams_def)
qed

text \<open>The whole document, and what is read from it.\<close>

definition config_json :: "string option \<Rightarrow> stream_entry list \<Rightarrow> json" where
  "config_json lvl xs = JObject
     [(''global_settings'', JObject (member ''log_level'' JString lvl)),
      (''streams'', JArray (map stream_json xs))]"

lemma parse_config_entries:
  assumes "fls (config_path cm) = Some txt" and "parser txt = Inr (config_json lvl xs)"
  shows "parse_config_json cm (json_lib parser) fls default_global =
    (True, \<lparr>log_level_str = given_or lvl ''INFO'', stream_configs = loaded_streams cm xs,
            instance_slot = cm_instance_slot cm, total_instances = cm_total_instances cm,
            max_streams = cm_max_streams cm, stream_id_whitelist = cm_whitelist cm,
            has_stream_whitelist = cm_has_whitelist cm\<rparr>)"
proof -
  have "json_at_key (config_json lvl xs) ''global_settings'' = Inr (JObject (member ''log_level'' JString lvl))"
    "json_at_key (config_json lvl xs) ''streams'' = Inr (JArray (map stream_json xs))"
    by (simp_all add: config_json_def)
  then show ?thesis
    using assms
    by (simp add: parse_config_json_def load_json_def default_global_def parse_streams_entries at_members
        del: json_at_key.simps(1) cong: option.case_cong)
qed

lemma parse_config_current [simp]:
  "parse_config_json (cm\<lparr>current_config := g\<rparr>) sj fls c0 = parse_config_json cm sj fls c0"
proof -
  have "is_stream_whitelisted (cm\<lparr>current_config := g\<rparr>) = is_stream_whitelisted cm"
    "owns_stream (cm\<lparr>current_config := g\<rparr>) = owns_stream cm"
    by (simp_all add: fun_eq_iff is_stream_whitelisted_def owns_stream_def)
  then have "parse_stream (cm\<lparr>current_config := g\<rparr>) sj n e = parse_stream cm sj n e" for n e
    by (simp add: parse_stream_def cong: sum.case_cong if_cong)
  then have "parse_streams (cm\<lparr>current_config := g\<rparr>) sj acc es = parse_streams cm sj acc es" for acc es
    by (induction es arbitrary: acc) (simp_all split: option.splits)
  then show ?thesis by (simp add: parse_config_json_def cong: sum.case_cong)
qed

text \<open>
  C27: the streams array as a document writes it (every member optional, the processing object
  possibly empty) is read as stated for its entries: in file order, the first \<open>max_streams\<close> (all when it is not positive) of the
  entries with an id and a non-empty URL that are whitelisted and owned by this instance, each
  with the members the document gives, the 32-bit ones narrowed, and the documented defaults for
  the others. Over any JSON library every loaded stream passes the three filters.
\<close>

theorem parse_streams_spec:
  "parse_streams cm (json_lib parser) [] (map stream_json xs) = loaded_streams cm xs
   \<and> list_all (\<lambda>s. is_stream_whitelisted cm (st_id s) \<and> owns_stream cm (st_id s) \<and> url s \<noteq> [])
       (parse_streams cm sj [] es)"
  using parse_streams_entries parse_streams_filters [of cm sj es]
  by (simp add: passes_filters_def [abs_def])

end
