(* ===== verification/ConfigReload.thy ===== *)
theory ConfigReload
  imports ConfigManager
begin

text \<open>
  The second half of \<open>config_manager.cpp\<close>: fetching the API response with libcurl, merging it
  into the local file with an atomic rename, and the reloader thread with its callback. One
  iteration of the reloader is a function of what the outside answered; the loop runs over the
  iterations' answers until the stop token is set. An exception that leaves the thread function
  ends the process and is the \<open>Inl\<close> result.
\<close>

section \<open>Fetching the API response\<close>

text \<open>
  \<open>userp\<close> is the string the callback appends to (\<open>None\<close> for null); \<open>alloc_ok\<close> is false when
  the append raises \<open>std::bad_alloc\<close>. The product of two \<open>size_t\<close> wraps.
\<close>

definition size_mul :: "nat \<Rightarrow> nat \<Rightarrow> nat" where
  "size_mul a b = (a * b) mod 2 ^ 64"

definition write_callback ::
  "bool \<Rightarrow> string \<Rightarrow> nat \<Rightarrow> nat \<Rightarrow> string option \<Rightarrow> nat \<times> string option" where
  "write_callback alloc_ok contents sz nmemb userp =
     (case userp of
        None \<Rightarrow> (0, None)
      | Some buf \<Rightarrow>
          if \<not> alloc_ok then (0, Some buf)
          else (size_mul sz nmemb, Some (buf @ take (size_mul sz nmemb) contents)))"

definition receive_body :: "(string \<times> nat \<times> nat) list \<Rightarrow> string" where
  "receive_body cs =
     foldl (\<lambda>buf (contents, sz, nmemb).
       (case snd (write_callback True contents sz nmemb (Some buf)) of
          Some buf' \<Rightarrow> buf' | None \<Rightarrow> buf)) [] cs"

text \<open>The second component is the handles released when the wrapper leaves its scope.\<close>

definition fetch_config_from_api :: "curl_calls \<Rightarrow> string option \<times> nat list" where
  "fetch_config_from_api cc =
     (let curl = curl_ctor (curl_init cc); released = curl_dtor curl
      in if curl_get curl = None then (None, released)
         else let read_buffer = receive_body (chunks cc)
              in if curl_code cc \<noteq> 0 then (None, released)
                 else if http_code cc \<noteq> 200 then (None, released)
                 else (Some read_buffer, released))"

lemma receive_body_chunks:
  "list_all (\<lambda>(c, sz, nmemb). length c = sz * nmemb \<and> sz * nmemb < 2 ^ 64) cs
   \<Longrightarrow> receive_body cs = concat (map fst cs)"
proof -
  have "list_all (\<lambda>(c, sz, nmemb). length c = sz * nmemb \<and> sz * nmemb < 2 ^ 64) cs \<Longrightarrow>
    foldl (\<lambda>buf (contents, sz, nmemb).
       (case snd (write_callback True contents sz nmemb (Some buf)) of
          Some buf' \<Rightarrow> buf' | None \<Rightarrow> buf)) b cs = b @ concat (map fst cs)" for b
    by (induction cs arbitrary: b) (auto simp: write_callback_def size_mul_def)
  then show "list_all (\<lambda>(c, sz, nmemb). length c = sz * nmemb \<and> sz * nmemb < 2 ^ 64) cs
   \<Longrightarrow> receive_body cs = concat (map fst cs)"
    by (simp add: receive_body_def)
qed

section \<open>Merging\<close>

definition merged_content :: "'e simdjson \<Rightarrow> 'e \<Rightarrow> 'e \<Rightarrow> string" where
  "merged_content sj global_settings streams =
     ''{'' @ [char_of (10::nat)] @ ''  '' @ [CHR 0x22] @ ''global_settings'' @ [CHR 0x22] @ '': ''
     @ minify sj global_settings
     @ '','' @ [char_of (10::nat)] @ ''  '' @ [CHR 0x22] @ ''streams'' @ [CHR 0x22] @ '': ''
     @ minify sj streams @ [char_of (10::nat)] @ ''}''"

text \<open>
  The operations on files that the write performs, one character at a time, so that every state
  another process can see in between is the result of a prefix of them. A rename replaces the
  target in one step.
\<close>

datatype fs_op = OpenTrunc string | Append string char | Rename string string | Unlink string

fun apply_fs_op :: "fs_op \<Rightarrow> files \<Rightarrow> files" where
  "apply_fs_op (OpenTrunc p) fls = fls(p \<mapsto> [])"
| "apply_fs_op (Append p c) fls = fls(p := map_option (\<lambda>s. s @ [c]) (fls p))"
| "apply_fs_op (Rename p q) fls = fls(q := fls p, p := None)"
| "apply_fs_op (Unlink p) fls = fls(p := None)"

text \<open>
  \<open>stored\<close> is the part of the text that reaches the file: the code does not check the stream after
  writing. A failed rename leaves the files as they are.
\<close>

definition write_file :: "fs_calls \<Rightarrow> string \<Rightarrow> string \<Rightarrow> bool \<times> fs_op list" where
  "write_file fsc path content =
     (let temp = path @ ''.tmp''
      in if \<not> tmp_opens fsc then (False, [])
         else let written = OpenTrunc temp # map (Append temp) (stored fsc content)
              in if rename_ok fsc then (True, written @ [Rename temp path])
                 else (False, written @ (if remove_ok fsc then [Unlink temp] else [])))"

text \<open>
  Both documents are parsed with the same \<open>parser\<close>, whose elements are references into the
  parser's own document: the second parse invalidates the element \<open>api_doc\<close>, and the library
  says nothing of what reading it afterwards yields. \<open>reread a l\<close> is an unspecified element in its
  place, for the first document \<open>a\<close> and the second \<open>l\<close>. Converting a failed lookup to an element
  raises \<open>simdjson_error\<close>, which this function does not catch.
\<close>

definition update_local_config_from_api ::
  "'e simdjson \<Rightarrow> ('e \<Rightarrow> 'e \<Rightarrow> 'e) \<Rightarrow> fs_calls \<Rightarrow> string \<Rightarrow> string \<Rightarrow> files
     \<Rightarrow> stdexc + (bool \<times> fs_op list)" where
  "update_local_config_from_api sj reread fsc path api_json_str fls =
     (case parse sj api_json_str of
        Inl _ \<Rightarrow> Inr (False, [])
      | Inr api_doc0 \<Rightarrow>
          (case load_json sj fls path of
             Inl _ \<Rightarrow> Inr (False, [])
           | Inr local_doc \<Rightarrow>
               let api_doc = reread api_doc0 local_doc in
               (case at_key sj local_doc ''global_settings'' of
                  Inl _ \<Rightarrow> Inl SimdjsonError
                | Inr local_global \<Rightarrow>
                    (case at_key sj local_doc ''streams'' of
                       Inl _ \<Rightarrow> Inl SimdjsonError
                     | Inr local_streams \<Rightarrow>
                         let fg = (case at_key sj api_doc ''global_settings'' of
                                     Inl _ \<Rightarrow> (local_global, False) | Inr g \<Rightarrow> (g, True));
                             fst' = (case at_key sj api_doc ''streams'' of
                                     Inl _ \<Rightarrow> (local_streams, snd fg) | Inr s \<Rightarrow> (s, True))
                         in if \<not> snd fst' then Inr (True, [])
                            else Inr (write_file fsc path (merged_content sj (fst fg) (fst fst')))))))"

section \<open>The reloader\<close>

record cycle =
  stop_before :: bool
  stop_after_wait :: bool
  cy_curl :: curl_calls
  cy_fs :: fs_calls

definition start_reloader :: "bool \<Rightarrow> ConfigManager \<Rightarrow> ConfigManager \<times> GlobalConfig list" where
  "start_reloader callback_set cm =
     (let cm1 = cm\<lparr>cm_has_callback := callback_set\<rparr>
      in (cm1, if callback_set then [current_config cm1] else []))"

text \<open>
  The body of one iteration after the wait: poll the API, read the file, compare and notify.
\<close>

definition poll_api ::
  "'e simdjson \<Rightarrow> ('e \<Rightarrow> 'e \<Rightarrow> 'e) \<Rightarrow> cycle \<Rightarrow> ConfigManager \<Rightarrow> files \<Rightarrow> stdexc + files" where
  "poll_api sj reread cy cm fls =
     (if api_url cm \<noteq> []
      then (case fst (fetch_config_from_api (cy_curl cy)) of
              None \<Rightarrow> Inr fls
            | Some body \<Rightarrow>
                rbind (update_local_config_from_api sj reread (cy_fs cy) (config_path cm) body fls)
                  (\<lambda>(_, ops). Inr (fold apply_fs_op ops fls)))
      else Inr fls)"

definition reload_cycle ::
  "'e simdjson \<Rightarrow> ('e \<Rightarrow> 'e \<Rightarrow> 'e) \<Rightarrow> cycle \<Rightarrow> ConfigManager \<Rightarrow> files
     \<Rightarrow> stdexc + (ConfigManager \<times> files \<times> GlobalConfig list)" where
  "reload_cycle sj reread cy cm fls =
     rbind (poll_api sj reread cy cm fls) (\<lambda>fls1.
       (case parse_config_json cm sj fls1 default_global of
          (parsed, new_config) \<Rightarrow>
            if \<not> parsed then Inr (cm, fls1, [])
            else if \<not> global_eq (current_config cm) new_config
            then Inr (cm\<lparr>current_config := new_config\<rparr>, fls1,
                      if cm_has_callback cm then [new_config] else [])
            else Inr (cm, fls1, [])))"

text \<open>
  The loop over the iterations that the thread performs; the files may be changed by others
  before each iteration (\<open>edit\<close>). The result collects the configurations handed to the callback.
\<close>

fun reloader_loop ::
  "'e simdjson \<Rightarrow> ('e \<Rightarrow> 'e \<Rightarrow> 'e) \<Rightarrow> (cycle \<times> (files \<Rightarrow> files)) list \<Rightarrow> ConfigManager \<Rightarrow> files
     \<Rightarrow> stdexc + (ConfigManager \<times> files \<times> GlobalConfig list)" where
  "reloader_loop sj reread [] cm fls = Inr (cm, fls, [])"
| "reloader_loop sj reread ((cy, edit) # cys) cm fls =
     (if stop_before cy then Inr (cm, fls, [])
      else if stop_after_wait cy then Inr (cm, fls, [])
      else rbind (reload_cycle sj reread cy cm (edit fls)) (\<lambda>(cm1, fls1, cbs).
           rbind (reloader_loop sj reread cys cm1 fls1) (\<lambda>(cm2, fls2, cbs').
             Inr (cm2, fls2, cbs @ cbs'))))"

section \<open>Properties of the merge\<close>

lemmas merge_defs = update_local_config_from_api_def Let_def

lemma temp_neq [simp]: "path @ ''.tmp'' \<noteq> path" "path \<noteq> path @ ''.tmp''"
  by simp_all

lemma appends_other: "p \<noteq> temp \<Longrightarrow> fold apply_fs_op (map (Append temp) cs) fls p = fls p"
  by (induction cs arbitrary: fls) simp_all

lemma appends_temp:
  "fls temp = Some s \<Longrightarrow> fold apply_fs_op (map (Append temp) cs) fls temp = Some (s @ cs)"
  by (induction cs arbitrary: fls s) simp_all

lemma written_prefix:
  "p \<noteq> temp \<Longrightarrow> fold apply_fs_op (take n (OpenTrunc temp # map (Append temp) cs)) fls p = fls p"
  by (cases n) (simp_all add: take_map appends_other)

text \<open>Before the last operation the file is as it was; a successful write ends with the rename.\<close>

lemma write_file_states:
  assumes "write_file fsc path content = (ok, ops)"
  shows "fold apply_fs_op (take n ops) fls path
      = (if ok \<and> length ops \<le> n then Some (stored fsc content) else fls path)"
    and "p \<noteq> path \<Longrightarrow> p \<noteq> path @ ''.tmp'' \<Longrightarrow> fold apply_fs_op (take n ops) fls p = fls p"
    and "ok \<Longrightarrow> fold apply_fs_op ops fls (path @ ''.tmp'') = None"
    and "ops \<noteq> [] \<longleftrightarrow> tmp_opens fsc" and "ok \<longleftrightarrow> tmp_opens fsc \<and> rename_ok fsc"
proof -
  let ?t = "path @ ''.tmp''"
  let ?w = "OpenTrunc ?t # map (Append ?t) (stored fsc content)"
  define m where "m = n - length ?w"
  have full: "fold apply_fs_op ?w fls ?t = Some (stored fsc content)"
    by (simp add: appends_temp)
  have other: "fold apply_fs_op (take n ?w) fls p = fls p" if "p \<noteq> ?t" for p
    using that by (rule written_prefix)
  have all: "fold apply_fs_op ?w fls p = fls p" if "p \<noteq> ?t" for p
    using other [OF that] that by (simp add: appends_other)
  consider (closed) "\<not> tmp_opens fsc" "ok = False" "ops = []"
    | (renamed) "tmp_opens fsc" "rename_ok fsc" "ok = True" "ops = ?w @ [Rename ?t path]"
    | (kept) "tmp_opens fsc" "\<not> rename_ok fsc" "ok = False" "ops = ?w @ [Unlink ?t] \<or> ops = ?w"
    using assms by (auto simp: write_file_def Let_def split: if_splits)
  note cs = this
  show "ops \<noteq> [] \<longleftrightarrow> tmp_opens fsc" "ok \<longleftrightarrow> tmp_opens fsc \<and> rename_ok fsc"
    by (cases rule: cs; auto)+
  show "ok \<Longrightarrow> fold apply_fs_op ops fls ?t = None"
    by (cases rule: cs) simp_all
  have split: "fold apply_fs_op (take n (?w @ [a])) fls
      = (if n \<le> length ?w then fold apply_fs_op (take n ?w) fls else apply_fs_op a (fold apply_fs_op ?w fls))"
    for a by (auto simp: take_Cons')
  show "fold apply_fs_op (take n ops) fls path
      = (if ok \<and> length ops \<le> n then Some (stored fsc content) else fls path)"
    by (cases rule: cs) (use other all full split in \<open>auto simp del: fold_simps take_Cons_numeral\<close>)
  show "p \<noteq> path \<Longrightarrow> p \<noteq> ?t \<Longrightarrow> fold apply_fs_op (take n ops) fls p = fls p"
    by (cases rule: cs) (use other all split in \<open>auto simp del: fold_simps\<close>)
qed

definition sample_doc :: "int \<Rightarrow> json" where
  "sample_doc i = JObject [(''global_settings'', JObject [(''log_level'', JString ''WARN'')]),
     (''streams'', JArray [JObject [(''id'', JInt i), (''url'', JString ''rtsp://a'')]])]"

definition sample_parser :: "string \<Rightarrow> sj_error + json" where
  "sample_parser s = (if s = ''api'' then Inr (sample_doc 2)
     else if s = ''local'' then Inr (sample_doc 1)
     else if s = ''bare'' then Inr (JObject [(''streams'', JArray [])]) else Inl 3)"

definition sample_fs :: fs_calls where
  "sample_fs = \<lparr>tmp_opens = True, stored = id, rename_ok = True, remove_ok = True\<rparr>"

lemma sample_parser_simps [simp]:
  "sample_parser ''api'' = Inr (sample_doc 2)" "sample_parser ''local'' = Inr (sample_doc 1)"
  "sample_parser ''bare'' = Inr (JObject [(''streams'', JArray [])])"
  by (simp_all add: sample_parser_def)

lemma sample_doc_keys [simp]:
  "json_at_key (sample_doc i) ''global_settings'' = Inr (JObject [(''log_level'', JString ''WARN'')])"
  "json_at_key (sample_doc i) ''streams'' =
     Inr (JArray [JObject [(''id'', JInt i), (''url'', JString ''rtsp://a'')]])"
  by (simp_all add: sample_doc_def)

lemma sample_fs_simps [simp]:
  "tmp_opens sample_fs" "stored sample_fs = id" "rename_ok sample_fs" "remove_ok sample_fs"
  by (simp_all add: sample_fs_def)

lemma merge_result:
  assumes "update_local_config_from_api sj reread fsc path s fls = Inr (ok, ops)" and "ops \<noteq> []"
  obtains a l g t where "parse sj s = Inr a" "load_json sj fls path = Inr l"
    "at_key sj l ''global_settings'' = Inr g" "at_key sj l ''streams'' = Inr t"
    "\<exists>v. at_key sj (reread a l) ''global_settings'' = Inr v \<or> at_key sj (reread a l) ''streams'' = Inr v"
    "write_file fsc path (merged_content sj (get_or (at_key sj (reread a l) ''global_settings'') g)
        (get_or (at_key sj (reread a l) ''streams'') t)) = (ok, ops)"
proof -
  obtain a l g t where d: "parse sj s = Inr a" "load_json sj fls path = Inr l"
    "at_key sj l ''global_settings'' = Inr g" "at_key sj l ''streams'' = Inr t"
    using assms by (auto simp: merge_defs split: sum.splits)
  show thesis
    by (rule that [OF d]; cases "at_key sj (reread a l) ''global_settings''";
        cases "at_key sj (reread a l) ''streams''")
      (use assms d in \<open>auto simp: merge_defs\<close>)
qed

text \<open>
  C32: merging is atomic for readers of the configuration file, if the write of the text is
  complete. After every prefix of the file operations the file at the path has its old contents
  until the last operation, the rename, after which it is exactly the merged text: each section
  from the API's element when that has it, otherwise the local one. No file besides it and its
  temporary sibling is touched, and the sibling is gone after a success. Operations are performed
  exactly when both documents parse, the API's element has a section and the temporary file opens;
  they end in success exactly when the rename succeeds.
\<close>

theorem merge_atomic:
  assumes "update_local_config_from_api sj reread fsc path s fls = Inr (ok, ops)"
    and "\<forall>text. stored fsc text = text"
  shows "(\<forall>a l g t. parse sj s = Inr a \<longrightarrow> load_json sj fls path = Inr l
        \<longrightarrow> at_key sj l ''global_settings'' = Inr g \<longrightarrow> at_key sj l ''streams'' = Inr t
        \<longrightarrow> (\<forall>n. fold apply_fs_op (take n ops) fls path
              = (if ok \<and> ops \<noteq> [] \<and> length ops \<le> n
                 then Some (merged_content sj (get_or (at_key sj (reread a l) ''global_settings'') g)
                                              (get_or (at_key sj (reread a l) ''streams'') t))
                 else fls path)))
    \<and> (\<forall>n p. p \<noteq> path \<longrightarrow> p \<noteq> path @ ''.tmp'' \<longrightarrow> fold apply_fs_op (take n ops) fls p = fls p)
    \<and> (ok \<and> ops \<noteq> [] \<longrightarrow> fold apply_fs_op ops fls (path @ ''.tmp'') = None)
    \<and> (ops \<noteq> [] \<longleftrightarrow> tmp_opens fsc \<and> (\<exists>a l. parse sj s = Inr a \<and> load_json sj fls path = Inr l
          \<and> (\<exists>v. at_key sj (reread a l) ''global_settings'' = Inr v \<or> at_key sj (reread a l) ''streams'' = Inr v)))
    \<and> (ops \<noteq> [] \<longrightarrow> (ok \<longleftrightarrow> rename_ok fsc))"
proof (cases "ops = []")
  case True
  then show ?thesis using assms by (auto simp: merge_defs write_file_def split: sum.splits if_splits)
next
  case False
  obtain a l g t where d: "parse sj s = Inr a" "load_json sj fls path = Inr l"
    "at_key sj l ''global_settings'' = Inr g" "at_key sj l ''streams'' = Inr t"
    "\<exists>v. at_key sj (reread a l) ''global_settings'' = Inr v \<or> at_key sj (reread a l) ''streams'' = Inr v"
    and w: "write_file fsc path (merged_content sj (get_or (at_key sj (reread a l) ''global_settings'') g)
        (get_or (at_key sj (reread a l) ''streams'') t)) = (ok, ops)"
    using merge_result [OF assms(1) False] by metis
  note states = write_file_states [OF w]
  show ?thesis
    using states(1,2) states(3-5) d assms(2) False by simp
qed

definition merged_sample :: string where
  "merged_sample = merged_content (json_lib sample_parser)
     (JObject [(''log_level'', JString ''WARN'')])
     (JArray [JObject [(''id'', JInt 2), (''url'', JString ''rtsp://a'')]])"

theorem merge_atomic_witness:
  "\<exists>ops. update_local_config_from_api (json_lib sample_parser) (\<lambda>a l. a) sample_fs ''c'' ''api''
       [''c'' \<mapsto> ''local'', ''d'' \<mapsto> ''x''] = Inr (True, ops)
     \<and> fold apply_fs_op (take (length ops - 1) ops) [''c'' \<mapsto> ''local'', ''d'' \<mapsto> ''x''] ''c'' = Some ''local''
     \<and> fold apply_fs_op (take (length ops) ops) [''c'' \<mapsto> ''local'', ''d'' \<mapsto> ''x''] ''c'' = Some merged_sample
     \<and> fold apply_fs_op (take (length ops) ops) [''c'' \<mapsto> ''local'', ''d'' \<mapsto> ''x''] ''d'' = Some ''x''"
proof -
  let ?f = "[''c'' \<mapsto> ''local'', ''d'' \<mapsto> ''x'']"
  obtain ops where u: "update_local_config_from_api (json_lib sample_parser) (\<lambda>a l. a) sample_fs
      ''c'' ''api'' ?f = Inr (True, ops)"
    by (simp add: merge_defs load_json_def write_file_def)
  then have "ops \<noteq> []" by (auto simp: merge_defs load_json_def write_file_def)
  moreover have "\<forall>text. stored sample_fs text = text" by simp
  moreover have "parse (json_lib sample_parser) ''api'' = Inr (sample_doc 2)"
    "load_json (json_lib sample_parser) ?f ''c'' = Inr (sample_doc 1)"
    "at_key (json_lib sample_parser) (sample_doc 1) ''global_settings''
      = Inr (JObject [(''log_level'', JString ''WARN'')])"
    "at_key (json_lib sample_parser) (sample_doc 1) ''streams''
      = Inr (JArray [JObject [(''id'', JInt 1), (''url'', JString ''rtsp://a'')]])"
    by (simp_all add: load_json_def)
  ultimately have "fold apply_fs_op (take n ops) ?f ''c''
      = (if length ops \<le> n then Some merged_sample else Some ''local'')"
    and "fold apply_fs_op (take n ops) ?f ''d'' = Some ''x''" for n
    using merge_atomic [OF u] by (simp_all add: merged_sample_def)
  moreover have "\<not> length ops \<le> length ops - 1" using \<open>ops \<noteq> []\<close> by (cases ops) simp_all
  ultimately show ?thesis using u by (intro exI [of _ ops]) (simp del: take_all)
qed

text \<open>
  C38: a local file without \<open>global_settings\<close> is accepted by the parser of the configuration
  but makes the merge of any parsable API response raise an exception, which leaves the
  reloader thread: the cycle ends the process.
\<close>

theorem missing_settings_kill_reloader:
  assumes "load_json sj fls (config_path cm) = Inr l" and "at_key sj l ''global_settings'' = Inl e"
    and "at_key sj l ''streams'' = Inr st" and "get_array sj st = Inr es"
    and "api_url cm \<noteq> []" and "fst (fetch_config_from_api (cy_curl cy)) = Some body"
    and "parse sj body = Inr a"
  shows "fst (parse_config_json cm sj fls default_global)
    \<and> reload_cycle sj reread cy cm fls = Inl SimdjsonError"
  using assms
  by (simp add: parse_config_json_def reload_cycle_def poll_api_def merge_defs)

theorem missing_settings_kill_reloader_witness:
  "reload_cycle (json_lib sample_parser) (\<lambda>a l. l)
      \<lparr>stop_before = False, stop_after_wait = False,
       cy_curl = \<lparr>curl_init = Some 1, chunks = [(''api'', 1, 3)], curl_code = 0, http_code = 200\<rparr>,
       cy_fs = sample_fs\<rparr>
      (ConfigManager.ConfigManager.make ''c'' ''http://x'' 60 default_global 0 1 0 {} False True) [''c'' \<mapsto> ''bare'']
   = Inl SimdjsonError"
  using missing_settings_kill_reloader [of "json_lib sample_parser" "[''c'' \<mapsto> ''bare'']"
      "ConfigManager.ConfigManager.make ''c'' ''http://x'' 60 default_global 0 1 0 {} False True"
      "JObject [(''streams'', JArray [])]" 19 "JArray []" "[]"
      "\<lparr>stop_before = False, stop_after_wait = False,
       cy_curl = \<lparr>curl_init = Some 1, chunks = [(''api'', 1, 3)], curl_code = 0, http_code = 200\<rparr>,
       cy_fs = sample_fs\<rparr>" "''api''" "sample_doc 2" "\<lambda>a l. l"]
  by (simp add: ConfigManager.ConfigManager.make_def load_json_def fetch_config_from_api_def curl_ctor_def
      curl_get_def Let_def receive_body_def write_callback_def size_mul_def)

section \<open>Properties of the reloader\<close>

text \<open>What a cycle may change: the current configuration and nothing else of the manager.\<close>

lemma reload_cycle_result:
  assumes "reload_cycle sj reread cy cm fls = Inr (cm1, fls1, cbs)"
  shows "cm1 = cm \<and> cbs = []
    \<or> (\<exists>c. cm1 = cm\<lparr>current_config := c\<rparr> \<and> cbs = (if cm_has_callback cm then [c] else [])
         \<and> \<not> global_eq (current_config cm) c \<and> list_all (passes_filters cm) (stream_configs c))"
proof -
  obtain fls2 where f: "poll_api sj reread cy cm fls = Inr fls2"
    using assms by (cases "poll_api sj reread cy cm fls") (auto simp: reload_cycle_def)
  obtain ok c where c: "parse_config_json cm sj fls2 default_global = (ok, c)" by fastforce
  show ?thesis
  proof (cases "ok \<and> \<not> global_eq (current_config cm) c")
    case True
    with c have "list_all (passes_filters cm) (stream_configs c)"
      by (simp add: parse_config_json_filters)
    with True assms f c show ?thesis by (auto simp: reload_cycle_def)
  next
    case False
    with assms f c show ?thesis by (auto simp: reload_cycle_def split: if_splits)
  qed
qed

text \<open>Without an API the reloader never raises.\<close>

lemma reload_cycle_no_api:
  assumes "api_url cm = []"
  obtains cm1 fls1 cbs where "reload_cycle sj reread cy cm fls = Inr (cm1, fls1, cbs)"
    and "api_url cm1 = []"
proof (cases "reload_cycle sj reread cy cm fls")
  case (Inl e)
  with assms show ?thesis
    by (auto simp: reload_cycle_def poll_api_def split: prod.splits if_splits)
next
  case (Inr r)
  obtain cm1 fls1 cbs where r: "r = (cm1, fls1, cbs)" by (cases r)
  from reload_cycle_result [OF Inr [unfolded r]] assms have "api_url cm1 = []" by auto
  with Inr r show ?thesis using that by blast
qed

lemma reloader_loop_no_api:
  "api_url cm = [] \<Longrightarrow> \<exists>r. reloader_loop sj reread cys cm fls = Inr r"
proof (induction cys arbitrary: cm fls)
  case Nil
  then show ?case by simp
next
  case (Cons p cys)
  obtain cy edit where p: "p = (cy, edit)" by (cases p)
  from reload_cycle_no_api [OF Cons.prems, of sj reread cy "edit fls"]
  obtain cm1 fls1 cbs where c: "reload_cycle sj reread cy cm (edit fls) = Inr (cm1, fls1, cbs)"
    and a: "api_url cm1 = []" by blast
  obtain r where "reloader_loop sj reread cys cm1 fls1 = Inr r" using Cons.IH [OF a] by blast
  with c p show ?case by (cases r) simp
qed

lemma passes_filters_current [simp]:
  "passes_filters (cm\<lparr>current_config := c\<rparr>) = passes_filters cm"
  by (simp add: fun_eq_iff passes_filters_def is_stream_whitelisted_def owns_stream_def)

lemma reloader_run:
  "reloader_loop sj reread cys cm fls = Inr (cm', fls', cbs) \<Longrightarrow> cm_has_callback cm \<Longrightarrow>
   successively (\<lambda>a b. \<not> global_eq a b) (current_config cm # cbs)
   \<and> last (current_config cm # cbs) = current_config cm'
   \<and> list_all (\<lambda>c. list_all (passes_filters cm) (stream_configs c)) cbs"
proof (induction cys arbitrary: cm fls cbs)
  case Nil
  then show ?case by simp
next
  case (Cons p cys)
  obtain cy edit where p: "p = (cy, edit)" by (cases p)
  show ?case
  proof (cases "stop_before cy \<or> stop_after_wait cy")
    case True
    with Cons.prems p show ?thesis by (auto split: if_splits)
  next
    case False
    with Cons.prems(1) p obtain cm1 fls1 cbs1 cbs2 where
      c: "reload_cycle sj reread cy cm (edit fls) = Inr (cm1, fls1, cbs1)"
      and r: "reloader_loop sj reread cys cm1 fls1 = Inr (cm', fls', cbs2)"
      and cbs: "cbs = cbs1 @ cbs2"
      by (auto simp: rbind_Inr_iff)
    from reload_cycle_result [OF c] show ?thesis
    proof (elim disjE exE conjE)
      assume "cm1 = cm" "cbs1 = []"
      with Cons.IH [of cm fls1 cbs2] r Cons.prems(2) cbs show ?thesis by simp
    next
      fix g
      assume g: "cm1 = cm\<lparr>current_config := g\<rparr>"
        "cbs1 = (if cm_has_callback cm then [g] else [])"
        "\<not> global_eq (current_config cm) g" "list_all (passes_filters cm) (stream_configs g)"
      with Cons.IH [of cm1 fls1 cbs2] r Cons.prems(2) cbs show ?thesis by simp
    qed
  qed
qed

text \<open>
  What the cycles of a run are to notify, without the reloader's own comparison: the files each of
  them reads, and of a sequence of configurations those that differ from the one before.
\<close>

fun read_files ::
  "'e simdjson \<Rightarrow> ('e \<Rightarrow> 'e \<Rightarrow> 'e) \<Rightarrow> ConfigManager \<Rightarrow> (cycle \<times> (files \<Rightarrow> files)) list \<Rightarrow> files \<Rightarrow> files list"
where
  "read_files sj reread cm [] fls = []"
| "read_files sj reread cm ((cy, edit) # cys) fls =
     (if stop_before cy \<or> stop_after_wait cy then []
      else (case poll_api sj reread cy cm (edit fls) of
              Inl _ \<Rightarrow> [] | Inr fls1 \<Rightarrow> fls1 # read_files sj reread cm cys fls1))"

fun changes :: "GlobalConfig \<Rightarrow> GlobalConfig list \<Rightarrow> GlobalConfig list" where
  "changes current [] = []"
| "changes current (g # gs) = (if global_eq current g then changes current gs else g # changes g gs)"

lemma poll_api_current [simp]: "poll_api sj reread cy (cm\<lparr>current_config := g\<rparr>) fls = poll_api sj reread cy cm fls"
  by (simp add: poll_api_def cong: option.case_cong)

lemma read_files_current [simp]:
  "read_files sj reread (cm\<lparr>current_config := g\<rparr>) cys fls = read_files sj reread cm cys fls"
  by (induction cys arbitrary: fls) (auto split: sum.splits)

abbreviation parsed_configs :: "'e simdjson \<Rightarrow> ConfigManager \<Rightarrow> files list \<Rightarrow> GlobalConfig list" where
  "parsed_configs sj cm fs \<equiv> map snd (filter fst (map (\<lambda>f. parse_config_json cm sj f default_global) fs))"

lemma reloader_changes:
  "reloader_loop sj reread cys cm fls = Inr (cm', fls', cbs) \<Longrightarrow> cm_has_callback cm \<Longrightarrow>
   cbs = changes (current_config cm) (parsed_configs sj cm (read_files sj reread cm cys fls))
   \<and> cm' = cm\<lparr>current_config := last (current_config cm # cbs)\<rparr>
   \<and> fls' = last (fls # read_files sj reread cm cys fls)"
proof (induction cys arbitrary: cm fls cbs)
  case Nil
  then show ?case by simp
next
  case (Cons p cys)
  obtain cy edit where p: "p = (cy, edit)" by (cases p)
  show ?case
  proof (cases "stop_before cy \<or> stop_after_wait cy")
    case True
    with Cons.prems p show ?thesis by (auto split: if_splits)
  next
    case False
    with Cons.prems(1) p obtain cm1 fls1 cbs1 cbs2 where
      c: "reload_cycle sj reread cy cm (edit fls) = Inr (cm1, fls1, cbs1)"
      and r: "reloader_loop sj reread cys cm1 fls1 = Inr (cm', fls', cbs2)"
      and cbs: "cbs = cbs1 @ cbs2"
      by (auto simp: rbind_Inr_iff)
    obtain ok g where g: "parse_config_json cm sj fls1 default_global = (ok, g)" by fastforce
    have poll: "poll_api sj reread cy cm (edit fls) = Inr fls1"
      using c by (cases "poll_api sj reread cy cm (edit fls)")
        (auto simp: reload_cycle_def split: prod.split_asm if_split_asm)
    show ?thesis
    proof (cases "ok \<and> \<not> global_eq (current_config cm) g")
      case True
      then have "cm1 = cm\<lparr>current_config := g\<rparr>" "cbs1 = [g]"
        using c g poll Cons.prems(2) by (auto simp: reload_cycle_def)
      with Cons.IH [of cm1 fls1 cbs2] r Cons.prems(2) True g poll p \<open>\<not> (stop_before cy \<or> stop_after_wait cy)\<close>
      show ?thesis by (simp add: cbs)
    next
      case False
      then have "cm1 = cm" "cbs1 = []"
        using c g poll by (auto simp: reload_cycle_def split: if_splits)
      with Cons.IH [of cm1 fls1 cbs2] r Cons.prems(2) False g poll p \<open>\<not> (stop_before cy \<or> stop_after_wait cy)\<close>
      show ?thesis by (auto simp: cbs)
    qed
  qed
qed

text \<open>
  C33: over any number of cycles without an exception, the callback is invoked exactly on the
  changes: its configurations are those parsed from the files the cycles read, in order, without
  the files that do not parse and without each configuration that equals (by the program's
  equality) the one current before it. The manager's current configuration is the last one it
  was given, or the initial one; nothing else of the manager changes; and every stream it is given
  passed the whitelist, ownership and URL filters.
\<close>

theorem reloader_notifications:
  assumes "reloader_loop sj reread cys cm fls = Inr (cm', fls', cbs)" and "cm_has_callback cm"
  shows "cbs = changes (current_config cm) (map snd (filter fst
        (map (\<lambda>f. parse_config_json cm sj f default_global) (read_files sj reread cm cys fls))))
    \<and> cm' = cm\<lparr>current_config := last (current_config cm # cbs)\<rparr>
    \<and> fls' = last (fls # read_files sj reread cm cys fls)
    \<and> list_all (\<lambda>c. list_all (\<lambda>s. is_stream_whitelisted cm (st_id s) \<and> owns_stream cm (st_id s)
                                  \<and> url s \<noteq> []) (stream_configs c)) cbs"
  using reloader_changes [OF assms] reloader_run [OF assms] by (simp add: passes_filters_def [abs_def])

definition quiet_cycle :: cycle where
  "quiet_cycle =
     \<lparr>stop_before = False, stop_after_wait = False,
      cy_curl = \<lparr>curl_init = None, chunks = [], curl_code = 0, http_code = 200\<rparr>, cy_fs = sample_fs\<rparr>"

definition quiet_manager :: ConfigManager where
  "quiet_manager = ConfigManager.ConfigManager.make ''c'' [] 60 default_global 0 1 0 {} False True"

text \<open>Two cycles over a changed file, then one over a file that does not parse.\<close>

theorem reloader_notifications_witness:
  "\<exists>cm' fls' g. reloader_loop (json_lib sample_parser) (\<lambda>a l. l)
      [(quiet_cycle, id), (quiet_cycle, id), (quiet_cycle, \<lambda>_. Map.empty)]
      quiet_manager [''c'' \<mapsto> ''local''] = Inr (cm', fls', [g])
    \<and> map st_id (stream_configs g) = [1] \<and> current_config cm' = g"
proof -
  let ?cys = "[(quiet_cycle, id), (quiet_cycle, id), (quiet_cycle, \<lambda>_. Map.empty)]"
  obtain g where g: "parse_config_json quiet_manager (json_lib sample_parser) [''c'' \<mapsto> ''local''] default_global
      = (True, g)" "map st_id (stream_configs g) = [1]" "log_level_str g = ''WARN''"
  proof -
    have "(case parse_config_json quiet_manager (json_lib sample_parser) [''c'' \<mapsto> ''local''] default_global of
        (ok, g) \<Rightarrow> ok \<and> map st_id (stream_configs g) = [1] \<and> log_level_str g = ''WARN'')"
      by code_simp
    then show thesis using that by (auto split: prod.splits)
  qed
  have none: "parse_config_json quiet_manager (json_lib sample_parser) Map.empty default_global
      = (False, default_global)"
    by (simp add: parse_config_json_def load_json_def)
  have m: "api_url quiet_manager = []" "cm_has_callback quiet_manager"
    "current_config quiet_manager = default_global"
    by (simp_all add: quiet_manager_def ConfigManager.ConfigManager.make_def)
  obtain cm' fls' cbs where r: "reloader_loop (json_lib sample_parser) (\<lambda>a l. l) ?cys quiet_manager
      [''c'' \<mapsto> ''local''] = Inr (cm', fls', cbs)"
    using reloader_loop_no_api [OF m(1), of "json_lib sample_parser" "\<lambda>a l. l" ?cys "[''c'' \<mapsto> ''local'']"]
    by (auto simp del: reloader_loop.simps)
  have "read_files (json_lib sample_parser) (\<lambda>a l. l) quiet_manager ?cys [''c'' \<mapsto> ''local'']
      = [[''c'' \<mapsto> ''local''], [''c'' \<mapsto> ''local''], Map.empty]"
    by (simp add: quiet_cycle_def poll_api_def m)
  moreover have "\<not> global_eq default_global g" using g(3) by (simp add: global_eq_def default_global_def)
  ultimately have "cbs = [g]" "current_config cm' = g"
    using reloader_notifications [OF r m(2)] g(1) none by (simp_all add: m(3))
  with r g(2) show ?thesis by (intro exI [of _ cm'] exI [of _ fls'] exI [of _ g]) simp
qed

end
