(* ===== verification/StreamManager.thy ===== *)
theory StreamManager
  imports Types
begin

text \<open>
  The reconciliation of \<open>StreamIoManager\<close> (\<open>src/src/components/stream_io\<close>): the two maps
  keyed by \<open>int\<close>, \<open>update_streams\<close> with its three phases and \<open>stop_all\<close>. Both run under
  \<open>manager_mutex_\<close> and are single steps. A thread object remembers the configuration its
  lambda captured and whether its function has returned. Stopping and starting threads are
  recorded as actions; \<open>std::map::at\<close> on a missing key is the exception \<open>OutOfRange\<close>.
\<close>

section \<open>State and operations\<close>

record io_thread =
  th_config :: StreamConfig
  th_running :: bool

record StreamIoManager =
  stream_threads :: "(int, io_thread) smap"
  active_stream_configs :: "(int, StreamConfig) smap"

datatype io_action = StopThread int | StartThread StreamConfig

text \<open>The conversion of a \<open>long long\<close> id to the \<open>int\<close> key of the two maps.\<close>

abbreviation key_of :: "StreamConfig \<Rightarrow> int" where
  "key_of cfg \<equiv> narrow 32 (st_id cfg)"

definition desired_configs :: "StreamConfig list \<Rightarrow> (int, StreamConfig) smap" where
  "desired_configs new_configs =
     fold (\<lambda>cfg m. if enabled cfg then smap_insert (st_id cfg) cfg m else m) new_configs []"

fun collect_stop ::
  "(int, StreamConfig) smap \<Rightarrow> (int, StreamConfig) smap \<Rightarrow> (int \<times> io_thread) list
     \<Rightarrow> stdexc + int list" where
  "collect_stop desired active [] = Inr []"
| "collect_stop desired active ((sid, t) # ths) =
     rbind (case map_of desired sid of
              None \<Rightarrow> Inr True
            | Some d \<Rightarrow> (case map_of active sid of
                           None \<Rightarrow> Inl OutOfRange
                         | Some a \<Rightarrow> Inr (\<not> stream_eq d a)))
       (\<lambda>stop. rbind (collect_stop desired active ths)
          (\<lambda>ids. Inr (if stop then sid # ids else ids)))"

definition collect_start ::
  "(int, StreamConfig) smap \<Rightarrow> (int, io_thread) smap \<Rightarrow> StreamConfig list" where
  "collect_start desired threads =
     map snd (filter (\<lambda>(sid, cfg). map_of threads (narrow 32 sid) = None) desired)"

fun stop_threads :: "int list \<Rightarrow> StreamIoManager \<Rightarrow> stdexc + (StreamIoManager \<times> io_action list)"
where
  "stop_threads [] m = Inr (m, [])"
| "stop_threads (sid # ids) m =
     (case map_of (stream_threads m) sid of
        None \<Rightarrow> Inl OutOfRange
      | Some _ \<Rightarrow>
          rbind (stop_threads ids
                   (m\<lparr>stream_threads := smap_erase sid (stream_threads m),
                      active_stream_configs := smap_erase sid (active_stream_configs m)\<rparr>))
            (\<lambda>(m', acts). Inr (m', StopThread sid # acts)))"

text \<open>
  Assigning to \<open>stream_threads_[id]\<close> first starts the new thread and then, when the key is
  already present, stops the thread that the assignment replaces.
\<close>

fun start_threads :: "StreamConfig list \<Rightarrow> StreamIoManager \<Rightarrow> StreamIoManager \<times> io_action list" where
  "start_threads [] m = (m, [])"
| "start_threads (cfg # cfgs) m =
     (let k = key_of cfg;
          m1 = m\<lparr>active_stream_configs := smap_insert k cfg (active_stream_configs m),
                 stream_threads :=
                   smap_insert k \<lparr>th_config = cfg, th_running = True\<rparr> (stream_threads m)\<rparr>;
          acts1 = StartThread cfg #
            (if map_of (stream_threads m) k \<noteq> None then [StopThread k] else [])
      in case start_threads cfgs m1 of (m2, acts2) \<Rightarrow> (m2, acts1 @ acts2))"

definition update_streams ::
  "StreamConfig list \<Rightarrow> StreamIoManager \<Rightarrow> stdexc + (StreamIoManager \<times> io_action list)" where
  "update_streams new_configs m =
     (let desired = desired_configs new_configs in
      rbind (collect_stop desired (active_stream_configs m) (stream_threads m)) (\<lambda>to_stop.
        let to_start = collect_start desired (stream_threads m) in
        rbind (stop_threads to_stop m) (\<lambda>(m1, acts1).
          case start_threads to_start m1 of (m2, acts2) \<Rightarrow> Inr (m2, acts1 @ acts2))))"

definition stop_all :: "StreamIoManager \<Rightarrow> StreamIoManager \<times> io_action list" where
  "stop_all m =
     (if stream_threads m = [] then (m, [])
      else (m\<lparr>stream_threads := [], active_stream_configs := []\<rparr>,
            map (\<lambda>(sid, _). StopThread sid) (stream_threads m)))"

text \<open>The thread function of a stream returns (a fatal setup error): the map keeps the thread.\<close>

definition thread_returns :: "int \<Rightarrow> StreamIoManager \<Rightarrow> StreamIoManager" where
  "thread_returns k m =
     m\<lparr>stream_threads :=
         map (\<lambda>(sid, t). (sid, if sid = k then t\<lparr>th_running := False\<rparr> else t)) (stream_threads m)\<rparr>"

section \<open>The invariant\<close>

definition manager_inv :: "StreamIoManager \<Rightarrow> bool" where
  "manager_inv m \<longleftrightarrow> smap_inv (stream_threads m) \<and> smap_inv (active_stream_configs m)
     \<and> (\<forall>k. map_option th_config (map_of (stream_threads m) k) = map_of (active_stream_configs m) k)
     \<and> (\<forall>k c. map_of (active_stream_configs m) k = Some c \<longrightarrow> key_of c = k \<and> enabled c)"

definition new_manager :: StreamIoManager where
  "new_manager = \<lparr>stream_threads = [], active_stream_configs = []\<rparr>"

lemma manager_inv_new [simp]: "manager_inv new_manager"
  by (simp add: manager_inv_def new_manager_def)

lemma thread_None_iff:
  "manager_inv m \<Longrightarrow> map_of (stream_threads m) k = None \<longleftrightarrow> map_of (active_stream_configs m) k = None"
  by (metis manager_inv_def map_option_is_None)

lemma narrow_narrow [simp]: "narrow 32 (narrow 32 i) = narrow 32 i"
proof -
  have "- (2 ^ 31) \<le> narrow 32 i" "narrow 32 i < 2 ^ 31"
    using narrow_range [of 32 i] by simp_all
  then show ?thesis by simp
qed

lemma desired_configs_snoc:
  "desired_configs (cfgs @ [c]) =
     (if enabled c then smap_insert (st_id c) c (desired_configs cfgs) else desired_configs cfgs)"
  by (simp add: desired_configs_def)

lemma desired_configs_inv:
  "smap_inv (desired_configs cfgs) \<and>
   (\<forall>k c. map_of (desired_configs cfgs) k = Some c \<longrightarrow> st_id c = k \<and> enabled c \<and> c \<in> set cfgs)"
proof (induction cfgs rule: rev_induct)
  case Nil
  then show ?case by (simp add: desired_configs_def)
next
  case (snoc c cfgs)
  then show ?case
    by (auto simp: desired_configs_snoc smap_inv_insert smap_find_insert split: if_splits)
qed

lemma smap_inv_desired [simp]: "smap_inv (desired_configs cfgs)"
  using desired_configs_inv by blast

lemma desired_configs_key: "map_of (desired_configs cfgs) k = Some c \<Longrightarrow> st_id c = k \<and> enabled c"
  using desired_configs_inv by blast

text \<open>The last enabled entry of an id is the desired configuration of that id.\<close>

fun last_option :: "'a list \<Rightarrow> 'a option" where
  "last_option [] = None"
| "last_option (x # xs) = Some (last (x # xs))"

lemma last_option_snoc [simp]: "last_option (xs @ [x]) = Some x"
  by (cases xs) auto

lemma last_option_None [simp]: "last_option xs = None \<longleftrightarrow> xs = []"
  by (cases xs) auto

lemma last_option_mem: "last_option xs = Some x \<Longrightarrow> x \<in> set xs"
  by (cases xs) (auto split: if_splits)

lemma desired_configs_last:
  "map_of (desired_configs cfgs) k = last_option (filter (\<lambda>c. enabled c \<and> st_id c = k) cfgs)"
proof (induction cfgs rule: rev_induct)
  case Nil
  then show ?case by (simp add: desired_configs_def)
next
  case (snoc c cfgs)
  then show ?case by (simp add: desired_configs_snoc smap_find_insert)
qed

definition stop_cond ::
  "(int, StreamConfig) smap \<Rightarrow> StreamIoManager \<Rightarrow> int \<Rightarrow> bool" where
  "stop_cond desired m k \<longleftrightarrow>
     (case map_of desired k of
        None \<Rightarrow> True
      | Some d \<Rightarrow> (case map_of (active_stream_configs m) k of
                     None \<Rightarrow> False | Some a \<Rightarrow> \<not> stream_eq d a))"

lemma collect_stop_filter:
  "\<forall>(k, t) \<in> set ths. map_of (active_stream_configs m) k \<noteq> None \<Longrightarrow>
   collect_stop desired (active_stream_configs m) ths = Inr (filter (stop_cond desired m) (map fst ths))"
  by (induction ths) (auto simp: stop_cond_def split: option.splits)

lemma stop_threads_erase:
  "distinct ids \<Longrightarrow> \<forall>k \<in> set ids. map_of (stream_threads m) k \<noteq> None \<Longrightarrow>
   stop_threads ids m =
     Inr (m\<lparr>stream_threads := fold smap_erase ids (stream_threads m),
            active_stream_configs := fold smap_erase ids (active_stream_configs m)\<rparr>,
          map StopThread ids)"
proof (induction ids arbitrary: m)
  case Nil
  then show ?case by simp
next
  case (Cons k ids)
  let ?m = "m\<lparr>stream_threads := smap_erase k (stream_threads m),
              active_stream_configs := smap_erase k (active_stream_configs m)\<rparr>"
  have "\<forall>k' \<in> set ids. map_of (stream_threads ?m) k' \<noteq> None"
    using Cons.prems by (auto simp: smap_find_erase)
  with Cons.IH [of ?m] Cons.prems show ?case by auto
qed

lemma start_threads_fields:
  "stream_threads (fst (start_threads cfgs m)) =
     fold (\<lambda>c. smap_insert (key_of c) \<lparr>th_config = c, th_running = True\<rparr>) cfgs (stream_threads m)"
  "active_stream_configs (fst (start_threads cfgs m)) =
     fold (\<lambda>c. smap_insert (key_of c) c) cfgs (active_stream_configs m)"
  by (induction cfgs arbitrary: m) (auto simp: Let_def split_beta)

lemma start_threads_inv:
  "manager_inv m \<Longrightarrow> \<forall>c \<in> set cfgs. enabled c \<Longrightarrow> manager_inv (fst (start_threads cfgs m))"
proof (induction cfgs arbitrary: m)
  case Nil
  then show ?case by simp
next
  case (Cons c cfgs)
  let ?m = "m\<lparr>active_stream_configs := smap_insert (key_of c) c (active_stream_configs m),
              stream_threads := smap_insert (key_of c) \<lparr>th_config = c, th_running = True\<rparr>
                (stream_threads m)\<rparr>"
  have "manager_inv ?m"
    using Cons.prems by (auto simp: manager_inv_def smap_inv_insert smap_find_insert)
  from Cons.IH [OF this] Cons.prems show ?case by (simp add: Let_def split_beta)
qed

definition stopped_streams :: "int list \<Rightarrow> StreamIoManager \<Rightarrow> StreamIoManager" where
  "stopped_streams ks m = m\<lparr>stream_threads := fold smap_erase ks (stream_threads m),
     active_stream_configs := fold smap_erase ks (active_stream_configs m)\<rparr>"

lemma stopped_inv: "manager_inv m \<Longrightarrow> manager_inv (stopped_streams ks m)"
  by (auto simp: manager_inv_def stopped_streams_def smap.invar_erase_list smap.find_erase_list)

text \<open>The whole update in closed form: it never raises.\<close>

definition keys_to_stop :: "(int, StreamConfig) smap \<Rightarrow> StreamIoManager \<Rightarrow> int list" where
  "keys_to_stop d m = filter (stop_cond d m) (map fst (stream_threads m))"

lemma collect_stop_inv:
  assumes "manager_inv m"
  shows "collect_stop d (active_stream_configs m) (stream_threads m) = Inr (keys_to_stop d m)"
proof -
  have inv: "smap_inv (stream_threads m)" using assms by (simp add: manager_inv_def)
  have "\<forall>(k, t) \<in> set (stream_threads m). map_of (active_stream_configs m) k \<noteq> None"
    using thread_None_iff [OF assms] smap_in_find [OF inv]
    by (metis (mono_tags, lifting) case_prodI2 option.distinct(1))
  from collect_stop_filter [OF this, of d] show ?thesis by (simp add: keys_to_stop_def)
qed

lemma stop_threads_inv:
  assumes "manager_inv m"
  shows "stop_threads (keys_to_stop d m) m
     = Inr (stopped_streams (keys_to_stop d m) m, map StopThread (keys_to_stop d m))"
proof -
  have inv: "smap_inv (stream_threads m)" using assms by (simp add: manager_inv_def)
  have "distinct (keys_to_stop d m)" using smap_inv_distinct [OF inv] by (simp add: keys_to_stop_def)
  moreover have "\<forall>k \<in> set (keys_to_stop d m). map_of (stream_threads m) k \<noteq> None"
    by (auto simp: keys_to_stop_def map_of_eq_None_iff)
  ultimately show ?thesis using stop_threads_erase by (simp add: stopped_streams_def)
qed

lemma update_streams_closed:
  assumes "manager_inv m"
  shows "update_streams cfgs m =
    (let d = desired_configs cfgs; ks = keys_to_stop d m;
         r = start_threads (collect_start d (stream_threads m)) (stopped_streams ks m)
     in Inr (fst r, map StopThread ks @ snd r))"
  by (simp add: update_streams_def Let_def collect_stop_inv [OF assms] stop_threads_inv [OF assms]
      split: prod.splits)

lemma collect_start_set:
  "c \<in> set (collect_start d ths) \<longleftrightarrow> (\<exists>k. (k, c) \<in> set d \<and> map_of ths (narrow 32 k) = None)"
  by (force simp: collect_start_def)

lemma collect_start_enabled: "\<forall>c \<in> set (collect_start (desired_configs cfgs) ths). enabled c"
  using desired_configs_key smap_in_find [OF smap_inv_desired] by (fastforce simp: collect_start_set)

lemma update_streams_inv:
  assumes "manager_inv m" and "update_streams cfgs m = Inr (m', acts)"
  shows "manager_inv m'"
  using assms start_threads_inv [OF stopped_inv collect_start_enabled]
  by (auto simp: update_streams_closed Let_def)

section \<open>The reconciliation\<close>

inductive manager_step :: "StreamIoManager \<Rightarrow> StreamIoManager \<Rightarrow> bool" where
  Update: "update_streams cfgs m = Inr (m', acts) \<Longrightarrow> manager_step m m'"
| StopAll: "manager_step m (fst (stop_all m))"
| Returns: "manager_step m (thread_returns k m)"

inductive_cases manager_stepE: "manager_step m m'"

lemma stop_all_inv: "manager_inv m \<Longrightarrow> manager_inv (fst (stop_all m))"
  by (simp add: stop_all_def manager_inv_def) (metis map_of.simps(1) option.map_disc_iff)

lemma map_of_thread_returns:
  "map_of (stream_threads (thread_returns k m)) k'
     = map_option (\<lambda>t. if k' = k then t\<lparr>th_running := False\<rparr> else t) (map_of (stream_threads m) k')"
proof -
  have "map_of (map (\<lambda>(i, t). (i, if i = k then t\<lparr>th_running := False\<rparr> else t)) ths) k'
     = map_option (\<lambda>t. if k' = k then t\<lparr>th_running := False\<rparr> else t) (map_of ths k')" for ths
    by (induction ths) auto
  then show ?thesis by (simp add: thread_returns_def)
qed

lemma thread_returns_keys: "map fst (stream_threads (thread_returns k m)) = map fst (stream_threads m)"
  by (simp add: thread_returns_def split_beta o_def)

lemma thread_returns_active [simp]:
  "active_stream_configs (thread_returns k m) = active_stream_configs m"
  by (simp add: thread_returns_def)

lemma thread_returns_inv: "manager_inv m \<Longrightarrow> manager_inv (thread_returns k m)"
  unfolding manager_inv_def thread_returns_active smap_inv_def thread_returns_keys
    map_of_thread_returns
  by (auto simp: option.map_comp o_def if_distrib cong: if_cong)

interpretation manager_ts: transition_system "\<lambda>m. m = new_manager" manager_step manager_inv
  by unfold_locales
    (auto elim!: manager_stepE intro: update_streams_inv stop_all_inv thread_returns_inv)

text \<open>Ids that the \<open>int\<close> keys of the maps represent.\<close>

definition ids_in_range :: "StreamConfig list \<Rightarrow> bool" where
  "ids_in_range cfgs \<longleftrightarrow> (\<forall>c \<in> set cfgs. int_min \<le> st_id c \<and> st_id c \<le> int_max)"

lemma desired_key_in_range:
  "ids_in_range cfgs \<Longrightarrow> map_of (desired_configs cfgs) k = Some c \<Longrightarrow> narrow 32 k = k \<and> key_of c = k"
  using desired_configs_inv [of cfgs] narrow32_id [of k] unfolding ids_in_range_def by blast

lemma collect_start_find:
  assumes "ids_in_range cfgs"
  shows "c \<in> set (collect_start (desired_configs cfgs) ths)
     \<longleftrightarrow> map_of (desired_configs cfgs) (key_of c) = Some c \<and> map_of ths (key_of c) = None"
proof -
  have "(k, c) \<in> set (desired_configs cfgs) \<longleftrightarrow> map_of (desired_configs cfgs) k = Some c" for k
    by (rule smap_in_find [OF smap_inv_desired])
  moreover have "narrow 32 k = k \<and> key_of c = k" if "map_of (desired_configs cfgs) k = Some c" for k
    by (rule desired_key_in_range [OF assms that])
  ultimately show ?thesis
    unfolding collect_start_set by metis
qed

lemma fold_insert_start:
  fixes g :: "StreamConfig \<Rightarrow> 'v" and ths :: "(int, io_thread) smap"
  assumes "ids_in_range cfgs" and "smap_inv mp"
  defines "d \<equiv> desired_configs cfgs"
  defines "cs \<equiv> collect_start d ths"
  shows "map_of (fold (\<lambda>c. smap_insert (key_of c) (g c)) cs mp) k =
    (case map_of d k of
       Some c \<Rightarrow> if map_of ths k = None then Some (g c) else map_of mp k
     | None \<Rightarrow> map_of mp k)"
proof (cases "k \<in> key_of ` set cs")
  case False
  then have "map_of (fold (\<lambda>c. smap_insert (key_of c) (g c)) cs mp) k = map_of mp k"
    by (rule smap.find_insert_list_other [OF assms(2)])
  moreover have "map_of ths k \<noteq> None" if "map_of d k = Some c" for c
  proof
    assume none: "map_of ths k = None"
    have k: "key_of c = k" using desired_key_in_range [OF assms(1)] that by (simp add: d_def)
    then have "c \<in> set cs"
      using collect_start_find [OF assms(1), of c ths] that none by (simp add: cs_def d_def)
    with k False show False by blast
  qed
  ultimately show ?thesis by (auto split: option.splits)
next
  case True
  then have "\<exists>c \<in> set cs. key_of c = k" by blast
  then obtain xs c ys where split: "cs = xs @ c # ys" "key_of c = k" "\<forall>y \<in> set ys. key_of y \<noteq> k"
    by (rule split_list_last_propE)
  have "c \<in> set cs" using split by simp
  then have "map_of d k = Some c \<and> map_of ths k = None"
    using collect_start_find [OF assms(1), of c ths] split(2) by (simp add: cs_def d_def)
  moreover have "map_of (fold (\<lambda>c. smap_insert (key_of c) (g c)) (xs @ c # ys) mp) k = Some (g c)"
    using split(2,3) by (intro smap.find_insert_list_last [OF assms(2)]) auto
  ultimately show ?thesis using split(1) by simp
qed

definition reconciled :: "StreamConfig option \<Rightarrow> StreamConfig option \<Rightarrow> StreamConfig option" where
  "reconciled desired active =
     (case (desired, active) of
        (None, _) \<Rightarrow> None
      | (Some d, None) \<Rightarrow> Some d
      | (Some d, Some a) \<Rightarrow> if stream_eq d a then Some a else None)"


lemma map_of_stopped:
  "map_of (active_stream_configs (stopped_streams ks m)) =
     (\<lambda>k. if k \<in> set ks then None else map_of (active_stream_configs m) k)"
  "map_of (stream_threads (stopped_streams ks m)) =
     (\<lambda>k. if k \<in> set ks then None else map_of (stream_threads m) k)"
  if "manager_inv m"
  using that by (simp_all add: stopped_streams_def manager_inv_def smap.find_erase_list)

lemma keys_to_stop_iff:
  "k \<in> set (keys_to_stop d m) \<longleftrightarrow> map_of (stream_threads m) k \<noteq> None \<and> stop_cond d m k"
  by (auto simp: keys_to_stop_def map_of_eq_None_iff)

lemma reconciled_active:
  assumes "manager_inv m" and "ids_in_range cfgs" and "update_streams cfgs m = Inr (m', acts)"
  shows "map_of (active_stream_configs m') k
     = reconciled (map_of (desired_configs cfgs) k) (map_of (active_stream_configs m) k)"
proof -
  let ?d = "desired_configs cfgs"
  let ?s = "stopped_streams (keys_to_stop ?d m) m"
  have "active_stream_configs m' = fold (\<lambda>c. smap_insert (key_of c) c)
      (collect_start ?d (stream_threads m)) (active_stream_configs ?s)"
    using assms(3) update_streams_closed [OF assms(1), of cfgs] start_threads_fields
    by (auto simp: Let_def)
  moreover have "smap_inv (active_stream_configs ?s)"
    using stopped_inv [OF assms(1)] by (simp add: manager_inv_def)
  ultimately show ?thesis
    using fold_insert_start [OF assms(2), of "active_stream_configs ?s" "\<lambda>c. c" "stream_threads m" k]
      map_of_stopped [OF assms(1)] thread_None_iff [OF assms(1), of k]
    by (auto simp: reconciled_def keys_to_stop_iff stop_cond_def split: option.splits)
qed

lemma reconciled_thread:
  assumes "manager_inv m" and "ids_in_range cfgs" and "update_streams cfgs m = Inr (m', acts)"
  shows "map_of (stream_threads m') k
     = (case reconciled (map_of (desired_configs cfgs) k) (map_of (active_stream_configs m) k) of
          None \<Rightarrow> None
        | Some c \<Rightarrow> (case map_of (stream_threads m) k of
              None \<Rightarrow> Some \<lparr>th_config = c, th_running = True\<rparr> | Some t \<Rightarrow> Some t))"
proof -
  let ?d = "desired_configs cfgs"
  let ?s = "stopped_streams (keys_to_stop ?d m) m"
  have "stream_threads m' = fold (\<lambda>c. smap_insert (key_of c) \<lparr>th_config = c, th_running = True\<rparr>)
      (collect_start ?d (stream_threads m)) (stream_threads ?s)"
    using assms(3) update_streams_closed [OF assms(1), of cfgs] start_threads_fields
    by (auto simp: Let_def)
  moreover have "smap_inv (stream_threads ?s)"
    using stopped_inv [OF assms(1)] by (simp add: manager_inv_def)
  ultimately show ?thesis
    using fold_insert_start [OF assms(2), of "stream_threads ?s"
        "\<lambda>c. \<lparr>th_config = c, th_running = True\<rparr>" "stream_threads m" k]
      map_of_stopped [OF assms(1)] thread_None_iff [OF assms(1), of k]
    by (auto simp: reconciled_def keys_to_stop_iff stop_cond_def split: option.splits)
qed

text \<open>
  Where the active configurations agree with the desired ones, nothing is stopped or started.
\<close>

definition settled :: "StreamConfig list \<Rightarrow> StreamIoManager \<Rightarrow> bool" where
  "settled cfgs m \<longleftrightarrow> (\<forall>k. map_option erase_fps (map_of (active_stream_configs m) k)
     = map_option erase_fps (map_of (desired_configs cfgs) k))"

lemma settled_cases:
  "settled cfgs m \<Longrightarrow> map_of (active_stream_configs m) k = None \<longleftrightarrow> map_of (desired_configs cfgs) k = None"
  "settled cfgs m \<Longrightarrow> map_of (active_stream_configs m) k = Some a \<Longrightarrow> map_of (desired_configs cfgs) k = Some d
     \<Longrightarrow> stream_eq d a"
  by (metis map_option_is_None settled_def)
    (metis option.inject option.map(2) settled_def stream_eq_iff)

lemma update_settled:
  assumes "manager_inv m" and "ids_in_range cfgs" and "settled cfgs m"
  shows "update_streams cfgs m = Inr (m, [])"
proof -
  have "\<not> stop_cond (desired_configs cfgs) m k"
    if nn: "map_of (stream_threads m) k \<noteq> None" for k
  proof -
    obtain a where a: "map_of (active_stream_configs m) k = Some a"
      using nn thread_None_iff [OF assms(1), of k] by auto
    moreover obtain d where "map_of (desired_configs cfgs) k = Some d"
      using a settled_cases(1) [OF assms(3), of k] by auto
    ultimately show ?thesis using settled_cases(2) [OF assms(3)] by (simp add: stop_cond_def)
  qed
  then have "k \<notin> set (keys_to_stop (desired_configs cfgs) m)" for k
    by (simp only: keys_to_stop_iff) (metis (no_types))
  then have "keys_to_stop (desired_configs cfgs) m = []"
    by (metis list.set_intros(1) neq_Nil_conv)
  moreover have "collect_start (desired_configs cfgs) (stream_threads m) = []"
  proof -
    have "c \<notin> set (collect_start (desired_configs cfgs) (stream_threads m))" for c
      using collect_start_find [OF assms(2), of c "stream_threads m"]
        settled_cases(1) [OF assms(3), of "key_of c"] thread_None_iff [OF assms(1), of "key_of c"]
      by auto
    then show ?thesis by (metis list.set_intros(1) neq_Nil_conv)
  qed
  ultimately show ?thesis
    by (simp add: update_streams_closed [OF assms(1)] Let_def stopped_streams_def)
qed



lemma update_streams_total:
  "manager_inv m \<Longrightarrow> \<exists>m' acts. update_streams cfgs m = Inr (m', acts) \<and> manager_inv m'"
  using update_streams_inv by (fastforce simp: update_streams_closed Let_def)

definition cam :: "int \<Rightarrow> string \<Rightarrow> StreamConfig" where
  "cam k u =
     \<lparr>st_id = k, url = u, target_fps = 5, wait_for_keyframe = False, enabled = True,
      processing = default_processing, events = [default_event\<lparr>ev_name := ''motion''\<rparr>]\<rparr>"

definition one_stream :: StreamIoManager where
  "one_stream = fst (start_threads [cam 1 ''rtsp://a''] new_manager)"

lemma one_stream_reached: "manager_step\<^sup>*\<^sup>* new_manager one_stream"
proof -
  have "update_streams [cam 1 ''rtsp://a''] new_manager = Inr (one_stream, [StartThread (cam 1 ''rtsp://a'')])"
    by code_simp
  then show ?thesis using manager_step.Update by blast
qed

section \<open>Properties\<close>

text \<open>
  C8: in every state of the manager that updates, stops and returning threads reach, an update
  with any list of configurations whose ids fit in \<open>int\<close> returns (\<open>at\<close> never throws), keeps the
  two maps consistent, and has the effect \<open>reconciled\<close> on every id: an id that is not desired
  has no thread, a desired id without a thread gets one with the last enabled configuration of
  that id, a thread whose configuration compares equal is left as it is, and a thread whose
  configuration changed is stopped and, in this call, not started again.
\<close>

theorem update_streams_exact:
  assumes "manager_step\<^sup>*\<^sup>* new_manager m" and "ids_in_range cfgs"
  shows "\<exists>m' acts. update_streams cfgs m = Inr (m', acts) \<and> manager_inv m' \<and>
    (\<forall>k. map_of (active_stream_configs m') k
        = reconciled (last_option (filter (\<lambda>c. enabled c \<and> st_id c = k) cfgs))
            (map_of (active_stream_configs m) k)
      \<and> map_of (stream_threads m') k
        = (case map_of (active_stream_configs m') k of
             None \<Rightarrow> None
           | Some c \<Rightarrow> (case map_of (stream_threads m) k of
                 None \<Rightarrow> Some \<lparr>th_config = c, th_running = True\<rparr> | Some t \<Rightarrow> Some t)))"
proof -
  have inv: "manager_inv m" using manager_ts.inv_reachable assms(1) by blast
  obtain m' acts where u: "update_streams cfgs m = Inr (m', acts)" "manager_inv m'"
    using update_streams_total [OF inv] by blast
  show ?thesis
    using u reconciled_active [OF inv assms(2) u(1)] reconciled_thread [OF inv assms(2) u(1)]
    by (auto simp: desired_configs_last)
qed

theorem update_streams_exact_witness:
  "\<exists>m' acts. update_streams [cam 1 ''rtsp://b'', cam 2 ''rtsp://c''] one_stream = Inr (m', acts)
     \<and> map_of (active_stream_configs m') 1 = None
     \<and> map_of (active_stream_configs m') 2 = Some (cam 2 ''rtsp://c'')"
proof -
  have "ids_in_range [cam 1 ''rtsp://b'', cam 2 ''rtsp://c'']" by code_simp
  from update_streams_exact [OF one_stream_reached this] obtain m' acts where
    "update_streams [cam 1 ''rtsp://b'', cam 2 ''rtsp://c''] one_stream = Inr (m', acts)"
    and k: "\<And>k. map_of (active_stream_configs m') k
      = reconciled (last_option (filter (\<lambda>c. enabled c \<and> st_id c = k)
            [cam 1 ''rtsp://b'', cam 2 ''rtsp://c''])) (map_of (active_stream_configs one_stream) k)"
    by blast
  moreover have "map_of (active_stream_configs m') 1 = None" unfolding k by code_simp
  moreover have "map_of (active_stream_configs m') 2 = Some (cam 2 ''rtsp://c'')" unfolding k by code_simp
  ultimately show ?thesis by blast
qed



text \<open>
  a thread whose function has returned is never started again while its configuration stays
  the same: an update with the settled configurations keeps the finished thread and does nothing.
\<close>

theorem returned_thread_not_restarted:
  assumes "manager_step\<^sup>*\<^sup>* new_manager m" and "ids_in_range cfgs" and "settled cfgs m"
    and "map_of (stream_threads m) k = Some t"
  shows "update_streams cfgs (thread_returns k m) = Inr (thread_returns k m, [])
    \<and> map_of (stream_threads (thread_returns k m)) k = Some (t\<lparr>th_running := False\<rparr>)"
proof -
  have inv: "manager_inv m" using manager_ts.inv_reachable assms(1) by blast
  have "settled cfgs (thread_returns k m)" using assms(3) by (simp add: settled_def)
  from update_settled [OF thread_returns_inv [OF inv] assms(2) this] assms(4) show ?thesis
    by (simp add: map_of_thread_returns)
qed

theorem returned_thread_not_restarted_witness:
  "update_streams [cam 1 ''rtsp://a''] (thread_returns 1 one_stream)
     = Inr (thread_returns 1 one_stream, [])"
proof -
  have r: "ids_in_range [cam 1 ''rtsp://a'']" by code_simp
  have "active_stream_configs one_stream = desired_configs [cam 1 ''rtsp://a'']" by code_simp
  then have s: "settled [cam 1 ''rtsp://a''] one_stream" by (simp add: settled_def)
  have "map_of (stream_threads one_stream) 1
      = Some \<lparr>th_config = cam 1 ''rtsp://a'', th_running = True\<rparr>" by code_simp
  from returned_thread_not_restarted [OF one_stream_reached r s this] show ?thesis by blast
qed

text \<open>
  an id outside the range of \<open>int\<close> (the configuration's ids are \<open>long long\<close>) makes the
  manager alternate: the update that starts its thread is followed by one that stops it, because
  the truncated key is not a desired id while the full id finds the thread under its key.
\<close>

theorem wide_id_alternates:
  assumes "enabled c" and "st_id c \<noteq> key_of c"
  shows "\<exists>m1. update_streams [c] new_manager = Inr (m1, [StartThread c])
    \<and> update_streams [c] m1 = Inr (new_manager, [StopThread (key_of c)])"
proof -
  let ?t = "\<lparr>th_config = c, th_running = True\<rparr>"
  let ?m = "\<lparr>stream_threads = [(key_of c, ?t)], active_stream_configs = [(key_of c, c)]\<rparr>"
  have d: "desired_configs [c] = [(st_id c, c)]" using assms(1) by (simp add: desired_configs_def)
  have "update_streams [c] new_manager = Inr (?m, [StartThread c])"
    by (simp add: update_streams_def d new_manager_def collect_start_def Let_def)
  moreover have "update_streams [c] ?m = Inr (new_manager, [StopThread (key_of c)])"
    using assms(2)
    by (simp add: update_streams_def d new_manager_def collect_start_def Let_def smap_erase_def)
  ultimately show ?thesis by blast
qed

theorem wide_id_alternates_witness:
  "\<exists>m1. update_streams [cam 4294967297 ''rtsp://a''] new_manager
        = Inr (m1, [StartThread (cam 4294967297 ''rtsp://a'')])
     \<and> update_streams [cam 4294967297 ''rtsp://a''] m1 = Inr (new_manager, [StopThread 1])"
proof -
  have "enabled (cam 4294967297 ''rtsp://a'')" by code_simp
  moreover have k: "key_of (cam 4294967297 ''rtsp://a'') = 1" by code_simp
  moreover have "st_id (cam 4294967297 ''rtsp://a'') \<noteq> key_of (cam 4294967297 ''rtsp://a'')"
    by code_simp
  ultimately show ?thesis using wide_id_alternates [of "cam 4294967297 ''rtsp://a''"] by simp
qed

text \<open>
  \<open>stop_all\<close> stops every thread of the manager exactly once and leaves both maps empty,
  and a second call (the destructor's) does nothing.
\<close>

theorem stop_all_stops_everything:
  assumes "manager_step\<^sup>*\<^sup>* new_manager m"
  shows "stop_all m = (new_manager, map StopThread (map fst (stream_threads m)))
    \<and> distinct (map fst (stream_threads m)) \<and> stop_all new_manager = (new_manager, [])"
proof -
  have inv: "manager_inv m" using manager_ts.inv_reachable assms(1) by blast
  have "active_stream_configs m = []" if "stream_threads m = []"
  proof -
    have "map_of (active_stream_configs m) k = None" for k
      using thread_None_iff [OF inv, of k] that by simp
    then have "map_of (active_stream_configs m) = Map.empty" by (rule ext)
    then show ?thesis by simp
  qed
  then show ?thesis
    using inv by (auto simp: stop_all_def new_manager_def manager_inv_def smap_inv_distinct split_beta)
qed

theorem stop_all_stops_everything_witness:
  "stop_all one_stream = (new_manager, [StopThread 1])"
proof -
  have "map StopThread (map fst (stream_threads one_stream)) = [StopThread 1]" by code_simp
  with stop_all_stops_everything [OF one_stream_reached] show ?thesis by simp
qed

end
