(* ===== verification/FrameSaver.thy ===== *)
theory FrameSaver
  imports Types "HOL-Library.Multiset"
begin

text \<open>
  The utility of \<open>src/src/utils/frame_saver.h\<close> and \<open>frame_saver.cpp\<close> that writes frames to
  disk as JPEG. The environment is a parameter; the file system answers \<open>exists\<close> and
  \<open>create_directories\<close> through two function arguments; the FFmpeg and stdio calls of the
  encoder answer through the record \<open>jpeg_calls\<close>. The encoder returns the trace of what it
  acquired, released and wrote, so that its many early returns can be checked for leaks.
\<close>

section \<open>Construction\<close>

record FrameSaver =
  base_output_dir :: string
  save_interval :: int
  save_decoded_enabled :: bool
  save_processed_enabled :: bool
  created_dirs :: "string set"

definition tolower :: "char \<Rightarrow> char" where
  "tolower c = (if 65 \<le> (of_char c :: nat) \<and> (of_char c :: nat) \<le> 90
                then char_of ((of_char c :: nat) + 32) else c)"

definition parse_bool_env :: "environment \<Rightarrow> string \<Rightarrow> bool \<Rightarrow> bool" where
  "parse_bool_env env var default_value =
     (case env var of
        None \<Rightarrow> default_value
      | Some val \<Rightarrow>
          (let s = map tolower val
           in s = ''true'' \<or> s = ''1'' \<or> s = ''yes'' \<or> s = ''on''))"

definition frame_saver_ctor :: "environment \<Rightarrow> stdexc + FrameSaver" where
  "frame_saver_ctor env =
     rbind (stoi (get_env env ''FP_SAVE_FRAME_INTERVAL'' ''1'')) (\<lambda>interval.
       Inr \<lparr>base_output_dir = get_env env ''FP_SAVED_FRAMES_OUTPUT_DIR'' ''/tmp/output'',
            save_interval = (if interval < 1 then 1 else interval),
            save_decoded_enabled = parse_bool_env env ''FP_SAVE_DECODED_FRAMES'' False,
            save_processed_enabled = parse_bool_env env ''FP_SAVE_PROCESSED_FRAMES'' False,
            created_dirs = {}\<rparr>)"

lemma frame_saver_ctor_interval: "frame_saver_ctor env = Inr fs \<Longrightarrow> 1 \<le> save_interval fs"
  by (auto simp: frame_saver_ctor_def rbind_Inr_iff)

section \<open>Directories and paths\<close>

definition ensure_directory_exists ::
  "(string \<Rightarrow> bool) \<Rightarrow> (string \<Rightarrow> bool) \<Rightarrow> string \<Rightarrow> FrameSaver \<Rightarrow> bool \<times> FrameSaver" where
  "ensure_directory_exists fs_exists fs_create path fs =
     (if path \<in> created_dirs fs then (True, fs)
      else if \<not> fs_exists path \<and> \<not> fs_create path then (False, fs)
      else (True, fs\<lparr>created_dirs := insert path (created_dirs fs)\<rparr>))"

definition dir_path :: "string \<Rightarrow> string \<Rightarrow> int \<Rightarrow> string" where
  "dir_path base stage stream_id = base @ ''/frames/'' @ stage @ ''/stream_'' @ show_int stream_id"

definition frame_path :: "string \<Rightarrow> nat \<Rightarrow> string" where
  "frame_path dir frame_index = dir @ ''/frame_'' @ show_pad8 frame_index @ ''.jpg''"

section \<open>Encoding\<close>

record jpeg_calls =
  find_encoder :: bool
  alloc_context :: "nat option"
  open_codec :: int
  frame_alloc :: "nat option"
  frame_get_buffer :: int
  sws_context :: "nat option"
  packet_alloc :: "nat option"
  send_frame :: int
  receive_packet :: int
  open_file :: "nat option"

datatype jpeg_resource = JCodec nat | JFrame nat | JSws nat | JPacket nat | JFile nat

datatype jpeg_event = Acquire jpeg_resource | Release jpeg_resource | WriteFile string

text \<open>
  The conversion to YUVJ420P: \<open>Inl\<close> is the early return with the events up to the release of
  the conversion frame, \<open>Inr\<close> the optional conversion frame that the encoder then uses.
\<close>

definition jpeg_convert ::
  "jpeg_calls \<Rightarrow> AVFrame \<Rightarrow> jpeg_event list + (nat option \<times> jpeg_event list)" where
  "jpeg_convert e fr =
     (if format fr \<noteq> AV_PIX_FMT_YUVJ420P
      then (case frame_alloc e of
              None \<Rightarrow> Inl []
            | Some f \<Rightarrow>
                if frame_get_buffer e < 0 then Inl [Acquire (JFrame f), Release (JFrame f)]
                else (case sws_context e of
                        None \<Rightarrow> Inl [Acquire (JFrame f), Release (JFrame f)]
                      | Some s \<Rightarrow> Inr (Some f, [Acquire (JFrame f), Acquire (JSws s),
                                                Release (JSws s)])))
      else Inr (None, []))"

definition free_converted :: "nat option \<Rightarrow> jpeg_event list" where
  "free_converted cf = (case cf of Some f \<Rightarrow> [Release (JFrame f)] | None \<Rightarrow> [])"

definition jpeg_write ::
  "jpeg_calls \<Rightarrow> nat option \<Rightarrow> nat \<Rightarrow> string \<Rightarrow> bool \<times> jpeg_event list" where
  "jpeg_write e cf ctx filepath =
     (case packet_alloc e of
        None \<Rightarrow> (False, free_converted cf @ [Release (JCodec ctx)])
      | Some p \<Rightarrow>
          if send_frame e < 0
          then (False, [Acquire (JPacket p), Release (JPacket p)] @ free_converted cf
                       @ [Release (JCodec ctx)])
          else if receive_packet e < 0
          then (False, [Acquire (JPacket p), Release (JPacket p)] @ free_converted cf
                       @ [Release (JCodec ctx)])
          else (case open_file e of
                  None \<Rightarrow> (False, [Acquire (JPacket p), Release (JPacket p)]
                                  @ free_converted cf @ [Release (JCodec ctx)])
                | Some h \<Rightarrow> (True, [Acquire (JPacket p), Acquire (JFile h), WriteFile filepath,
                                    Release (JFile h), Release (JPacket p)]
                                   @ free_converted cf @ [Release (JCodec ctx)])))"

definition encode_and_save_jpeg ::
  "jpeg_calls \<Rightarrow> AVFrame \<Rightarrow> string \<Rightarrow> bool \<times> jpeg_event list" where
  "encode_and_save_jpeg e fr filepath =
     (if \<not> find_encoder e then (False, [])
      else case alloc_context e of
             None \<Rightarrow> (False, [])
           | Some ctx \<Rightarrow>
               if open_codec e < 0
               then (False, [Acquire (JCodec ctx), Release (JCodec ctx)])
               else (case jpeg_convert e fr of
                       Inl evs \<Rightarrow> (False, Acquire (JCodec ctx) # evs @ [Release (JCodec ctx)])
                     | Inr (cf, evs) \<Rightarrow>
                         (case jpeg_write e cf ctx filepath of
                            (ok, evs') \<Rightarrow> (ok, Acquire (JCodec ctx) # evs @ evs'))))"

text \<open>
  A frame pointer may be null. The result is the returned flag, the events of the encoder and
  the saver with its directory cache.
\<close>

definition save_frame ::
  "(string \<Rightarrow> bool) \<Rightarrow> (string \<Rightarrow> bool) \<Rightarrow> jpeg_calls \<Rightarrow> AVFrame option \<Rightarrow> int \<Rightarrow> nat \<Rightarrow> string
     \<Rightarrow> FrameSaver \<Rightarrow> bool \<times> jpeg_event list \<times> FrameSaver" where
  "save_frame fs_exists fs_create e frm stream_id frame_index stage fs =
     (if stage = ''decoded'' \<and> \<not> save_decoded_enabled fs then (False, [], fs)
      else if stage = ''processed'' \<and> \<not> save_processed_enabled fs then (False, [], fs)
      else if frame_index mod nat (save_interval fs) \<noteq> 0 then (False, [], fs)
      else (case frm of
              None \<Rightarrow> (False, [], fs)
            | Some fr \<Rightarrow>
                if width fr \<le> 0 \<or> height fr \<le> 0 then (False, [], fs)
                else
                  let dir = dir_path (base_output_dir fs) stage stream_id
                  in (case ensure_directory_exists fs_exists fs_create dir fs of
                        (ok, fs1) \<Rightarrow>
                          if \<not> ok then (False, [], fs1)
                          else (case encode_and_save_jpeg e fr (frame_path dir frame_index) of
                                  (saved, evs) \<Rightarrow> (saved, evs, fs1)))))"

section \<open>Properties\<close>

text \<open>
  The resources alive after a trace: \<open>None\<close> when something is released that is not alive
  (a double free).
\<close>

fun alive :: "jpeg_resource multiset \<Rightarrow> jpeg_event list \<Rightarrow> jpeg_resource multiset option" where
  "alive A [] = Some A"
| "alive A (Acquire r # es) = alive (add_mset r A) es"
| "alive A (Release r # es) = (if r \<in># A then alive (A - {#r#}) es else None)"
| "alive A (WriteFile p # es) = alive A es"

definition written :: "jpeg_event list \<Rightarrow> string list" where
  "written es = concat (map (\<lambda>e. case e of WriteFile p \<Rightarrow> [p] | _ \<Rightarrow> []) es)"

lemma written_simps [simp]:
  "written [] = []" "written (Acquire r # es) = written es"
  "written (Release r # es) = written es" "written (WriteFile p # es) = p # written es"
  "written (es @ fs) = written es @ written fs"
  by (simp_all add: written_def)

lemma jpeg_convert_alive:
  "case jpeg_convert e fr of
      Inl evs \<Rightarrow> alive A (evs @ rest) = alive A rest \<and> written evs = []
    | Inr (cf, evs) \<Rightarrow> alive A (evs @ rest)
        = alive (A + mset (case cf of Some f \<Rightarrow> [JFrame f] | None \<Rightarrow> [])) rest
        \<and> written evs = []"
  by (auto simp: jpeg_convert_def split: option.splits)

lemma jpeg_write_alive:
  assumes "jpeg_write e cf ctx p = (ok, evs)"
  shows "alive (add_mset (JCodec ctx) (mset (case cf of Some f \<Rightarrow> [JFrame f] | None \<Rightarrow> []))) evs
           = Some {#}
         \<and> written evs = (if ok then [p] else [])"
  using assms by (auto simp: jpeg_write_def free_converted_def split: option.splits if_splits)

lemma encode_alive:
  "alive {#} (snd (encode_and_save_jpeg e fr p)) = Some {#}
   \<and> written (snd (encode_and_save_jpeg e fr p)) = (if fst (encode_and_save_jpeg e fr p) then [p] else [])"
proof (cases "find_encoder e \<and> alloc_context e \<noteq> None \<and> \<not> open_codec e < 0")
  case True
  then obtain ctx where ctx: "alloc_context e = Some ctx" by blast
  show ?thesis
  proof (cases "jpeg_convert e fr")
    case (Inl evs)
    then show ?thesis
      using True ctx jpeg_convert_alive [where e = e and fr = fr and A = "{#JCodec ctx#}" and rest = "[Release (JCodec ctx)]"]
      by (simp add: encode_and_save_jpeg_def)
  next
    case (Inr r)
    obtain cf evs where r: "r = (cf, evs)" by (cases r)
    obtain ok evs' where w: "jpeg_write e cf ctx p = (ok, evs')" by fastforce
    show ?thesis
      using True ctx Inr r w jpeg_write_alive [OF w]
        jpeg_convert_alive [where e = e and fr = fr and A = "{#JCodec ctx#}" and rest = evs']
      by (simp add: encode_and_save_jpeg_def)
  qed
next
  case False
  then show ?thesis by (auto simp: encode_and_save_jpeg_def split: option.splits)
qed


lemma encode_written:
  "encode_and_save_jpeg e fr p = (ok, evs) \<Longrightarrow> written evs = (if ok then [p] else [])"
  using encode_alive [of e fr p] by simp

lemma save_frame_written:
  "written (fst (snd (save_frame ex cr e frm sid idx stage fs)))
     = (if fst (save_frame ex cr e frm sid idx stage fs)
        then [frame_path (dir_path (base_output_dir fs) stage sid) idx] else [])"
  by (auto simp: save_frame_def Let_def dest: encode_written split: option.splits prod.splits)

lemma frame_path_inject:
  assumes "CHR ''/'' \<notin> set stage" and "CHR ''/'' \<notin> set stage'"
  shows "frame_path (dir_path base stage i) m = frame_path (dir_path base stage' j) n
           \<longleftrightarrow> stage = stage' \<and> i = j \<and> m = n"
proof -
  have slash: "CHR ''/'' \<notin> set (show_int k)" for k
    using show_int_chars [of "CHR ''/''" k] by (auto simp: is_digit_def)
  have "frame_path (dir_path base stage i) m = frame_path (dir_path base stage' j) n \<longleftrightarrow>
    stage @ CHR ''/'' # ''stream_'' @ show_int i @ CHR ''/'' # ''frame_'' @ show_pad8 m @ ''.jpg''
    = stage' @ CHR ''/'' # ''stream_'' @ show_int j @ CHR ''/'' # ''frame_'' @ show_pad8 n @ ''.jpg''"
    by (simp add: frame_path_def dir_path_def)
  also have "\<dots> \<longleftrightarrow> stage = stage' \<and>
    show_int i @ CHR ''/'' # ''frame_'' @ show_pad8 m @ ''.jpg''
    = show_int j @ CHR ''/'' # ''frame_'' @ show_pad8 n @ ''.jpg''"
    by (subst prefix_sep_inject [OF assms]) simp
  also have "\<dots> \<longleftrightarrow> stage = stage' \<and> i = j \<and> m = n"
    by (subst prefix_sep_inject [OF slash slash]) auto
  finally show ?thesis .
qed

text \<open>
  a call of \<open>save_frame\<close> writes at most one file, and exactly when it returns true; two
  calls with different stages, streams or frame indices never write the same path (for stage
  names without a slash, as the callers pass).
\<close>

theorem save_frame_distinct_files:
  assumes "CHR ''/'' \<notin> set stage" and "CHR ''/'' \<notin> set stage'"
    and "base_output_dir fs' = base_output_dir fs"
  shows "length (written (fst (snd (save_frame ex cr e frm i m stage fs))))
           = (if fst (save_frame ex cr e frm i m stage fs) then 1 else 0)
    \<and> (set (written (fst (snd (save_frame ex cr e frm i m stage fs))))
         \<inter> set (written (fst (snd (save_frame ex' cr' e' frm' j n stage' fs')))) \<noteq> {}
       \<longleftrightarrow> fst (save_frame ex cr e frm i m stage fs)
         \<and> fst (save_frame ex' cr' e' frm' j n stage' fs')
         \<and> stage = stage' \<and> i = j \<and> m = n)"
  using frame_path_inject [OF assms(1,2), of "base_output_dir fs" i m j n] assms(3)
  by (auto simp: save_frame_written)

definition sample_saver :: FrameSaver where
  "sample_saver = \<lparr>base_output_dir = ''/tmp/output'', save_interval = 1,
     save_decoded_enabled = True, save_processed_enabled = True, created_dirs = {}\<rparr>"

definition sample_calls :: jpeg_calls where
  "sample_calls = \<lparr>find_encoder = True, alloc_context = Some 1, open_codec = 0,
     frame_alloc = Some 2, frame_get_buffer = 0, sws_context = Some 3, packet_alloc = Some 4,
     send_frame = 0, receive_packet = 0, open_file = Some 5\<rparr>"

definition sample_frame :: AVFrame where
  "sample_frame = \<lparr>width = 2, height = 2, format = AV_PIX_FMT_YUV420P, pts = 7,
     linesize = [4, 2, 2], data = [[1, 2, 0, 0, 3, 4, 0, 0], [5, 0], [6, 0]],
     sample_aspect_ratio = \<lparr>num = 1, den = 1\<rparr>\<rparr>"

theorem save_frame_distinct_files_witness:
  "fst (save_frame (\<lambda>_. False) (\<lambda>_. True) sample_calls (Some sample_frame) 12 3 ''decoded'' sample_saver)
   \<and> set (written (fst (snd (save_frame (\<lambda>_. False) (\<lambda>_. True) sample_calls (Some sample_frame)
        12 3 ''decoded'' sample_saver))))
     \<inter> set (written (fst (snd (save_frame (\<lambda>_. False) (\<lambda>_. True) sample_calls
        (Some sample_frame) 1 23 ''decoded'' sample_saver)))) = {}"
proof
  show "fst (save_frame (\<lambda>_. False) (\<lambda>_. True) sample_calls (Some sample_frame) 12 3 ''decoded''
      sample_saver)"
    by (simp add: save_frame_def sample_saver_def sample_calls_def sample_frame_def Let_def
        ensure_directory_exists_def encode_and_save_jpeg_def jpeg_convert_def jpeg_write_def)
qed (use save_frame_distinct_files [of "''decoded''" "''decoded''" sample_saver sample_saver
      "\<lambda>_. False" "\<lambda>_. True" sample_calls "Some sample_frame" 12 3
      "\<lambda>_. False" "\<lambda>_. True" sample_calls "Some sample_frame" 1 23] in simp)

end
