(* ===== verification/Worker.thy ===== *)
theory Worker
  imports Fifo FrameSaver
begin

text \<open>
  \<open>src/src/components/worker\<close>: the filter text and the arguments of the processing graph, the
  per-thread cache of graphs, one iteration of \<open>worker_loop\<close> and the shutdown. FFmpeg's answers
  for a frame are the record \<open>frame_calls\<close>; a cached context remembers with which arguments
  and which text its graph was built.
\<close>

section \<open>The processing graph\<close>

definition crop_on :: "CropConfig \<Rightarrow> bool" where
  "crop_on c \<longleftrightarrow> cr_width c > 0 \<and> cr_height c > 0"

definition scale_on :: "ScaleConfig \<Rightarrow> bool" where
  "scale_on s \<longleftrightarrow> sc_width s > 0 \<and> sc_height s > 0"

definition crop_text :: "CropConfig \<Rightarrow> string" where
  "crop_text c = ''crop='' @ show_int (cr_width c) @ '':'' @ show_int (cr_height c) @ '':''
     @ show_int (cr_x c) @ '':'' @ show_int (cr_y c)"

definition scale_text :: "ScaleConfig \<Rightarrow> string" where
  "scale_text s = ''scale='' @ show_int (sc_width s) @ '':'' @ show_int (sc_height s)"

definition processing_spec :: "ProcessingConfig \<Rightarrow> string" where
  "processing_spec p =
     (let ss1 = (if crop_on (crop p) then crop_text (crop p) else []);
          ss2 = (if scale_on (scale p)
                 then (if length ss1 > 0 then ss1 @ '','' else ss1) @ scale_text (scale p)
                 else ss1)
      in if ss2 = [] then ''null'' else ss2)"

definition worker_args :: "AVFrame \<Rightarrow> string" where
  "worker_args f =
     ''width='' @ show_int (width f) @ '':height='' @ show_int (height f)
     @ '':pix_fmt='' @ show_int (format f) @ '':time_base='' @ show_int 1 @ ''/'' @ show_int 1000
     @ '':pixel_aspect='' @ show_int (num (sample_aspect_ratio f)) @ ''/''
     @ show_int (den (sample_aspect_ratio f))"

record frame_calls =
  now :: int
  wg_allocated :: bool
  wg_inouts :: bool
  wg_create_source :: "string \<Rightarrow> int"
  wg_create_sink :: int
  wg_parse :: "string \<Rightarrow> int"
  wg_config :: int
  clone_ok :: bool
  add_frame :: int
  pulled :: "(int \<times> AVFrame) list"
  dir_exists :: "string \<Rightarrow> bool"
  dir_create :: "string \<Rightarrow> bool"
  jpeg :: jpeg_calls

definition create_processing_filter :: "frame_calls \<Rightarrow> AVFrame \<Rightarrow> ProcessingConfig \<Rightarrow> bool" where
  "create_processing_filter e input_frame proc_cfg =
     (if \<not> wg_allocated e then False
      else if \<not> wg_inouts e then False
      else if wg_create_source e (worker_args input_frame) < 0 then False
      else if wg_create_sink e < 0 then False
      else if wg_parse e (processing_spec proc_cfg) < 0 then False
      else if wg_config e < 0 then False
      else True)"

section \<open>The loop body\<close>

record StreamProcessingContext =
  graph_args :: string
  graph_spec :: string
  active_config :: ProcessingConfig
  last_input_width :: int
  last_input_height :: int
  last_input_pix_fmt :: int

record worker_thread =
  stream_contexts :: "(string, StreamProcessingContext) smap"
  frames_processed_local :: "64 word"

definition ctx_key :: "DecodedFrame \<Rightarrow> string" where
  "ctx_key d = show_int (st_id (source_config d)) @ ''_'' @ ev_name (event_config d)"

definition needs_reinit :: "worker_thread \<Rightarrow> DecodedFrame \<Rightarrow> bool" where
  "needs_reinit w d =
     (case map_of (stream_contexts w) (ctx_key d) of
        None \<Rightarrow> True
      | Some ctx \<Rightarrow>
          \<not> (processing_eq (active_config ctx) (processing (source_config d))
             \<and> last_input_width ctx = width (frame d)
             \<and> last_input_height ctx = height (frame d)
             \<and> last_input_pix_fmt ctx = format (frame d)))"

definition new_context :: "DecodedFrame \<Rightarrow> StreamProcessingContext" where
  "new_context d =
     \<lparr>graph_args = worker_args (frame d),
      graph_spec = processing_spec (processing (source_config d)),
      active_config = processing (source_config d),
      last_input_width = width (frame d), last_input_height = height (frame d),
      last_input_pix_fmt = format (frame d)\<rparr>"

text \<open>The context for the frame; \<open>None\<close> when the graph could not be created.\<close>

definition prepare_context ::
  "frame_calls \<Rightarrow> DecodedFrame \<Rightarrow> worker_thread \<Rightarrow> (worker_thread \<times> StreamProcessingContext) option"
where
  "prepare_context e d w =
     (if needs_reinit w d
      then (if \<not> create_processing_filter e (frame d) (processing (source_config d)) then None
            else Some (w\<lparr>stream_contexts :=
                         smap_insert (ctx_key d) (new_context d) (stream_contexts w)\<rparr>, new_context d))
      else map_option (\<lambda>ctx. (w, ctx)) (map_of (stream_contexts w) (ctx_key d)))"

fun drain_frames :: "nat \<Rightarrow> (int \<times> AVFrame) list \<Rightarrow> AVFrame list" where
  "drain_frames 0 ps = []"
| "drain_frames (Suc n) [] = []"
| "drain_frames (Suc n) ((ret, f) # ps) = (if ret < 0 then [] else f # drain_frames n ps)"

definition expected_dims :: "DecodedFrame \<Rightarrow> int \<times> int" where
  "expected_dims d =
     (let p = processing (source_config d)
      in if sc_width (scale p) > 0 \<and> sc_height (scale p) > 0
         then (sc_width (scale p), sc_height (scale p))
         else if cr_width (crop p) > 0 \<and> cr_height (crop p) > 0
         then (cr_width (crop p), cr_height (crop p))
         else (width (frame d), height (frame d)))"

definition dims_ok :: "DecodedFrame \<Rightarrow> AVFrame \<Rightarrow> bool" where
  "dims_ok d f \<longleftrightarrow> (width f, height f) = expected_dims d"

definition processed_frame :: "DecodedFrame \<Rightarrow> AVFrame \<Rightarrow> DecodedFrame" where
  "processed_frame d f =
     \<lparr>frame = f, source_config = source_config d, event_config = event_config d,
      time_base = time_base d\<rparr>"

text \<open>
  One drained frame: the optional save, which advances the thread's own counter, and the push.
\<close>

record worker_world =
  thread :: worker_thread
  saver :: FrameSaver
  out_queue :: "DecodedFrame fifo"
  saved :: "jpeg_event list"

definition emit_frame :: "frame_calls \<Rightarrow> DecodedFrame \<Rightarrow> AVFrame \<Rightarrow> worker_world \<Rightarrow> worker_world" where
  "emit_frame e d f s =
     (let output = processed_frame d f;
          s1 = (if save_processed_enabled (saver s)
                then
                  let n = frames_processed_local (thread s) + 1;
                      r = save_frame (dir_exists e) (dir_create e) (jpeg e) (Some f)
                            (st_id (source_config d)) (unat n) ''processed'' (saver s)
                  in s\<lparr>thread := (thread s)\<lparr>frames_processed_local := n\<rparr>,
                       saver := snd (snd r), saved := saved s @ fst (snd r)\<rparr>
                else s)
      in s1\<lparr>out_queue := push (now e) output (out_queue s1)\<rparr>)"

definition process_frame :: "frame_calls \<Rightarrow> DecodedFrame \<Rightarrow> worker_world \<Rightarrow> worker_world" where
  "process_frame e d s =
     (case prepare_context e d (thread s) of
        None \<Rightarrow> s
      | Some (w, ctx) \<Rightarrow>
          let s1 = s\<lparr>thread := w\<rparr>
          in if \<not> clone_ok e then s1
             else if add_frame e < 0 then s1
             else fold (emit_frame e d) (drain_frames 5 (pulled e)) s1)"

definition worker_iteration ::
  "bool \<Rightarrow> frame_calls \<Rightarrow> DecodedFrame fifo \<Rightarrow> worker_world
     \<Rightarrow> loop_state \<times> DecodedFrame fifo \<times> worker_world" where
  "worker_iteration stop_requested e in_queue s =
     (if stop_requested then (LoopEnded, in_queue, s)
      else (case wait_and_pop in_queue of
              WouldBlock \<Rightarrow> (LoopWaiting, in_queue, s)
            | Nullopt \<Rightarrow> (LoopEnded, in_queue, s)
            | Popped d in_queue' \<Rightarrow> (LoopRunning, in_queue', process_frame e d s)))"

fun worker_loop ::
  "(bool \<times> frame_calls) list \<Rightarrow> DecodedFrame fifo \<Rightarrow> worker_world
     \<Rightarrow> loop_state \<times> DecodedFrame fifo \<times> worker_world" where
  "worker_loop [] inq s = (LoopRunning, inq, s)"
| "worker_loop ((stop_requested, e) # es) inq s =
     (case worker_iteration stop_requested e inq s of
        (LoopEnded, inq1, s1) \<Rightarrow> (LoopEnded, inq1, s1)
      | (LoopWaiting, inq1, s1) \<Rightarrow> (LoopWaiting, inq1, s1)
      | (LoopRunning, inq1, s1) \<Rightarrow> worker_loop es inq1 s1)"

section \<open>Construction and shutdown\<close>

definition ffmpeg_levels :: "(string \<times> int) list" where
  "ffmpeg_levels =
     [(''AV_LOG_QUIET'', - 8), (''AV_LOG_PANIC'', 0), (''AV_LOG_FATAL'', 8), (''AV_LOG_ERROR'', 16),
      (''AV_LOG_WARNING'', 24), (''AV_LOG_INFO'', 32), (''AV_LOG_VERBOSE'', 40),
      (''AV_LOG_DEBUG'', 48), (''AV_LOG_TRACE'', 56)]"

text \<open>The constructor builds the frame saver and yields the FFmpeg log level it sets.\<close>

definition worker_ctor :: "environment \<Rightarrow> stdexc + (FrameSaver \<times> int)" where
  "worker_ctor env =
     rbind (frame_saver_ctor env) (\<lambda>fs.
       let env_level_str = get_env env ''FFMPEG_LOG_LEVEL'' ''AV_LOG_ERROR'';
           final_level = (case map_of ffmpeg_levels env_level_str of Some l \<Rightarrow> l | None \<Rightarrow> 16)
       in Inr (fs, final_level))"

definition new_worker_thread :: worker_thread where
  "new_worker_thread = \<lparr>stream_contexts = [], frames_processed_local = 0\<rparr>"

definition worker_start :: "int \<Rightarrow> worker_thread list" where
  "worker_start num_threads = map (\<lambda>i. new_worker_thread) [0..<nat num_threads]"

text \<open>
  The queues are stopped first; then the threads are destroyed, which requests their stop and
  joins them one by one. The threads' last iterations are steps of their own.
\<close>

definition worker_stop ::
  "DecodedFrame fifo \<Rightarrow> DecodedFrame fifo \<Rightarrow> DecodedFrame fifo \<times> DecodedFrame fifo" where
  "worker_stop inq outq = (fifo_stop inq, fifo_stop outq)"

section \<open>Helper lemmas\<close>

lemma sep_or_end_inject:
  assumes "c \<notin> set xs" and "c \<notin> set ys" and "r = [] \<or> hd r = c" and "r' = [] \<or> hd r' = c"
  shows "xs @ r = ys @ r' \<longleftrightarrow> xs = ys \<and> r = r'"
proof -
  consider "r = []" "r' = []" | u where "r = c # u" "r' = []" | v where "r = []" "r' = c # v"
    | u v where "r = c # u" "r' = c # v"
    using assms(3,4) by (cases r; cases r') auto
  then show ?thesis
    using assms(1,2) prefix_sep_inject [OF assms(1,2)] by cases auto
qed

lemma show_int_no: "c \<notin> set (show_int i)" if "\<not> is_digit c" "c \<noteq> CHR ''-''"
  using that show_int_chars by blast

lemma sep_not_in_show_int [simp]:
  "CHR '':'' \<notin> set (show_int i)" "CHR '','' \<notin> set (show_int i)" "CHR ''_'' \<notin> set (show_int i)"
  by (rule show_int_no; simp add: is_digit_def)+

lemma colon_inject [simp]:
  "show_int i @ CHR '':'' # u = show_int j @ CHR '':'' # v \<longleftrightarrow> i = j \<and> u = v"
  using prefix_sep_inject [of "CHR '':''" "show_int i" "show_int j" u v] by simp

lemma crop_text_inject:
  assumes "r = [] \<or> hd r = CHR '',''" and "r' = [] \<or> hd r' = CHR '',''"
  shows "crop_text c @ r = crop_text c' @ r' \<longleftrightarrow> c = c' \<and> r = r'"
  using sep_or_end_inject [OF _ _ assms, of "show_int (cr_y c)" "show_int (cr_y c')"]
  by (cases c; cases c') (auto simp: crop_text_def)

lemma scale_text_inject: "scale_text s = scale_text s' \<longleftrightarrow> s = s'"
  by (cases s; cases s') (auto simp: scale_text_def)

lemma ctx_key_inject:
  "ctx_key d = ctx_key d' \<longleftrightarrow>
   st_id (source_config d) = st_id (source_config d')
   \<and> ev_name (event_config d) = ev_name (event_config d')"
  using prefix_sep_inject [of "CHR ''_''" "show_int (st_id (source_config d))"
      "show_int (st_id (source_config d'))"]
  by (simp add: ctx_key_def)


lemma emit_frame_fields [simp]:
  "stream_contexts (thread (emit_frame e d f s)) = stream_contexts (thread s)"
  "queue (out_queue (emit_frame e d f s)) =
     (if stopped (out_queue s) then queue (out_queue s)
      else queue (out_queue s) @ [processed_frame d f])"
  "stopped (out_queue (emit_frame e d f s)) = stopped (out_queue s)"
  by (simp_all add: emit_frame_def Let_def stopped_push)

lemma emit_frames_fields:
  "stream_contexts (thread (fold (emit_frame e d) fs s)) = stream_contexts (thread s)
   \<and> queue (out_queue (fold (emit_frame e d) fs s)) =
       (if stopped (out_queue s) then queue (out_queue s)
        else queue (out_queue s) @ map (processed_frame d) fs)
   \<and> stopped (out_queue (fold (emit_frame e d) fs s)) = stopped (out_queue s)"
  by (induction fs arbitrary: s) auto

lemma length_drain_frames: "length (drain_frames n ps) \<le> n"
  by (induction n ps rule: drain_frames.induct) auto

lemma drain_frames_take:
  "drain_frames n ps = take n (map snd (takeWhile (\<lambda>(ret, f). 0 \<le> ret) ps))"
  by (induction n ps rule: drain_frames.induct) auto

lemma created_context: "create_processing_filter e (frame d) (processing (source_config d)) \<Longrightarrow>
    prepare_context e d w \<noteq> None"
  by (auto simp: prepare_context_def needs_reinit_def split: option.splits)

text \<open>The frames that one input frame puts on the output queue.\<close>

definition frame_outputs :: "frame_calls \<Rightarrow> DecodedFrame \<Rightarrow> worker_thread \<Rightarrow> DecodedFrame list" where
  "frame_outputs e d w =
     (if prepare_context e d w = None \<or> \<not> clone_ok e \<or> add_frame e < 0 then []
      else map (processed_frame d) (drain_frames 5 (pulled e)))"

lemma process_frame_queue:
  "queue (out_queue (process_frame e d s)) =
     (if stopped (out_queue s) then queue (out_queue s)
      else queue (out_queue s) @ frame_outputs e d (thread s))
   \<and> stopped (out_queue (process_frame e d s)) = stopped (out_queue s)"
  by (auto simp: process_frame_def frame_outputs_def emit_frames_fields Let_def
      split: option.splits)

text \<open>The cache holds under a key the context of some frame with that key.\<close>

definition cache_inv :: "worker_thread \<Rightarrow> bool" where
  "cache_inv w \<longleftrightarrow> smap_inv (stream_contexts w)
     \<and> (\<forall>k ctx. map_of (stream_contexts w) k = Some ctx \<longrightarrow> (\<exists>d. ctx_key d = k \<and> ctx = new_context d))"

lemma cache_inv_new: "cache_inv new_worker_thread"
  by (simp add: cache_inv_def new_worker_thread_def)

lemma prepare_context_inv:
  assumes "cache_inv w" and "prepare_context e d w = Some (w', ctx)"
  shows "cache_inv w'" and "map_of (stream_contexts w') (ctx_key d) = Some ctx"
    and "\<exists>d'. ctx = new_context d' \<and> ctx_key d' = ctx_key d
       \<and> processing (source_config d') = processing (source_config d)
       \<and> width (frame d') = width (frame d) \<and> height (frame d') = height (frame d)
       \<and> format (frame d') = format (frame d)"
proof -
  show "cache_inv w'" "map_of (stream_contexts w') (ctx_key d) = Some ctx"
    using assms
    by (auto simp: prepare_context_def cache_inv_def smap_inv_insert smap_find_insert
        split: if_splits)
  show "\<exists>d'. ctx = new_context d' \<and> ctx_key d' = ctx_key d
       \<and> processing (source_config d') = processing (source_config d)
       \<and> width (frame d') = width (frame d) \<and> height (frame d') = height (frame d)
       \<and> format (frame d') = format (frame d)"
  proof (cases "needs_reinit w d")
    case True
    with assms show ?thesis by (auto simp: prepare_context_def split: if_splits)
  next
    case False
    with assms(2) have c: "map_of (stream_contexts w) (ctx_key d) = Some ctx"
      by (auto simp: prepare_context_def)
    with assms(1) obtain d' where "ctx_key d' = ctx_key d" "ctx = new_context d'"
      by (auto simp: cache_inv_def)
    with False c show ?thesis by (auto simp: needs_reinit_def new_context_def)
  qed
qed

lemma process_frame_inv: "cache_inv (thread s) \<Longrightarrow> cache_inv (thread (process_frame e d s))"
proof -
  assume inv: "cache_inv (thread s)"
  show ?thesis
  proof (cases "prepare_context e d (thread s)")
    case None
    with inv show ?thesis by (simp add: process_frame_def)
  next
    case (Some p)
    obtain w ctx where p: "p = (w, ctx)" by (cases p)
    have "cache_inv w" using prepare_context_inv(1) [OF inv] Some p by blast
    then have "cache_inv (thread (fold (emit_frame e d) fs (s\<lparr>thread := w\<rparr>)))" for fs
      by (simp add: cache_inv_def emit_frames_fields)
    with \<open>cache_inv w\<close> Some p show ?thesis by (simp add: process_frame_def Let_def)
  qed
qed

inductive worker_step :: "worker_thread \<Rightarrow> worker_thread \<Rightarrow> bool" where
  "worker_step (thread s) (thread (process_frame e d s))"

inductive_cases worker_stepE: "worker_step w w'"

interpretation worker_ts: transition_system "\<lambda>w. w = new_worker_thread" worker_step cache_inv
  by unfold_locales (auto simp: cache_inv_new process_frame_inv elim!: worker_stepE)

lemma worker_loop_drain:
  "list_all (\<lambda>(stop, e). \<not> stop) es \<Longrightarrow>
   worker_loop es inq s =
     (case drain wait_and_pop (length es) inq of (ds, inq', ended) \<Rightarrow>
        (if ended then LoopEnded else if length ds < length es then LoopWaiting else LoopRunning,
         inq', fold (\<lambda>(e, d). process_frame e d) (zip (map snd es) ds) s))"
proof (induction es arbitrary: inq s)
  case Nil
  then show ?case by simp
next
  case (Cons p es)
  obtain stop e where p: "p = (stop, e)" by (cases p)
  with Cons.prems have "\<not> stop" by simp
  with Cons p show ?case
    by (auto simp: worker_iteration_def split: pop_result.splits prod.splits)
qed

lemma worker_loop_stopped_out:
  "stopped (out_queue s) \<Longrightarrow> queue (out_queue (snd (snd (worker_loop es inq s)))) = queue (out_queue s)"
proof (induction es inq s rule: worker_loop.induct)
  case (1 inq s)
  then show ?case by simp
next
  case (2 stop e es inq s)
  then show ?case
    using process_frame_queue [of e _ s]
    by (auto simp: worker_iteration_def split: pop_result.splits)
qed

lemma prepared_no_reinit:
  assumes "cache_inv w" and "prepare_context e d w = Some (w', ctx)"
  shows "\<not> needs_reinit w' d"
  using prepare_context_inv(2,3) [OF assms] by (auto simp: needs_reinit_def new_context_def)

section \<open>Properties\<close>

text \<open>
  C25: the filter text determines the processing: two configurations have the same text exactly
  when they crop alike (or both do not crop) and scale alike (or both do not scale).
\<close>

theorem processing_spec_faithful:
  "processing_spec p = processing_spec q \<longleftrightarrow>
   (if crop_on (crop p) then Some (crop p) else None) = (if crop_on (crop q) then Some (crop q) else None)
   \<and> (if scale_on (scale p) then Some (scale p) else None)
     = (if scale_on (scale q) then Some (scale q) else None)"
proof -
  have cs: "crop_text c @ r \<noteq> scale_text s" "scale_text s \<noteq> crop_text c @ r"
    "crop_text c @ r \<noteq> ''null''" "scale_text s \<noteq> ''null''" "''null'' \<noteq> crop_text c @ r"
    "''null'' \<noteq> scale_text s" "crop_text c \<noteq> []" "scale_text s \<noteq> []" for c s r
    by (simp_all add: crop_text_def scale_text_def)
  have cs0: "crop_text c \<noteq> scale_text s" "scale_text s \<noteq> crop_text c" "crop_text c \<noteq> ''null''"
    "''null'' \<noteq> crop_text c" for c s
    using cs(1) [of c "[]" s] cs(2) [of s c "[]"] cs(3) [of c "[]"] cs(5) [of c "[]"] by simp_all
  have cc: "crop_text c @ r = crop_text c' @ r' \<longleftrightarrow> c = c' \<and> r = r'"
    if "r = [] \<or> hd r = CHR '',''" "r' = [] \<or> hd r' = CHR '',''" for c c' r r'
    by (rule crop_text_inject [OF that])
  have cc0: "crop_text c = crop_text c' \<longleftrightarrow> c = c'"
    "crop_text c @ CHR '','' # r = crop_text c' @ CHR '','' # r' \<longleftrightarrow> c = c' \<and> r = r'"
    "crop_text c @ CHR '','' # r \<noteq> crop_text c'" "crop_text c' \<noteq> crop_text c @ CHR '','' # r"
    for c c' r r'
    using cc [of "[]" "[]" c c'] cc [of "CHR '','' # r" "CHR '','' # r'" c c']
      cc [of "CHR '','' # r" "[]" c c'] cc [of "[]" "CHR '','' # r" c' c] by auto
  show ?thesis
    by (cases "crop_on (crop p)"; cases "crop_on (crop q)"; cases "scale_on (scale p)";
        cases "scale_on (scale q)")
      (simp_all add: processing_spec_def Let_def cs cs0 cc0 scale_text_inject)
qed

text \<open>
  C24: in every state of a worker thread's cache, the graph prepared for a frame was built with
  the filter text of that frame's configuration and for the width, height and pixel format of
  that frame (the pixel aspect may be that of an earlier frame), and a second frame like it
  reuses the graph.
\<close>

theorem cached_graph_matches:
  assumes "worker_step\<^sup>*\<^sup>* new_worker_thread w" and "prepare_context e d w = Some (w', ctx)"
  shows "graph_spec ctx = processing_spec (processing (source_config d))
    \<and> (\<exists>f. graph_args ctx = worker_args f \<and> width f = width (frame d)
         \<and> height f = height (frame d) \<and> format f = format (frame d))
    \<and> \<not> needs_reinit w' d"
proof -
  have inv: "cache_inv w" using worker_ts.inv_reachable assms(1) by blast
  show ?thesis
    using prepare_context_inv(3) [OF inv assms(2)] prepared_no_reinit [OF inv assms(2)]
    by (auto simp: new_context_def)
qed

definition sample_env :: frame_calls where
  "sample_env =
     \<lparr>now = 0, wg_allocated = True, wg_inouts = True, wg_create_source = (\<lambda>_. 0),
      wg_create_sink = 0, wg_parse = (\<lambda>_. 0), wg_config = 0, clone_ok = True, add_frame = 0,
      pulled = [(0, sample_frame), (- 11, sample_frame)], dir_exists = (\<lambda>_. False),
      dir_create = (\<lambda>_. True), jpeg = FrameSaver.sample_calls\<rparr>"

definition sample_input :: DecodedFrame where
  "sample_input =
     \<lparr>frame = sample_frame,
      source_config =
        \<lparr>st_id = 7, url = ''rtsp://a'', target_fps = 5, wait_for_keyframe = False, enabled = True,
         processing = default_processing\<lparr>scale := \<lparr>sc_width = 2, sc_height = 2\<rparr>\<rparr>, events = []\<rparr>,
      event_config = default_event\<lparr>ev_name := ''motion''\<rparr>,
      time_base = \<lparr>num = 1, den = 90000\<rparr>\<rparr>"

theorem cached_graph_matches_witness:
  "\<exists>w' ctx. prepare_context sample_env sample_input new_worker_thread = Some (w', ctx)
     \<and> graph_spec ctx = ''scale=2:2''"
proof -
  obtain w' ctx where p: "prepare_context sample_env sample_input new_worker_thread = Some (w', ctx)"
    by (simp add: prepare_context_def needs_reinit_def create_processing_filter_def sample_env_def
        new_worker_thread_def)
  have "worker_step\<^sup>*\<^sup>* new_worker_thread new_worker_thread" by simp
  from cached_graph_matches [OF this p]
  have "graph_spec ctx = processing_spec (processing (source_config sample_input))" by blast
  moreover have "processing_spec (processing (source_config sample_input)) = ''scale=2:2''"
    by code_simp
  ultimately show ?thesis using p by simp
qed

text \<open>
  processing one frame appends at most five frames to the output queue, each with the
  configurations and the time base of the input frame and with pixels that the graph delivered
  for it.
\<close>

theorem worker_outputs_belong:
  "\<exists>outs. queue (out_queue (process_frame e d s)) = queue (out_queue s) @ outs \<and> length outs \<le> 5
     \<and> list_all (\<lambda>out. source_config out = source_config d \<and> event_config out = event_config d
          \<and> time_base out = time_base d) outs
     \<and> set (map frame outs) \<subseteq> snd ` set (pulled e)"
proof -
  have sub: "set (drain_frames n ps) \<subseteq> snd ` set ps" for n ps
    by (induction n ps rule: drain_frames.induct) auto
  have "length (frame_outputs e d w) \<le> 5
      \<and> list_all (\<lambda>out. source_config out = source_config d \<and> event_config out = event_config d
          \<and> time_base out = time_base d) (frame_outputs e d w)
      \<and> set (map frame (frame_outputs e d w)) \<subseteq> snd ` set (pulled e)" for w
    using length_drain_frames [of 5 "pulled e"] sub [of 5 "pulled e"]
    by (simp add: frame_outputs_def processed_frame_def list_all_iff image_image)
  moreover have "queue (out_queue (process_frame e d s)) = queue (out_queue s) @
      (if stopped (out_queue s) then [] else frame_outputs e d (thread s))"
    using process_frame_queue [of e d s] by simp
  ultimately show ?thesis
    by (intro exI [of _ "if stopped (out_queue s) then [] else frame_outputs e d (thread s)"]) simp
qed

text \<open>
  after the input queue is stopped, a worker whose own stop is not requested processes every
  frame that was queued, in order, and ends; the loop cannot wait for more.
\<close>

theorem worker_drains_stopped_queue:
  assumes "stopped inq" and "length (queue inq) < length es" and "list_all (\<lambda>(stop, e). \<not> stop) es"
  shows "fst (worker_loop es inq s) = LoopEnded
    \<and> snd (snd (worker_loop es inq s))
       = fold (\<lambda>(e, d). process_frame e d) (zip (map snd es) (queue inq)) s"
  using worker_loop_drain [OF assms(3), of inq s] fq.drain_closed [OF assms(1,2)]
  by (simp add: split_beta)

theorem worker_drains_stopped_queue_witness:
  "fst (worker_loop [(False, sample_env), (False, sample_env)]
      (fifo_stop (push 1 sample_input (fifo_new 0 ''in''))) s) = LoopEnded"
proof -
  have "stopped (fifo_stop (push 1 sample_input (fifo_new 0 ''in'')))"
    "length (queue (fifo_stop (push 1 sample_input (fifo_new 0 ''in''))))
      < length [(False, sample_env), (False, sample_env)]"
    by (simp_all add: fifo_stop_def fifo_new_def)
  from worker_drains_stopped_queue [OF this] show ?thesis by simp
qed

text \<open>
  \<open>Worker::stop\<close> stops the output queue before its threads have ended, so whatever they still
  process afterwards never reaches the publisher, and a thread whose stop is requested leaves
  the rest of the input queue unprocessed.
\<close>

theorem worker_stop_discards:
  "queue (out_queue (snd (snd (worker_loop es (fst (worker_stop inq (out_queue s)))
      (s\<lparr>out_queue := snd (worker_stop inq (out_queue s))\<rparr>))))) = queue (out_queue s)
   \<and> worker_loop ((True, e) # es) inq s = (LoopEnded, inq, s)"
  using worker_loop_stopped_out [of "s\<lparr>out_queue := fifo_stop (out_queue s)\<rparr>" es "fifo_stop inq"]
  by (simp add: worker_stop_def worker_iteration_def fifo_stop_def)

end
