(* ===== verification/FrameCodec.thy ===== *)
theory FrameCodec
  imports Types
begin

text \<open>
  The byte layout of a published frame (\<open>src/src/components/publisher/publisher.cpp\<close>): the
  packed header and the row-by-row copies that strip the padding of the planes, with the 32-bit
  index arithmetic of the code. A buffer is its list of bytes; a copy outside of a buffer is
  undefined behaviour, the value \<open>None\<close>. Decoding follows the layout documented for consumers.
\<close>

section \<open>Bytes\<close>

fun le_bytes :: "nat \<Rightarrow> nat \<Rightarrow> byte list" where
  "le_bytes 0 n = []"
| "le_bytes (Suc k) n = of_nat (n mod 256) # le_bytes k (n div 256)"

fun of_le :: "byte list \<Rightarrow> nat" where
  "of_le [] = 0"
| "of_le (b # bs) = unat b + 256 * of_le bs"

lemma length_le_bytes [simp]: "length (le_bytes k n) = k"
  by (induction k n rule: le_bytes.induct) simp_all

lemma of_le_le_bytes: "of_le (le_bytes k n) = n mod 256 ^ k"
proof (induction k n rule: le_bytes.induct)
  case (1 n)
  then show ?case by simp
next
  case (2 k n)
  have "unat (of_nat (n mod 256) :: byte) = n mod 256" by (simp add: unat_of_nat)
  with 2 show ?case by (simp add: mod_mult2_eq)
qed

text \<open>\<open>memcpy\<close> of \<open>n\<close> bytes from \<open>src\<close> at \<open>s\<close> to \<open>dst\<close> at \<open>d\<close>.\<close>

definition memcpy :: "byte list \<Rightarrow> nat \<Rightarrow> byte list \<Rightarrow> nat \<Rightarrow> nat \<Rightarrow> byte list option" where
  "memcpy dst d src s n =
     (if d + n \<le> length dst \<and> s + n \<le> length src
      then Some (take d dst @ take n (drop s src) @ drop (d + n) dst) else None)"

section \<open>The serialisation\<close>

record FrameHeader =
  h_pts :: "64 word"
  h_width :: "32 word"
  h_height :: "32 word"

definition header_bytes :: "FrameHeader \<Rightarrow> byte list" where
  "header_bytes h = le_bytes 8 (unat (h_pts h)) @ le_bytes 4 (unat (h_width h))
     @ le_bytes 4 (unat (h_height h))"

fun copy_rows ::
  "32 word \<Rightarrow> 32 word \<Rightarrow> byte list \<Rightarrow> nat \<Rightarrow> nat list \<Rightarrow> byte list \<Rightarrow> byte list option" where
  "copy_rows row_bytes linesz src dest_ptr [] dst = Some dst"
| "copy_rows row_bytes linesz src dest_ptr (i # is) dst =
     Option.bind (memcpy dst (dest_ptr + unat (of_nat i * row_bytes)) src
                    (unat (of_nat i * linesz)) (unat row_bytes))
       (copy_rows row_bytes linesz src dest_ptr is)"

text \<open>A missing plane is a null pointer; it has no bytes.\<close>

definition plane_data :: "AVFrame \<Rightarrow> nat \<Rightarrow> byte list" where
  "plane_data f k = (if k < length (data f) then data f ! k else [])"

definition plane_linesize :: "AVFrame \<Rightarrow> nat \<Rightarrow> int" where
  "plane_linesize f k = (if k < length (linesize f) then linesize f ! k else 0)"

definition serialize_frame :: "AVFrame \<Rightarrow> byte list \<Rightarrow> byte list option" where
  "serialize_frame f buffer =
     (let w = of_int (width f) :: 32 word;
          h = of_int (height f) :: 32 word;
          y_plane_size = (unat w * unat h) mod 2 ^ 64;
          uv_plane_size = (unat (w div 2) * unat (h div 2)) mod 2 ^ 64;
          total_frame_data_size = (y_plane_size + uv_plane_size + uv_plane_size) mod 2 ^ 64;
          total_entry_size = (16 + total_frame_data_size) mod 2 ^ 64;
          new_size = (length buffer + total_entry_size) mod 2 ^ 64;
          resized = take new_size buffer @ replicate (new_size - length buffer) 0;
          dest_ptr = length buffer
      in Option.bind (memcpy resized dest_ptr
             (header_bytes \<lparr>h_pts = pts f, h_width = w, h_height = h\<rparr>) 0 16) (\<lambda>b1.
         Option.bind (copy_rows w (of_int (plane_linesize f 0)) (plane_data f 0) (dest_ptr + 16)
             [0..<unat h] b1) (\<lambda>b2.
         Option.bind (copy_rows (w div 2) (of_int (plane_linesize f 1)) (plane_data f 1)
             (dest_ptr + 16 + y_plane_size) [0..<unat (h div 2)] b2) (\<lambda>b3.
         copy_rows (w div 2) (of_int (plane_linesize f 2)) (plane_data f 2)
             (dest_ptr + 16 + y_plane_size + uv_plane_size) [0..<unat (h div 2)] b3))))"

text \<open>The copy helper of the same file, which the batching loop does not call.\<close>

fun copy_plane_rows :: "byte list \<Rightarrow> int \<Rightarrow> int \<Rightarrow> nat list \<Rightarrow> byte list \<Rightarrow> byte list option" where
  "copy_plane_rows src src_linesize row_bytes [] dest = Some dest"
| "copy_plane_rows src src_linesize row_bytes (r # rs) dest =
     Option.bind (memcpy dest (nat ((int r * row_bytes) mod 2 ^ 64)) src
                    (nat ((int r * src_linesize) mod 2 ^ 64)) (nat (row_bytes mod 2 ^ 64)))
       (copy_plane_rows src src_linesize row_bytes rs)"

definition copy_plane_remove_stride ::
  "byte list \<Rightarrow> byte list \<Rightarrow> int \<Rightarrow> int \<Rightarrow> int \<Rightarrow> byte list option" where
  "copy_plane_remove_stride dest src src_linesize row_bytes rows =
     copy_plane_rows src src_linesize row_bytes [0..<nat rows] dest"

section \<open>The conversion helper\<close>

text \<open>
  \<open>convert_frame_to_i420\<close>, which the file defines and does not call: FFmpeg's answers, the
  pixels the scaler delivers, and the trace of what is taken and given back. The buffer of
  \<open>av_image_alloc\<close> is a plain pointer in the frame, which freeing the frame does not free.
\<close>

record convert_calls =
  cv_frame_alloc :: bool
  cv_image_alloc :: int
  cv_sws_context :: bool
  cv_rows :: int
  cv_linesize :: "int list"
  cv_data :: "byte list list"

datatype convert_resource = DstFrame | DstBuffer | Scaler

datatype convert_event = Got convert_resource | Freed convert_resource

definition convert_frame_to_i420 ::
  "convert_calls \<Rightarrow> AVFrame option \<Rightarrow> AVFrame option \<times> convert_event list" where
  "convert_frame_to_i420 e src =
     (case src of
        None \<Rightarrow> (None, [])
      | Some s \<Rightarrow>
          if format s = AV_PIX_FMT_YUV420P then (None, [])
          else if format s = - 1 then (None, [])
          else if \<not> cv_frame_alloc e then (None, [])
          else if cv_image_alloc e < 0 then (None, [Got DstFrame, Freed DstFrame])
          else if \<not> cv_sws_context e
          then (None, [Got DstFrame, Got DstBuffer, Freed DstBuffer, Freed DstFrame])
          else if cv_rows e \<noteq> height s
          then (None, [Got DstFrame, Got DstBuffer, Got Scaler, Freed Scaler,
                       Freed DstBuffer, Freed DstFrame])
          else (Some \<lparr>width = width s, height = height s, format = AV_PIX_FMT_YUV420P, pts = pts s,
                      linesize = cv_linesize e, data = cv_data e,
                      sample_aspect_ratio = \<lparr>num = 0, den = 1\<rparr>\<rparr>,
                [Got DstFrame, Got DstBuffer, Got Scaler, Freed Scaler]))"

fun outstanding :: "convert_resource set \<Rightarrow> convert_event list \<Rightarrow> convert_resource set" where
  "outstanding A [] = A"
| "outstanding A (Got r # es) = outstanding (insert r A) es"
| "outstanding A (Freed r # es) = outstanding (A - {r}) es"

text \<open>
  A failed conversion gives everything back; a successful one keeps the frame and its buffer, so
  that the deleter of the returned frame leaves the buffer behind.
\<close>

lemma convert_resources:
  "outstanding {} (snd (convert_frame_to_i420 e src))
     = (if fst (convert_frame_to_i420 e src) = None then {} else {DstFrame, DstBuffer})"
  "fst (convert_frame_to_i420 e src) \<noteq> None \<Longrightarrow>
   outstanding {} (snd (convert_frame_to_i420 e src) @ [Freed DstFrame]) = {DstBuffer}"
  by (auto simp: convert_frame_to_i420_def split: option.splits if_splits)

section \<open>The frame as bytes\<close>

definition plane_rows :: "byte list \<Rightarrow> nat \<Rightarrow> nat \<Rightarrow> nat \<Rightarrow> byte list" where
  "plane_rows src ls cols rows = concat (map (\<lambda>i. take cols (drop (i * ls) src)) [0..<rows])"

definition plane_ok :: "byte list \<Rightarrow> nat \<Rightarrow> nat \<Rightarrow> nat \<Rightarrow> bool" where
  "plane_ok src ls cols rows \<longleftrightarrow> rows = 0 \<or>
     (rows - 1) * ls < 2 ^ 32 \<and> (rows - 1) * ls + cols \<le> length src"

lemma plane_okD:
  assumes "plane_ok src ls cols rows" and "i < rows"
  shows "i * ls < 2 ^ 32" and "i * ls + cols \<le> length src"
proof -
  have "i * ls \<le> (rows - 1) * ls" using assms(2) by (intro mult_le_mono1) linarith
  moreover have "(rows - 1) * ls < 2 ^ 32" "(rows - 1) * ls + cols \<le> length src"
    using assms by (auto simp: plane_ok_def)
  ultimately show "i * ls < 2 ^ 32" "i * ls + cols \<le> length src" by linarith+
qed

lemma length_plane_rows:
  "plane_ok src ls cols rows \<Longrightarrow> length (plane_rows src ls cols rows) = rows * cols"
proof -
  assume "plane_ok src ls cols rows"
  from plane_okD(2) [OF this] have "length (take cols (drop (i * ls) src)) = cols" if "i < rows" for i
    using that by fastforce
  then have "map (length \<circ> (\<lambda>i. take cols (drop (i * ls) src))) [0..<rows] = replicate rows cols"
    by (intro nth_equalityI) (simp_all del: length_take)
  then show ?thesis by (simp add: plane_rows_def length_concat sum_list_replicate)
qed

lemma memcpy_middle:
  assumes "length pre = d" and "length old = n" and "s + n \<le> length src"
  shows "memcpy (pre @ old @ post) d src s n = Some (pre @ take n (drop s src) @ post)"
  using assms by (simp add: memcpy_def)

lemma copy_rows_append:
  "copy_rows w ls src base (is @ js) dst =
     Option.bind (copy_rows w ls src base is dst) (copy_rows w ls src base js)"
proof (induction "is" arbitrary: dst)
  case Nil
  then show ?case by simp
next
  case (Cons i "is")
  then show ?case
    by (cases "memcpy dst (base + unat (of_nat i * w)) src (unat (of_nat i * ls)) (unat w)") simp_all
qed

lemma unat_of_nat_mult:
  assumes "i * unat w < 2 ^ 32"
  shows "unat (of_nat i * (w :: 32 word)) = i * unat w"
proof -
  have "of_nat i * w = of_nat (i * unat w)" by simp
  then show ?thesis using assms by (simp only: unat_of_nat) simp
qed

lemma copy_rows_plane:
  assumes "plane_ok src (unat ls) (unat w) rows" and "rows * unat w < 2 ^ 32"
    and "length pre = base" and "length old = rows * unat w"
  shows "copy_rows w ls src base [0..<rows] (pre @ old @ post)
    = Some (pre @ plane_rows src (unat ls) (unat w) rows @ post)"
proof -
  have "k \<le> rows \<Longrightarrow> length old = k * unat w \<Longrightarrow>
    copy_rows w ls src base [0..<k] (pre @ old @ post)
      = Some (pre @ plane_rows src (unat ls) (unat w) k @ post)" for k old post
  proof (induction k arbitrary: old post)
    case 0
    then show ?case by (simp add: plane_rows_def)
  next
    case (Suc k)
    let ?o1 = "take (k * unat w) old" and ?o2 = "drop (k * unat w) old"
    have "length ?o1 = k * unat w" "length ?o2 = unat w" using Suc.prems by simp_all
    have ok: "plane_ok src (unat ls) (unat w) k"
      using plane_okD [OF assms(1)] Suc.prems(1)
      by (cases k) (auto simp: plane_ok_def)
    have "copy_rows w ls src base [0..<k] (pre @ ?o1 @ (?o2 @ post))
        = Some (pre @ plane_rows src (unat ls) (unat w) k @ (?o2 @ post))"
      using Suc.IH [of ?o1 "?o2 @ post"] Suc.prems \<open>length ?o1 = k * unat w\<close> by simp
    moreover have "pre @ ?o1 @ (?o2 @ post) = pre @ old @ post"
      by (metis append.assoc append_take_drop_id)
    moreover have "k * unat w \<le> rows * unat w" using Suc.prems(1) by simp
    then have "unat (of_nat k * w) = k * unat w" using assms(2) by (intro unat_of_nat_mult) linarith
    moreover have "unat (of_nat k * ls) = k * unat ls"
      using plane_okD(1) [OF assms(1), of k] Suc.prems(1) by (intro unat_of_nat_mult) simp
    moreover have "memcpy ((pre @ plane_rows src (unat ls) (unat w) k) @ ?o2 @ post) (base + k * unat w)
        src (k * unat ls) (unat w)
      = Some ((pre @ plane_rows src (unat ls) (unat w) k) @ take (unat w) (drop (k * unat ls) src) @ post)"
      using plane_okD(2) [OF assms(1), of k] Suc.prems(1) \<open>length ?o2 = unat w\<close> assms(3)
      by (intro memcpy_middle) (simp_all add: length_plane_rows [OF ok])
    ultimately show ?case
      by (simp add: copy_rows_append plane_rows_def)
  qed
  then show ?thesis using assms(4) by simp
qed

text \<open>The frames that FFmpeg delivers in the format that the code assumes.\<close>

definition frame_ok :: "AVFrame \<Rightarrow> bool" where
  "frame_ok f \<longleftrightarrow>
     0 \<le> width f \<and> width f < 2 ^ 31 \<and> 0 \<le> height f \<and> height f < 2 ^ 31
     \<and> width f * height f < 2 ^ 32
     \<and> (\<forall>k < 3. 0 \<le> plane_linesize f k \<and> plane_linesize f k < 2 ^ 31)
     \<and> plane_ok (plane_data f 0) (nat (plane_linesize f 0)) (nat (width f)) (nat (height f))
     \<and> (\<forall>k \<in> {1, 2}. plane_ok (plane_data f k) (nat (plane_linesize f k))
          (nat (width f) div 2) (nat (height f) div 2))"

record image =
  im_pts :: "64 word"
  im_width :: nat
  im_height :: nat
  im_y :: "byte list"
  im_u :: "byte list"
  im_v :: "byte list"

definition frame_image :: "AVFrame \<Rightarrow> image" where
  "frame_image f =
     \<lparr>im_pts = pts f, im_width = nat (width f), im_height = nat (height f),
      im_y = plane_rows (plane_data f 0) (nat (plane_linesize f 0)) (nat (width f)) (nat (height f)),
      im_u = plane_rows (plane_data f 1) (nat (plane_linesize f 1)) (nat (width f) div 2)
               (nat (height f) div 2),
      im_v = plane_rows (plane_data f 2) (nat (plane_linesize f 2)) (nat (width f) div 2)
               (nat (height f) div 2)\<rparr>"

definition image_bytes :: "image \<Rightarrow> byte list" where
  "image_bytes im = le_bytes 8 (unat (im_pts im)) @ le_bytes 4 (im_width im) @ le_bytes 4 (im_height im)
     @ im_y im @ im_u im @ im_v im"

lemma unat_of_int32: "0 \<le> i \<Longrightarrow> i < 2 ^ 32 \<Longrightarrow> unat (of_int i :: 32 word) = nat i"
  by (simp add: unat_eq_nat_uint uint_word_of_int take_bit_int_eq_self)

lemma unat_half: "unat ((w :: 32 word) div 2) = unat w div 2"
  by (simp add: unat_div)

lemma entry_sizes:
  assumes "(y :: nat) < 2 ^ 32" and "u \<le> y" and "b < 2 ^ 62"
  shows "y mod 2 ^ 64 = y" "u mod 2 ^ 64 = u" "(y + u + u) mod 2 ^ 64 = y + u + u"
    "(16 + (y + u + u)) mod 2 ^ 64 = 16 + (y + u + u)"
    "(b + (16 + (y + u + u))) mod 2 ^ 64 = b + (16 + (y + u + u))"
  using assms by simp_all

lemma serialize_frame_ok:
  assumes ok: "frame_ok f" and small: "length buffer < 2 ^ 62"
  shows "serialize_frame f buffer = Some (buffer @ image_bytes (frame_image f))"
proof -
  let ?w = "of_int (width f) :: 32 word" and ?h = "of_int (height f) :: 32 word"
  let ?W = "nat (width f)" and ?H = "nat (height f)"
  have w: "unat ?w = ?W" "unat ?h = ?H" "unat (?w div 2) = ?W div 2" "unat (?h div 2) = ?H div 2"
    using ok by (simp_all add: frame_ok_def unat_of_int32 unat_half)
  have ls: "unat (of_int (plane_linesize f k) :: 32 word) = nat (plane_linesize f k)" if "k < 3" for k
    using ok that by (auto simp: frame_ok_def intro!: unat_of_int32)
  have "int (?W * ?H) < int (2 ^ 32)" using ok by (simp add: frame_ok_def)
  then have wh: "?W * ?H < 2 ^ 32" by (simp only: of_nat_less_iff)
  have uv: "?W div 2 * (?H div 2) \<le> ?W * ?H" by (intro mult_le_mono) simp_all
  let ?y = "?W * ?H" and ?u = "?W div 2 * (?H div 2)"
  note sizes = entry_sizes [OF wh uv small]
  let ?hdr = "header_bytes \<lparr>h_pts = pts f, h_width = ?w, h_height = ?h\<rparr>"
  let ?z = "\<lambda>n. replicate n (0 :: byte)"
  have lh: "length ?hdr = 16" by (simp add: header_bytes_def)
  have r: "take (length buffer + (16 + (?y + ?u + ?u))) buffer
      @ ?z (length buffer + (16 + (?y + ?u + ?u)) - length buffer)
      = buffer @ ?z 16 @ (?z ?y @ ?z ?u @ ?z ?u)"
    by (simp flip: replicate_add add: add.assoc)
  have m: "memcpy (buffer @ ?z 16 @ (?z ?y @ ?z ?u @ ?z ?u)) (length buffer) ?hdr 0 16
      = Some (buffer @ ?hdr @ (?z ?y @ ?z ?u @ ?z ?u))"
    using memcpy_middle [of buffer "length buffer" "?z 16" 16 0 ?hdr] lh by simp
  let ?Y = "im_y (frame_image f)" and ?U = "im_u (frame_image f)" and ?V = "im_v (frame_image f)"
  have py: "plane_ok (plane_data f 0) (nat (plane_linesize f 0)) ?W ?H"
    and pu: "plane_ok (plane_data f 1) (nat (plane_linesize f 1)) (?W div 2) (?H div 2)"
    and pv: "plane_ok (plane_data f 2) (nat (plane_linesize f 2)) (?W div 2) (?H div 2)"
    using ok by (simp_all add: frame_ok_def)
  have ly: "length ?Y = ?y" "length ?U = ?u"
    by (simp_all add: frame_image_def length_plane_rows py pu mult.commute del: One_nat_def)
  have bound: "?H * ?W < 2 ^ 32" "?H div 2 * (?W div 2) < 2 ^ 32"
    using wh uv by (simp_all add: mult.commute)
  have ls012: "unat (of_int (plane_linesize f 0) :: 32 word) = nat (plane_linesize f 0)"
    "unat (of_int (plane_linesize f 1) :: 32 word) = nat (plane_linesize f 1)"
    "unat (of_int (plane_linesize f 2) :: 32 word) = nat (plane_linesize f 2)"
    by (rule ls, simp)+
  have img: "?Y = plane_rows (plane_data f 0) (unat (of_int (plane_linesize f 0) :: 32 word)) (unat ?w) ?H"
    "?U = plane_rows (plane_data f 1) (unat (of_int (plane_linesize f 1) :: 32 word))
            (unat (?w div 2)) (?H div 2)"
    "?V = plane_rows (plane_data f 2) (unat (of_int (plane_linesize f 2) :: 32 word))
            (unat (?w div 2)) (?H div 2)"
    unfolding w ls012 by (simp_all add: frame_image_def del: One_nat_def)
  have "copy_rows ?w (of_int (plane_linesize f 0)) (plane_data f 0) (length buffer + 16) [0..<?H]
      ((buffer @ ?hdr) @ ?z ?y @ (?z ?u @ ?z ?u)) = Some ((buffer @ ?hdr) @ ?Y @ (?z ?u @ ?z ?u))"
    unfolding img
    by (rule copy_rows_plane; simp only: w ls012 length_append lh py
        bound length_replicate mult.commute)
  then have c1: "copy_rows ?w (of_int (plane_linesize f 0)) (plane_data f 0) (length buffer + 16)
      [0..<?H] (buffer @ ?hdr @ ?z ?y @ ?z ?u @ ?z ?u) = Some (buffer @ ?hdr @ ?Y @ ?z ?u @ ?z ?u)"
    by (simp only: append_assoc)
  have "copy_rows (?w div 2) (of_int (plane_linesize f 1)) (plane_data f 1)
      (length buffer + 16 + ?y) [0..<?H div 2] ((buffer @ ?hdr @ ?Y) @ ?z ?u @ ?z ?u)
      = Some ((buffer @ ?hdr @ ?Y) @ ?U @ ?z ?u)"
    unfolding img(2)
  proof (rule copy_rows_plane)
    show "length (buffer @ ?hdr @ ?Y) = length buffer + 16 + ?y" by (simp only: length_append lh ly add.assoc)
  qed (simp_all only: w ls012 pu bound length_replicate mult.commute)
  then have c2: "copy_rows (?w div 2) (of_int (plane_linesize f 1)) (plane_data f 1)
      (length buffer + 16 + ?y) [0..<?H div 2] (buffer @ ?hdr @ ?Y @ ?z ?u @ ?z ?u)
      = Some (buffer @ ?hdr @ ?Y @ ?U @ ?z ?u)"
    by (simp only: append_assoc)
  have "copy_rows (?w div 2) (of_int (plane_linesize f 2)) (plane_data f 2)
      (length buffer + 16 + ?y + ?u) [0..<?H div 2] ((buffer @ ?hdr @ ?Y @ ?U) @ ?z ?u @ [])
      = Some ((buffer @ ?hdr @ ?Y @ ?U) @ ?V @ [])"
    unfolding img(3)
  proof (rule copy_rows_plane)
    show "length (buffer @ ?hdr @ ?Y @ ?U) = length buffer + 16 + ?y + ?u"
      by (simp only: length_append lh ly add.assoc)
  qed (simp_all only: w ls012 pv bound length_replicate mult.commute)
  then have c3: "copy_rows (?w div 2) (of_int (plane_linesize f 2)) (plane_data f 2)
      (length buffer + 16 + ?y + ?u) [0..<?H div 2] (buffer @ ?hdr @ ?Y @ ?U @ ?z ?u)
      = Some (buffer @ ?hdr @ ?Y @ ?U @ ?V)"
    by (simp only: append_assoc append_Nil2)
  have b: "buffer @ ?hdr @ ?Y @ ?U @ ?V = buffer @ image_bytes (frame_image f)"
    by (simp add: image_bytes_def header_bytes_def w) (simp add: frame_image_def)
  show ?thesis
    unfolding serialize_frame_def Let_def w sizes r m c1 c2 c3 Option.bind.bind_lunit b ..
qed


section \<open>Decoding\<close>

definition decode_image :: "byte list \<Rightarrow> (image \<times> byte list) option" where
  "decode_image bs =
     (let w = of_le (take 4 (drop 8 bs)); h = of_le (take 4 (drop 12 bs));
          n = w * h; m = (w div 2) * (h div 2); body = drop 16 bs
      in if length bs < 16 + n + m + m then None
         else Some (\<lparr>im_pts = of_nat (of_le (take 8 bs)), im_width = w, im_height = h,
                      im_y = take n body, im_u = take m (drop n body),
                      im_v = take m (drop (n + m) body)\<rparr>,
                    drop (n + m + m) body))"

lemma decode_image_shorter:
  assumes "decode_image bs = Some (im, rest)"
  shows "length rest < length bs"
proof -
  obtain n m where "16 + n + m + m \<le> length bs" "rest = drop (n + m + m) (drop 16 bs)"
    using assms by (auto simp: decode_image_def Let_def not_less split: if_splits)
  then show ?thesis by simp
qed

function decode_batch :: "byte list \<Rightarrow> image list option" where
  "decode_batch bs =
     (if bs = [] then Some []
      else (case decode_image bs of
              None \<Rightarrow> None
            | Some (im, rest) \<Rightarrow> map_option (\<lambda>ims. im # ims) (decode_batch rest)))"
  by pat_completeness auto

termination decode_batch
  by (relation "measure length") (auto simp: decode_image_shorter)

declare decode_batch.simps [simp del]

definition image_ok :: "image \<Rightarrow> bool" where
  "image_ok im \<longleftrightarrow> im_width im < 2 ^ 32 \<and> im_height im < 2 ^ 32
     \<and> length (im_y im) = im_width im * im_height im
     \<and> length (im_u im) = (im_width im div 2) * (im_height im div 2)
     \<and> length (im_v im) = (im_width im div 2) * (im_height im div 2)"

lemma frame_image_ok: "frame_ok f \<Longrightarrow> image_ok (frame_image f)"
proof -
  assume ok: "frame_ok f"
  then have "nat (width f) < 2 ^ 32" "nat (height f) < 2 ^ 32" by (auto simp: frame_ok_def)
  with ok show ?thesis
    by (simp add: image_ok_def frame_image_def frame_ok_def length_plane_rows mult.commute
        del: One_nat_def)
qed

lemma decode_image_bytes:
  assumes "image_ok im"
  shows "decode_image (image_bytes im @ rest) = Some (im, rest)"
proof -
  let ?bs = "image_bytes im @ rest"
  have pts: "take 8 ?bs = le_bytes 8 (unat (im_pts im))"
    and w: "take 4 (drop 8 ?bs) = le_bytes 4 (im_width im)"
    and h: "take 4 (drop 12 ?bs) = le_bytes 4 (im_height im)"
    and body: "drop 16 ?bs = im_y im @ im_u im @ im_v im @ rest"
    by (simp_all add: image_bytes_def)
  have bounds: "im_width im < 256 ^ 4" "im_height im < 256 ^ 4" using assms by (simp_all add: image_ok_def)
  have nw: "of_le (le_bytes 4 (im_width im)) = im_width im"
    unfolding of_le_le_bytes by (rule mod_less [OF bounds(1)])
  have nh: "of_le (le_bytes 4 (im_height im)) = im_height im"
    unfolding of_le_le_bytes by (rule mod_less [OF bounds(2)])
  have np: "of_nat (of_le (le_bytes 8 (unat (im_pts im)))) = im_pts im"
  proof -
    have "unat (im_pts im) < 256 ^ 8" using unsigned_less [of "im_pts im"] by simp
    then show ?thesis unfolding of_le_le_bytes by simp
  qed
  have "length ?bs = 16 + im_width im * im_height im
      + (im_width im div 2) * (im_height im div 2) + (im_width im div 2) * (im_height im div 2)
      + length rest"
    using assms by (simp add: image_bytes_def image_ok_def)
  with assms show ?thesis
    unfolding decode_image_def Let_def pts w h body nw nh np
    by (cases im) (simp add: image_ok_def)
qed

lemma image_bytes_neq_Nil [simp]: "image_bytes im \<noteq> []"
proof -
  have "le_bytes 8 n \<noteq> []" for n
    by (metis length_le_bytes list.size(3) zero_neq_numeral)
  then show ?thesis by (simp add: image_bytes_def)
qed

lemma decode_batch_images:
  "list_all image_ok ims \<Longrightarrow> decode_batch (concat (map image_bytes ims)) = Some ims"
proof (induction ims)
  case Nil
  then show ?case by (simp add: decode_batch.simps)
next
  case (Cons im ims)
  then have "decode_image (image_bytes im @ concat (map image_bytes ims))
      = Some (im, concat (map image_bytes ims))"
    by (simp add: decode_image_bytes)
  with Cons show ?case
    by (subst decode_batch.simps) simp
qed

text \<open>Appending the frames of a batch one after the other.\<close>

fun serialize_frames :: "AVFrame list \<Rightarrow> byte list \<Rightarrow> byte list option" where
  "serialize_frames [] buffer = Some buffer"
| "serialize_frames (f # fs) buffer = Option.bind (serialize_frame f buffer) (serialize_frames fs)"

definition frames_bytes :: "AVFrame list \<Rightarrow> byte list" where
  "frames_bytes fs = concat (map (\<lambda>f. image_bytes (frame_image f)) fs)"

lemma serialize_frames_ok:
  "list_all frame_ok fs \<Longrightarrow> length buffer + length (frames_bytes fs) < 2 ^ 62 \<Longrightarrow>
   serialize_frames fs buffer = Some (buffer @ frames_bytes fs)"
proof (induction fs arbitrary: buffer)
  case Nil
  then show ?case by (simp add: frames_bytes_def)
next
  case (Cons f fs)
  have "serialize_frame f buffer = Some (buffer @ image_bytes (frame_image f))"
    using Cons.prems by (intro serialize_frame_ok) simp_all
  with Cons show ?case by (simp add: frames_bytes_def)
qed

text \<open>
  C15: the bytes of a batch are exactly the documented layout: for frames in the planar format
  that the code assumes, the row copies with their 32-bit arithmetic stay inside the planes and
  the buffer, and a consumer that reads header, Y, U and V planes one after the other recovers
  of every frame, in order, the time stamp, the size and the planes without their padding.
\<close>

theorem batch_roundtrip:
  assumes "list_all frame_ok fs" and "length (frames_bytes fs) < 2 ^ 62"
  shows "\<exists>buffer. serialize_frames fs [] = Some buffer
    \<and> decode_batch buffer = Some (map frame_image fs)"
proof -
  have "serialize_frames fs [] = Some (frames_bytes fs)"
    using serialize_frames_ok [OF assms(1), of "[]"] assms(2) by simp
  moreover have "list_all image_ok (map frame_image fs)"
    using assms(1) by (simp add: list_all_iff frame_image_ok)
  then have "decode_batch (frames_bytes fs) = Some (map frame_image fs)"
    using decode_batch_images [of "map frame_image fs"] by (simp add: frames_bytes_def o_def)
  ultimately show ?thesis by simp
qed

definition padded_frame :: AVFrame where
  "padded_frame =
     \<lparr>width = 2, height = 2, format = 0, pts = 258, linesize = [3, 2, 2],
      data = [[1, 2, 99, 3, 4, 99], [5, 99], [6, 99]], sample_aspect_ratio = \<lparr>num = 1, den = 1\<rparr>\<rparr>"

lemma padded_frame_ok: "frame_ok padded_frame"
  by (simp add: frame_ok_def padded_frame_def plane_ok_def plane_data_def plane_linesize_def
      less_Suc_eq numeral_3_eq_3)

theorem batch_roundtrip_witness:
  "\<exists>buffer. serialize_frames [padded_frame, padded_frame] [] = Some buffer
     \<and> map_option (map im_y) (decode_batch buffer) = Some [[1, 2, 3, 4], [1, 2, 3, 4]]"
proof -
  have "list_all frame_ok [padded_frame, padded_frame]" by (simp add: padded_frame_ok)
  moreover have "length (frames_bytes [padded_frame, padded_frame]) < 2 ^ 62"
    by (simp add: frames_bytes_def image_bytes_def frame_image_def padded_frame_def plane_rows_def
        plane_data_def plane_linesize_def upt_rec)
  moreover have "im_y (frame_image padded_frame) = [1, 2, 3, 4]"
    by (simp add: frame_image_def padded_frame_def plane_rows_def plane_data_def plane_linesize_def
        upt_rec)
  ultimately show ?thesis using batch_roundtrip [of "[padded_frame, padded_frame]"] by auto
qed

end
