(* ===== verification/Publisher.thy ===== *)
theory Publisher
  imports Fifo Handles FrameCodec
begin

text \<open>
  \<open>src/src/components/publisher\<close>: the constructor, the batching thread with its map of open
  batches, the publishing threads with their Redis connection, and the shutdown. The uninitialised
  and unused \<open>width\<close> and \<open>height\<close> of \<open>FrameBatch\<close> are left out. The answers of Redis in an
  iteration are the record \<open>publish_calls\<close>.
\<close>

section \<open>Construction\<close>

record Publisher =
  batch_threshold :: "64 word"
  redis_target :: "(string \<times> int \<times> string) option"
  publisher_threads :: nat

definition publisher_ctor :: "environment \<Rightarrow> stdexc + Publisher" where
  "publisher_ctor env =
     rbind (stoi (get_env env ''FP_QUEUE_WARNING_THRESHOLD'' ''1000'')) (\<lambda>threshold.
       let redis_host = get_env env ''FP_REDIS_HOST'' []
       in rbind (stoi (get_env env ''FP_PUBLISHER_THREADS'' ''4'')) (\<lambda>num_threads.
            if redis_host = []
            then Inr \<lparr>batch_threshold = of_int threshold, redis_target = None, publisher_threads = 0\<rparr>
            else rbind (stoi (get_env env ''FP_REDIS_PORT'' ''6379'')) (\<lambda>redis_port.
                   Inr \<lparr>batch_threshold = of_int threshold,
                        redis_target = Some (redis_host, redis_port,
                          get_env env ''FP_REDIS_QUEUE_BASE_NAME'' ''fp_batches''),
                        publisher_threads = nat (max 1 num_threads)\<rparr>)))"

section \<open>Batching\<close>

record FrameBatch =
  fb_stream_id :: int
  fb_event_name :: string
  frame_count :: int
  data_buffer :: "byte list"

record batcher =
  current_batches :: "(int \<times> string, FrameBatch) smap"
  batch_queue :: "FrameBatch fifo"

definition batch_key :: "DecodedFrame \<Rightarrow> int \<times> string" where
  "batch_key d = (st_id (source_config d), ev_name (event_config d))"

definition new_batch :: "DecodedFrame \<Rightarrow> FrameBatch" where
  "new_batch d =
     \<lparr>fb_stream_id = st_id (source_config d), fb_event_name = ev_name (event_config d),
      frame_count = 0, data_buffer = []\<rparr>"

text \<open>\<open>None\<close> is undefined behaviour of the row copies.\<close>

definition batch_frame :: "int \<Rightarrow> DecodedFrame \<Rightarrow> batcher \<Rightarrow> batcher option" where
  "batch_frame now d b =
     (let key = batch_key d;
          batch = (case map_of (current_batches b) key of
                     None \<Rightarrow> new_batch d | Some found \<Rightarrow> found)
      in (case serialize_frame (frame d) (data_buffer batch) of
            None \<Rightarrow> None
          | Some buffer \<Rightarrow>
              let batch1 = batch\<lparr>data_buffer := buffer, frame_count := frame_count batch + 1\<rparr>
              in if frame_count batch1 \<ge> batch_size (event_config d)
                 then Some (b\<lparr>batch_queue := push now batch1 (batch_queue b),
                              current_batches := smap_erase key (current_batches b)\<rparr>)
                 else Some (b\<lparr>current_batches := smap_insert key batch1 (current_batches b)\<rparr>)))"

definition flush_batches :: "int \<Rightarrow> batcher \<Rightarrow> batcher" where
  "flush_batches now b =
     b\<lparr>current_batches := [],
       batch_queue := fold (\<lambda>(key, fb) q. if frame_count fb > 0 then push now fb q else q)
         (current_batches b) (batch_queue b)\<rparr>"

fun batching_loop ::
  "(bool \<times> int) list \<Rightarrow> DecodedFrame fifo \<Rightarrow> batcher
     \<Rightarrow> (loop_state \<times> DecodedFrame fifo \<times> batcher) option" where
  "batching_loop [] inq b = Some (LoopRunning, inq, b)"
| "batching_loop ((stop_requested, now) # es) inq b =
     (if stop_requested then Some (LoopEnded, inq, flush_batches now b)
      else (case wait_and_pop inq of
              WouldBlock \<Rightarrow> Some (LoopWaiting, inq, b)
            | Nullopt \<Rightarrow> Some (LoopEnded, inq, flush_batches now b)
            | Popped d inq' \<Rightarrow>
                Option.bind (batch_frame now d b) (\<lambda>b'. batching_loop es inq' b')))"

section \<open>Publishing\<close>

record publish_calls =
  pub_now :: int
  connect :: "(nat \<times> bool) option"
  replied :: bool

datatype publish_event =
  XAdd string string "byte list" | XAddFailed string string "byte list"
| DryRun int string | SleepFor int | RedisFree nat

record publisher_thread =
  redis_conn :: "RedisConnection option"
  send_queue :: "FrameBatch fifo"
  events_log :: "publish_event list"

definition redis_key :: "string \<Rightarrow> int \<Rightarrow> string" where
  "redis_key base stream_id = base @ '':'' @ show_int stream_id"

definition connection_ready :: "publish_calls \<Rightarrow> publisher_thread \<Rightarrow> publisher_thread \<times> bool" where
  "connection_ready e t =
     (case redis_conn t of
        Some c \<Rightarrow>
          if is_valid c then (t, True)
          else (case redis_ctor (connect e) of (c', freed) \<Rightarrow>
                  (t\<lparr>redis_conn := Some c', events_log := events_log t @ map RedisFree freed\<rparr>,
                   is_valid c'))
      | None \<Rightarrow>
          (case redis_ctor (connect e) of (c', freed) \<Rightarrow>
             (t\<lparr>redis_conn := Some c', events_log := events_log t @ map RedisFree freed\<rparr>,
              is_valid c')))"

definition drop_connection :: "publisher_thread \<Rightarrow> publisher_thread" where
  "drop_connection t =
     t\<lparr>redis_conn := None,
       events_log := events_log t @
         (case redis_conn t of None \<Rightarrow> [] | Some c \<Rightarrow> map RedisFree (redis_dtor c))\<rparr>"

definition requeue :: "publish_calls \<Rightarrow> FrameBatch \<Rightarrow> int \<Rightarrow> publisher_thread \<Rightarrow> publisher_thread" where
  "requeue e batch ms t =
     t\<lparr>send_queue := push (pub_now e) batch (send_queue t),
       events_log := events_log t @ [SleepFor ms]\<rparr>"

definition publish_batch ::
  "bool \<Rightarrow> int \<Rightarrow> string \<Rightarrow> publish_calls \<Rightarrow> FrameBatch \<Rightarrow> publisher_thread \<Rightarrow> publisher_thread" where
  "publish_batch dry_run_mode dry_run_delay_ms base e batch t =
     (if dry_run_mode
      then t\<lparr>events_log := events_log t @ [DryRun (fb_stream_id batch) (fb_event_name batch),
                                            SleepFor dry_run_delay_ms]\<rparr>
      else (case connection_ready e t of (t1, ready) \<Rightarrow>
         if \<not> ready then requeue e batch 250 t1
         else (case Option.bind (redis_conn t1) redis_get of
                 None \<Rightarrow> requeue e batch 250 (drop_connection t1)
               | Some ctx \<Rightarrow>
                   let key = redis_key base (fb_stream_id batch)
                   in if \<not> replied e
                      then requeue e batch 500 (drop_connection
                             (t1\<lparr>events_log := events_log t1
                                 @ [XAddFailed key (fb_event_name batch) (data_buffer batch)]\<rparr>))
                      else t1\<lparr>events_log := events_log t1
                                 @ [XAdd key (fb_event_name batch) (data_buffer batch)]\<rparr>)))"

fun publisher_loop ::
  "bool \<Rightarrow> int \<Rightarrow> string \<Rightarrow> (bool \<times> publish_calls) list \<Rightarrow> publisher_thread
     \<Rightarrow> loop_state \<times> publisher_thread" where
  "publisher_loop dry ms base [] t = (LoopRunning, t)"
| "publisher_loop dry ms base ((stop_requested, e) # es) t =
     (if stop_requested then (LoopEnded, t)
      else (case wait_and_pop (send_queue t) of
              WouldBlock \<Rightarrow> (LoopWaiting, t)
            | Nullopt \<Rightarrow> (LoopEnded, t)
            | Popped batch q' \<Rightarrow>
                publisher_loop dry ms base es
                  (publish_batch dry ms base e batch (t\<lparr>send_queue := q'\<rparr>))))"

text \<open>The state in which a publishing thread enters its loop, after its first connection attempt.\<close>

definition publisher_start ::
  "environment \<Rightarrow> (nat \<times> bool) option \<Rightarrow> FrameBatch fifo \<Rightarrow> stdexc + (bool \<times> int \<times> publisher_thread)"
where
  "publisher_start env conn_res q =
     rbind (stoi (get_env env ''FP_PUBLISHER_DRY_RUN_DELAY_MS'' ''10'')) (\<lambda>delay.
       case redis_ctor conn_res of (c, freed) \<Rightarrow>
         Inr (get_env env ''FP_PUBLISHER_DRY_RUN'' ''false'' = ''true'', delay,
              \<lparr>redis_conn = Some c, send_queue = q, events_log = map RedisFree freed\<rparr>))"

text \<open>
  \<open>stop\<close>: stop the input queue, join the batching thread (which performs the iterations \<open>es\<close>,
  enough of them for it to end), stop the batch queue.
\<close>

definition publisher_stop ::
  "Publisher \<Rightarrow> (bool \<times> int) list \<Rightarrow> DecodedFrame fifo \<Rightarrow> batcher
     \<Rightarrow> (DecodedFrame fifo \<times> batcher) option" where
  "publisher_stop p es inq b =
     (if redis_target p = None then Some (inq, b)
      else (case batching_loop es (fifo_stop inq) b of
              Some (LoopEnded, inq', b') \<Rightarrow>
                Some (inq', b'\<lparr>batch_queue := fifo_stop (batch_queue b')\<rparr>)
            | _ \<Rightarrow> None))"

section \<open>Batches and their frames\<close>

text \<open>The batch invariant: a stored batch is nonempty and carries its key.\<close>

definition batch_inv :: "batcher \<Rightarrow> bool" where
  "batch_inv b \<longleftrightarrow> smap_inv (current_batches b)
     \<and> (\<forall>k fb. map_of (current_batches b) k = Some fb
          \<longrightarrow> (fb_stream_id fb, fb_event_name fb) = k \<and> 0 < frame_count fb)"

abbreviation key_of_batch :: "FrameBatch \<Rightarrow> int \<times> string" where
  "key_of_batch fb \<equiv> (fb_stream_id fb, fb_event_name fb)"

definition queued_bytes :: "int \<times> string \<Rightarrow> batcher \<Rightarrow> byte list" where
  "queued_bytes k b = concat (map data_buffer (filter (\<lambda>fb. key_of_batch fb = k) (queue (batch_queue b))))"

definition pending_bytes :: "int \<times> string \<Rightarrow> batcher \<Rightarrow> byte list" where
  "pending_bytes k b = (case map_of (current_batches b) k of None \<Rightarrow> [] | Some fb \<Rightarrow> data_buffer fb)"

definition key_frames :: "int \<times> string \<Rightarrow> DecodedFrame list \<Rightarrow> AVFrame list" where
  "key_frames k ds = map frame (filter (\<lambda>d. batch_key d = k) ds)"

lemma batch_frame_step:
  assumes "batch_inv b" and "frame_ok (frame d)" and "\<not> stopped (batch_queue b)"
    and "length (pending_bytes (batch_key d) b) < 2 ^ 62"
  shows "\<exists>b'. batch_frame now d b = Some b' \<and> batch_inv b' \<and> \<not> stopped (batch_queue b')
    \<and> (\<forall>k. queued_bytes k b' @ pending_bytes k b'
         = queued_bytes k b @ pending_bytes k b
           @ (if k = batch_key d then image_bytes (frame_image (frame d)) else []))"
proof -
  let ?k = "batch_key d"
  define batch where "batch = (case map_of (current_batches b) ?k of None \<Rightarrow> new_batch d | Some fb \<Rightarrow> fb)"
  have pend: "data_buffer batch = pending_bytes ?k b"
    by (simp add: batch_def pending_bytes_def new_batch_def split: option.splits)
  have kb: "key_of_batch batch = ?k" "0 \<le> frame_count batch"
    using assms(1)
    by (fastforce simp: batch_def new_batch_def batch_key_def batch_inv_def split: option.splits)+
  have ser: "serialize_frame (frame d) (data_buffer batch)
      = Some (pending_bytes ?k b @ image_bytes (frame_image (frame d)))"
    using serialize_frame_ok [OF assms(2), of "data_buffer batch"] assms(4) by (simp add: pend)
  define batch1 where "batch1 = batch\<lparr>data_buffer := pending_bytes ?k b
      @ image_bytes (frame_image (frame d)), frame_count := frame_count batch + 1\<rparr>"
  have k1: "key_of_batch batch1 = ?k" "0 < frame_count batch1"
    using kb by (simp_all add: batch1_def)
  have inv: "smap_inv (current_batches b)" using assms(1) by (simp add: batch_inv_def)
  show ?thesis
  proof (cases "batch_size (event_config d) \<le> frame_count batch1")
    case True
    let ?b = "b\<lparr>batch_queue := push now batch1 (batch_queue b),
                current_batches := smap_erase ?k (current_batches b)\<rparr>"
    have "batch_frame now d b = Some ?b"
      using True ser by (simp add: batch_frame_def Let_def batch_def [symmetric] batch1_def)
    moreover have "batch_inv ?b"
      using assms(1) by (auto simp: batch_inv_def smap_inv_erase smap_find_erase)
    moreover have "queued_bytes k ?b @ pending_bytes k ?b = queued_bytes k b @ pending_bytes k b
        @ (if k = ?k then image_bytes (frame_image (frame d)) else [])" for k
      using assms(3) k1(1) by (auto simp: queued_bytes_def pending_bytes_def smap_find_erase batch1_def)
    ultimately show ?thesis using assms(3) by (auto simp: stopped_push)
  next
    case False
    let ?b = "b\<lparr>current_batches := smap_insert ?k batch1 (current_batches b)\<rparr>"
    have "batch_frame now d b = Some ?b"
      using False ser by (simp add: batch_frame_def Let_def batch_def [symmetric] batch1_def)
    moreover have "batch_inv ?b"
      using assms(1) k1 inv
      by (auto simp: batch_inv_def smap_inv_insert smap_find_insert simp del: split_paired_All)
    moreover have "queued_bytes k ?b @ pending_bytes k ?b = queued_bytes k b @ pending_bytes k b
        @ (if k = ?k then image_bytes (frame_image (frame d)) else [])" for k
      using inv by (auto simp: queued_bytes_def pending_bytes_def smap_find_insert batch1_def)
    ultimately show ?thesis using assms(3) by auto
  qed
qed


lemma flush_list:
  "distinct (map fst kbs) \<Longrightarrow> \<forall>(key, fb) \<in> set kbs. key_of_batch fb = key \<and> 0 < frame_count fb \<Longrightarrow>
   \<not> stopped q \<Longrightarrow>
   concat (map data_buffer (filter (\<lambda>fb. key_of_batch fb = k)
       (queue (fold (\<lambda>(key, fb) q. if frame_count fb > 0 then push now fb q else q) kbs q))))
   = concat (map data_buffer (filter (\<lambda>fb. key_of_batch fb = k) (queue q)))
     @ (case map_of kbs k of None \<Rightarrow> [] | Some fb \<Rightarrow> data_buffer fb)"
proof (induction kbs arbitrary: q)
  case Nil
  then show ?case by simp
next
  case (Cons p kbs)
  obtain key fb where p: "p = (key, fb)" by (cases p)
  have "\<not> stopped (push now fb q)" using Cons.prems(3) by (simp add: stopped_push)
  moreover have "map_of kbs key = None" using Cons.prems(1) p by (simp add: map_of_eq_None_iff)
  ultimately show ?case
    using Cons.IH [of "push now fb q"] Cons.prems p by (auto simp: fun_upd_def)
qed

lemma flush_bytes:
  assumes "batch_inv b" and "\<not> stopped (batch_queue b)"
  shows "queued_bytes k (flush_batches now b) = queued_bytes k b @ pending_bytes k b"
proof -
  have inv: "smap_inv (current_batches b)" using assms(1) by (simp add: batch_inv_def)
  have "\<forall>(key, fb) \<in> set (current_batches b). key_of_batch fb = key \<and> 0 < frame_count fb"
    using assms(1) smap_in_find [OF inv] unfolding batch_inv_def by blast
  from flush_list [OF smap_inv_distinct [OF inv] this assms(2)] show ?thesis
    by (simp add: queued_bytes_def pending_bytes_def flush_batches_def)
qed

lemma frames_bytes_Cons: "frames_bytes (f # fs) = image_bytes (frame_image f) @ frames_bytes fs"
  by (simp add: frames_bytes_def)

lemma key_frames_Cons:
  "key_frames k (d # ds) = (if k = batch_key d then frame d # key_frames k ds else key_frames k ds)"
  by (simp add: key_frames_def)

lemma batching_loop_ended:
  "batching_loop es inq b = Some (LoopEnded, inq', b') \<Longrightarrow> current_batches b' = [] \<and> stopped inq' = stopped inq"
  by (induction es inq b rule: batching_loop.induct)
    (auto simp: flush_batches_def wait_and_pop_Popped split: if_splits pop_result.splits bind_split_asm)

lemma publisher_stop_result:
  "publisher_stop p es inq b = Some (inq', b') \<Longrightarrow> redis_target p \<noteq> None \<Longrightarrow>
   current_batches b' = [] \<and> stopped (batch_queue b') \<and> stopped inq'"
  using batching_loop_ended [of es "fifo_stop inq" b]
  by (auto simp: publisher_stop_def split: option.splits loop_state.splits)

lemma publisher_stop_now: "publisher_stop p [(True, now)] inq b \<noteq> None"
  by (simp add: publisher_stop_def)

definition room_for :: "batcher \<Rightarrow> DecodedFrame list \<Rightarrow> bool" where
  "room_for b ds \<longleftrightarrow>
     (\<forall>k. length (queued_bytes k b @ pending_bytes k b) + length (frames_bytes (key_frames k ds)) < 2 ^ 62)"

lemma batching_loop_drains:
  "stopped inq \<Longrightarrow> length (queue inq) < length es \<Longrightarrow> list_all (\<lambda>(stop, now). \<not> stop) es \<Longrightarrow>
   list_all (\<lambda>d. frame_ok (frame d)) (queue inq) \<Longrightarrow> batch_inv b \<Longrightarrow> \<not> stopped (batch_queue b) \<Longrightarrow>
   room_for b (queue inq) \<Longrightarrow>
   \<exists>inq' b'. batching_loop es inq b = Some (LoopEnded, inq', b') \<and> current_batches b' = []
     \<and> (\<forall>k. queued_bytes k b' = queued_bytes k b @ pending_bytes k b
           @ frames_bytes (key_frames k (queue inq)))"
proof (induction es arbitrary: inq b)
  case Nil
  then show ?case by simp
next
  case (Cons p es)
  obtain now where p: "p = (False, now)" using Cons.prems(3) by (cases p) auto
  show ?case
  proof (cases "queue inq")
    case Nil
    have "current_batches (flush_batches now b) = []" by (simp add: flush_batches_def)
    then show ?thesis
      using Nil p Cons.prems(1) flush_bytes [OF Cons.prems(5,6)]
      by (simp add: wait_and_pop_def key_frames_def frames_bytes_def)
  next
    case (Cons d ds)
    obtain inq1 where pop: "wait_and_pop inq = Popped d inq1" "queue inq1 = ds" "stopped inq1"
      using fq.pop_item [OF Cons] Cons.prems(1) by auto
    have "length (pending_bytes (batch_key d) b) < 2 ^ 62"
    proof -
      have "length (queued_bytes (batch_key d) b @ pending_bytes (batch_key d) b)
          + length (frames_bytes (key_frames (batch_key d) (queue inq))) < 2 ^ 62"
        using Cons.prems(7) unfolding room_for_def by (rule spec)
      then show ?thesis by simp
    qed
    then obtain b1 where b1: "batch_frame now d b = Some b1" "batch_inv b1"
        "\<not> stopped (batch_queue b1)"
        and bytes: "\<And>k. queued_bytes k b1 @ pending_bytes k b1 = queued_bytes k b @ pending_bytes k b
           @ (if k = batch_key d then image_bytes (frame_image (frame d)) else [])"
      using batch_frame_step [OF Cons.prems(5) _ Cons.prems(6), of d now] Cons.prems(4) Cons
      by auto
    have lens: "length (queued_bytes k b1 @ pending_bytes k b1) + length (frames_bytes (key_frames k ds))
        = length (queued_bytes k b @ pending_bytes k b)
          + length (frames_bytes (key_frames k (queue inq)))" for k
      unfolding bytes by (simp add: Cons key_frames_Cons frames_bytes_Cons)
    have "room_for b1 ds" using Cons.prems(7) unfolding room_for_def lens .
    then obtain inq' b' where "batching_loop es inq1 b1 = Some (LoopEnded, inq', b')"
        "current_batches b' = []"
        and q: "\<And>k. queued_bytes k b' = queued_bytes k b1 @ pending_bytes k b1
           @ frames_bytes (key_frames k ds)"
      using Cons.IH [OF pop(3) _ _ _ b1(2,3)] pop(2) Cons.prems Cons by auto
    moreover have "queued_bytes k b' = queued_bytes k b @ pending_bytes k b
        @ frames_bytes (key_frames k (queue inq))" for k
      using q [of k] bytes [of k]
      by (simp add: Cons key_frames_Cons frames_bytes_Cons append_assoc [symmetric] del: append_assoc)
    ultimately show ?thesis using p pop(1) b1(1) by simp
  qed
qed

lemma batching_loop_emptied:
  "batching_loop es inq b = Some (LoopEnded, inq', b') \<Longrightarrow> list_all (\<lambda>(stop, now). \<not> stop) es \<Longrightarrow>
   queue inq' = []"
  by (induction es inq b rule: batching_loop.induct)
    (auto simp: wait_and_pop_def bind_eq_Some_conv split: pop_result.splits list.splits if_splits)

definition empty_batcher :: "FrameBatch fifo \<Rightarrow> batcher" where
  "empty_batcher q = \<lparr>current_batches = [], batch_queue = q\<rparr>"

lemma decode_frames_bytes:
  "list_all frame_ok fs \<Longrightarrow> decode_batch (frames_bytes fs) = Some (map frame_image fs)"
  using decode_batch_images [of "map frame_image fs"]
  by (simp add: frames_bytes_def o_def list_all_iff frame_image_ok)

lemma batching_loop_from_empty:
  assumes "stopped inq" and "length (queue inq) < length es" and "list_all (\<lambda>(stop, now). \<not> stop) es"
    and "list_all (\<lambda>d. frame_ok (frame d)) (queue inq)"
    and "room_for (empty_batcher (fifo_new thr nm)) (queue inq)"
  shows "\<exists>inq' b'. batching_loop es inq (empty_batcher (fifo_new thr nm)) = Some (LoopEnded, inq', b')
    \<and> current_batches b' = [] \<and> (\<forall>k. queued_bytes k b' = frames_bytes (key_frames k (queue inq)))"
proof -
  let ?b = "empty_batcher (fifo_new thr nm)"
  have b: "batch_inv ?b" "\<not> stopped (batch_queue ?b)"
    by (simp_all add: batch_inv_def empty_batcher_def fifo_new_def)
  have e: "queued_bytes k ?b = []" "pending_bytes k ?b = []" for k
    by (simp_all add: queued_bytes_def pending_bytes_def empty_batcher_def fifo_new_def)
  from batching_loop_drains [OF assms(1-4) b assms(5)] show ?thesis unfolding e append_Nil .
qed

section \<open>Properties\<close>

text \<open>
  the batching thread loses, duplicates and reorders nothing: when its input queue is stopped
  and its own stop comes later, it takes every queued frame, ends with no open batch, and for
  every stream and event the data of the batches it has queued, put one after the other, decodes
  to exactly the frames of that stream and event, in order.
\<close>

theorem batching_preserves_frames:
  assumes "stopped inq" and "length (queue inq) < length es" and "list_all (\<lambda>(stop, now). \<not> stop) es"
    and "list_all (\<lambda>d. frame_ok (frame d)) (queue inq)"
    and "room_for (empty_batcher (fifo_new thr nm)) (queue inq)"
  shows "\<exists>inq' b'. batching_loop es inq (empty_batcher (fifo_new thr nm)) = Some (LoopEnded, inq', b')
    \<and> current_batches b' = []
    \<and> (\<forall>k. decode_batch (concat (map data_buffer (filter (\<lambda>fb. key_of_batch fb = k)
                                    (queue (batch_queue b')))))
          = Some (map frame_image (key_frames k (queue inq))))"
proof -
  have "decode_batch (frames_bytes (key_frames k (queue inq)))
      = Some (map frame_image (key_frames k (queue inq)))" for k
    using assms(4) by (intro decode_frames_bytes) (auto simp: list_all_iff key_frames_def)
  moreover obtain inq' b' where r: "batching_loop es inq (empty_batcher (fifo_new thr nm))
      = Some (LoopEnded, inq', b')" "current_batches b' = []"
      "\<forall>k. queued_bytes k b' = frames_bytes (key_frames k (queue inq))"
    using batching_loop_from_empty [OF assms] by (elim exE conjE)
  ultimately have "\<forall>k. decode_batch (queued_bytes k b') = Some (map frame_image (key_frames k (queue inq)))"
    by simp
  with r(1,2) show ?thesis unfolding queued_bytes_def by blast
qed

definition sample_decoded :: "string \<Rightarrow> DecodedFrame" where
  "sample_decoded nm =
     \<lparr>frame = padded_frame,
      source_config =
        \<lparr>st_id = 7, url = ''rtsp://a'', target_fps = 5, wait_for_keyframe = False, enabled = True,
         processing = default_processing, events = []\<rparr>,
      event_config = default_event\<lparr>ev_name := nm, batch_size := 2\<rparr>,
      time_base = \<lparr>num = 1, den = 90000\<rparr>\<rparr>"

definition sample_queue :: "DecodedFrame fifo" where
  "sample_queue = fifo_stop (push 1 (sample_decoded ''b'') (push 1 (sample_decoded ''a'') (fifo_new 9 ''q'')))"

lemma sample_queue_fits:
  "queue sample_queue = [sample_decoded ''a'', sample_decoded ''b'']" "stopped sample_queue"
  "list_all (\<lambda>d. frame_ok (frame d)) (queue sample_queue)"
  "room_for (empty_batcher (fifo_new 9 ''b'')) (queue sample_queue)"
proof -
  show q: "queue sample_queue = [sample_decoded ''a'', sample_decoded ''b'']" "stopped sample_queue"
    by (simp_all add: sample_queue_def fifo_stop_def fifo_new_def stopped_push)
  have f: "frame (sample_decoded nm) = padded_frame" "batch_key (sample_decoded nm) = (7, nm)" for nm
    by (simp_all add: sample_decoded_def batch_key_def)
  have len: "length (image_bytes (frame_image padded_frame)) = 22"
    using frame_image_ok [OF padded_frame_ok]
    by (simp add: image_bytes_def image_ok_def) (simp add: frame_image_def padded_frame_def)
  show "room_for (empty_batcher (fifo_new 9 ''b'')) (queue sample_queue)"
    by (simp add: room_for_def q f key_frames_def frames_bytes_def len queued_bytes_def
        pending_bytes_def empty_batcher_def fifo_new_def del: split_paired_All)
  show "list_all (\<lambda>d. frame_ok (frame d)) (queue sample_queue)"
    by (simp add: q f padded_frame_ok)
qed

abbreviation (input) sample_iterations :: "(bool \<times> int) list" where
  "sample_iterations \<equiv> [(False, 1), (False, 2), (False, 3)]"

lemma sample_batching:
  "\<exists>inq' b'. batching_loop sample_iterations sample_queue (empty_batcher (fifo_new 9 ''b''))
     = Some (LoopEnded, inq', b')"
  using batching_loop_from_empty [of sample_queue sample_iterations 9 "''b''"] sample_queue_fits
  by auto

theorem batching_preserves_frames_witness:
  "\<exists>inq' b'. batching_loop sample_iterations sample_queue (empty_batcher (fifo_new 9 ''b''))
       = Some (LoopEnded, inq', b')
     \<and> decode_batch (concat (map data_buffer (filter (\<lambda>fb. key_of_batch fb = (7, ''a''))
          (queue (batch_queue b'))))) = Some [frame_image padded_frame]"
proof -
  obtain inq' b' where
    "batching_loop sample_iterations sample_queue (empty_batcher (fifo_new 9 ''b''))
       = Some (LoopEnded, inq', b')"
    "\<forall>k. decode_batch (concat (map data_buffer (filter (\<lambda>fb. key_of_batch fb = k)
                                    (queue (batch_queue b')))))
          = Some (map frame_image (key_frames k (queue sample_queue)))"
    using batching_preserves_frames [of sample_queue sample_iterations 9 "''b''"] sample_queue_fits
    by auto
  moreover have "key_frames (7, ''a'') (queue sample_queue) = [padded_frame]"
    by (simp add: sample_queue_fits(1) key_frames_def sample_decoded_def batch_key_def)
  ultimately show ?thesis by (metis list.simps(8,9))
qed

text \<open>The sizes of the batches.\<close>

definition sizes_inv :: "int \<Rightarrow> batcher \<Rightarrow> bool" where
  "sizes_inv n b \<longleftrightarrow>
     list_all (\<lambda>p. 0 < frame_count (snd p) \<and> frame_count (snd p) < n) (current_batches b)
     \<and> list_all (\<lambda>fb. 0 < frame_count fb \<and> frame_count fb \<le> n) (queue (batch_queue b))"

lemma smap_insert_all: "list_all P m \<Longrightarrow> P (k, v) \<Longrightarrow> list_all P (smap_insert k v m)"
  by (induction k v m rule: smap_insert.induct) auto

lemma smap_erase_all: "list_all P m \<Longrightarrow> list_all P (smap_erase k m)"
  by (auto simp: smap_erase_def list_all_iff)

lemma batch_frame_sizes:
  assumes "sizes_inv n b" and "batch_frame now d b = Some b'" and "batch_size (event_config d) \<le> n"
    and "1 \<le> n"
  shows "sizes_inv n b'"
proof -
  define batch where
    "batch = (case map_of (current_batches b) (batch_key d) of None \<Rightarrow> new_batch d | Some fb \<Rightarrow> fb)"
  have c: "0 \<le> frame_count batch" "frame_count batch < n"
    using assms(1,4) map_of_SomeD [of "current_batches b" "batch_key d"]
    by (fastforce simp: batch_def sizes_inv_def new_batch_def list_all_iff split: option.splits)+
  obtain buffer where ser: "serialize_frame (frame d) (data_buffer batch) = Some buffer"
    using assms(2) by (auto simp: batch_frame_def Let_def batch_def [symmetric] split: option.splits)
  show ?thesis
    using assms(1-3) c ser
    by (auto simp: batch_frame_def Let_def batch_def [symmetric] sizes_inv_def smap_insert_all
        smap_erase_all split: if_splits)
qed

lemma flush_sizes: "sizes_inv n b \<Longrightarrow> sizes_inv n (flush_batches now b)"
proof -
  have "list_all (\<lambda>p. 0 < frame_count (snd p) \<and> frame_count (snd p) < n) kbs \<Longrightarrow>
      list_all (\<lambda>fb. 0 < frame_count fb \<and> frame_count fb \<le> n) (queue q) \<Longrightarrow>
      list_all (\<lambda>fb. 0 < frame_count fb \<and> frame_count fb \<le> n)
        (queue (fold (\<lambda>(key, fb) q. if frame_count fb > 0 then push now fb q else q) kbs q))"
    for kbs :: "((int \<times> string) \<times> FrameBatch) list" and q
    by (induction kbs arbitrary: q) auto
  then show "sizes_inv n b \<Longrightarrow> sizes_inv n (flush_batches now b)"
    by (simp add: sizes_inv_def flush_batches_def)
qed

lemma batching_loop_sizes:
  "batching_loop es inq b = Some (st, inq', b') \<Longrightarrow> sizes_inv n b \<Longrightarrow> 1 \<le> n \<Longrightarrow>
   list_all (\<lambda>d. batch_size (event_config d) \<le> n) (queue inq) \<Longrightarrow> sizes_inv n b'"
proof (induction es inq b arbitrary: st inq' b' rule: batching_loop.induct)
  case (1 inq b)
  then show ?case by simp
next
  case (2 stop now es inq b)
  show ?case
  proof (cases "stop \<or> queue inq = []")
    case True
    then show ?thesis
      using 2(2,3) flush_sizes by (auto simp: wait_and_pop_def split: if_splits)
  next
    case False
    then obtain d ds inq1 where d: "queue inq = d # ds" "wait_and_pop inq = Popped d inq1"
        "queue inq1 = ds"
      using fq.pop_item by (metis neq_Nil_conv)
    with False 2(2) obtain b1 where b1: "batch_frame now d b = Some b1"
        "batching_loop es inq1 b1 = Some (st, inq', b')"
      by (auto simp: bind_eq_Some_conv)
    have "sizes_inv n b1" using batch_frame_sizes [OF 2(3) b1(1)] 2(4,5) d(1) by simp
    then show ?thesis using 2(1) [OF _ d(2) b1] False 2(4,5) d by simp
  qed
qed

text \<open>
  C26: no batch is empty and none holds more frames than the largest batch size in force (one,
  where sizes are not positive), whether it was full or flushed at the end.
\<close>

theorem batch_sizes_bounded:
  assumes "batching_loop es inq (empty_batcher (fifo_new thr nm)) = Some (st, inq', b')"
    and "list_all (\<lambda>d. batch_size (event_config d) \<le> n) (queue inq)" and "1 \<le> n"
  shows "list_all (\<lambda>fb. 1 \<le> frame_count fb \<and> frame_count fb \<le> n) (queue (batch_queue b'))"
proof -
  have "sizes_inv n (empty_batcher (fifo_new thr nm))"
    by (simp add: sizes_inv_def empty_batcher_def fifo_new_def)
  from batching_loop_sizes [OF assms(1) this assms(3,2)] show ?thesis
    by (auto simp: sizes_inv_def list_all_iff)
qed

theorem batch_sizes_bounded_witness:
  "\<exists>st inq' b'. batching_loop [(False, 1), (False, 2), (False, 3)] sample_queue
        (empty_batcher (fifo_new 9 ''b'')) = Some (st, inq', b')
     \<and> list_all (\<lambda>fb. 1 \<le> frame_count fb \<and> frame_count fb \<le> 2) (queue (batch_queue b'))"
proof -
  have n: "list_all (\<lambda>d. batch_size (event_config d) \<le> 2) (queue sample_queue)"
    by (simp add: sample_queue_fits(1) sample_decoded_def)
  obtain st inq' b' where r: "batching_loop [(False, 1), (False, 2), (False, 3)] sample_queue
        (empty_batcher (fifo_new 9 ''b'')) = Some (st, inq', b')"
    using sample_batching by (elim exE conjE)
  have "(1 :: int) \<le> 2" by simp
  from r batch_sizes_bounded [OF r n this] show ?thesis by blast
qed

text \<open>Delivery: the commands that Redis answered, and the batches still queued.\<close>

definition command_of :: "string \<Rightarrow> FrameBatch \<Rightarrow> string \<times> string \<times> byte list" where
  "command_of base fb = (redis_key base (fb_stream_id fb), fb_event_name fb, data_buffer fb)"

definition delivered :: "publish_event list \<Rightarrow> (string \<times> string \<times> byte list) list" where
  "delivered evs = List.map_filter
     (\<lambda>v. case v of XAdd key nm d \<Rightarrow> Some (key, nm, d) | _ \<Rightarrow> None) evs"

lemma delivered_append [simp]: "delivered (xs @ ys) = delivered xs @ delivered ys"
  by (simp add: delivered_def List.map_filter_def)

lemma delivered_simps [simp]:
  "delivered [] = []" "delivered (XAdd key nm d # evs) = (key, nm, d) # delivered evs"
  "delivered (XAddFailed key nm d # evs) = delivered evs" "delivered (DryRun i nm # evs) = delivered evs"
  "delivered (SleepFor ms # evs) = delivered evs" "delivered (RedisFree c # evs) = delivered evs"
  by (simp_all add: delivered_def List.map_filter_def)

lemma delivered_frees [simp]: "delivered (map RedisFree cs) = []"
  by (induction cs) simp_all

definition accounted :: "string \<Rightarrow> publisher_thread \<Rightarrow> (string \<times> string \<times> byte list) multiset" where
  "accounted base t = mset (delivered (events_log t)) + mset (map (command_of base) (queue (send_queue t)))"

lemma connection_ready_fields:
  "send_queue (fst (connection_ready e t)) = send_queue t"
  "delivered (events_log (fst (connection_ready e t))) = delivered (events_log t)"
  by (auto simp: connection_ready_def split: option.splits prod.splits)

lemma drop_connection_fields [simp]:
  "send_queue (drop_connection t) = send_queue t"
  "delivered (events_log (drop_connection t)) = delivered (events_log t)"
  by (auto simp: drop_connection_def split: option.splits)

text \<open>Sending a batch either delivers it or puts it back at the end of the queue.\<close>

lemma publish_batch_cases:
  fixes base ms e batch t
  defines "t' \<equiv> publish_batch False ms base e batch t"
  shows "delivered (events_log t') = delivered (events_log t) @ [command_of base batch]
      \<and> send_queue t' = send_queue t
    \<or> delivered (events_log t') = delivered (events_log t)
      \<and> send_queue t' = push (pub_now e) batch (send_queue t)"
proof -
  obtain t1 ready where r: "connection_ready e t = (t1, ready)" by fastforce
  have "send_queue t1 = send_queue t" "delivered (events_log t1) = delivered (events_log t)"
    using connection_ready_fields [of e t] r by simp_all
  with r show ?thesis
    by (simp add: t'_def publish_batch_def requeue_def command_of_def Let_def split: option.split)
qed

lemma publish_batch_dry:
  "delivered (events_log (publish_batch True ms base e batch t)) = delivered (events_log t)
   \<and> send_queue (publish_batch True ms base e batch t) = send_queue t"
  by (simp add: publish_batch_def)

lemma publish_batch_accounted:
  assumes "\<not> stopped (send_queue t)"
  shows "accounted base (publish_batch False ms base e batch t)
      = accounted base t + {#command_of base batch#}
    \<and> \<not> stopped (send_queue (publish_batch False ms base e batch t))"
  using publish_batch_cases [of ms base e batch t] assms by (elim disjE) (simp_all add: accounted_def)

lemma publisher_loop_accounted:
  "\<not> stopped (send_queue t) \<Longrightarrow> accounted base (snd (publisher_loop False ms base es t)) = accounted base t"
proof (induction es arbitrary: t)
  case Nil
  then show ?case by simp
next
  case (Cons p es)
  obtain stop e where p: "p = (stop, e)" by (cases p)
  show ?case
  proof (cases "stop \<or> queue (send_queue t) = []")
    case True
    then show ?thesis using p by (auto simp: wait_and_pop_def)
  next
    case False
    then obtain fb fbs q1 where f: "queue (send_queue t) = fb # fbs"
        "wait_and_pop (send_queue t) = Popped fb q1" "queue q1 = fbs" "stopped q1 = stopped (send_queue t)"
      using fq.pop_item by (metis neq_Nil_conv)
    let ?t = "t\<lparr>send_queue := q1\<rparr>"
    have o: "\<not> stopped (send_queue ?t)" using f(4) Cons.prems by simp
    have "accounted base t = accounted base ?t + {#command_of base fb#}"
      using f by (simp add: accounted_def)
    with publish_batch_accounted [OF o, of base ms e fb] Cons.IH [of "publish_batch False ms base e fb ?t"]
    show ?thesis using False p f(2) by simp
  qed
qed

text \<open>
  while the batch queue is open, a publishing thread neither loses nor duplicates a batch,
  whatever connections and commands fail: every batch taken from the queue is either the argument
  of exactly one XADD that Redis answered, under the key of its stream, or is back in the queue.
\<close>

theorem publisher_conserves_batches:
  assumes "\<not> stopped (send_queue t)"
  shows "mset (delivered (events_log (snd (publisher_loop False ms base es t))))
      + mset (map (command_of base) (queue (send_queue (snd (publisher_loop False ms base es t)))))
    = mset (delivered (events_log t)) + mset (map (command_of base) (queue (send_queue t)))"
  using publisher_loop_accounted [OF assms] by (simp add: accounted_def)

definition sample_batch :: FrameBatch where
  "sample_batch = \<lparr>fb_stream_id = 7, fb_event_name = ''a'', frame_count = 1, data_buffer = [1, 2]\<rparr>"

definition sample_publisher :: publisher_thread where
  "sample_publisher =
     \<lparr>redis_conn = Some \<lparr>redis_context = Some 1\<rparr>, send_queue = push 1 sample_batch (fifo_new 9 ''b''),
      events_log = []\<rparr>"

theorem publisher_conserves_batches_witness:
  "mset (delivered (events_log (snd (publisher_loop False 0 ''fp''
        [(False, \<lparr>pub_now = 1, connect = None, replied = False\<rparr>),
         (False, \<lparr>pub_now = 2, connect = Some (2, False), replied = True\<rparr>)] sample_publisher))))
     = {#(''fp:7'', ''a'', [1, 2])#}"
proof -
  let ?es = "[(False, \<lparr>pub_now = 1, connect = None, replied = False\<rparr>),
         (False, \<lparr>pub_now = 2, connect = Some (2, False), replied = True\<rparr>)]"
  let ?r = "snd (publisher_loop False 0 ''fp'' ?es sample_publisher)"
  have "\<not> stopped (send_queue sample_publisher)"
    by (simp add: sample_publisher_def stopped_push fifo_new_def)
  from publisher_conserves_batches [OF this, of 0 "''fp''" ?es]
  have "mset (delivered (events_log ?r)) + mset (map (command_of ''fp'') (queue (send_queue ?r)))
      = {#command_of ''fp'' sample_batch#}"
    by (simp add: sample_publisher_def fifo_new_def del: publisher_loop.simps)
  moreover have "queue (send_queue ?r) = []" by code_simp
  moreover have "command_of ''fp'' sample_batch = (''fp:7'', ''a'', [1, 2])" by code_simp
  ultimately show ?thesis by simp
qed

text \<open>
  the re-queueing changes the order of the batches: with one publishing thread and two queued
  batches, when the first command fails and the following ones are answered, the second batch is
  published before the first, also for batches of the same stream and event.
\<close>

theorem retry_reorders_batches:
  "delivered (events_log (snd (publisher_loop False 0 base
       [(False, \<lparr>pub_now = t1, connect = None, replied = False\<rparr>),
        (False, \<lparr>pub_now = t2, connect = Some (c2, False), replied = True\<rparr>),
        (False, \<lparr>pub_now = t3, connect = None, replied = True\<rparr>)]
       \<lparr>redis_conn = Some \<lparr>redis_context = Some c1\<rparr>,
        send_queue = push u2 second (push u1 first (fifo_new thr nm)), events_log = []\<rparr>)))
     = [command_of base second, command_of base first]"
  by (simp add: publish_batch_def connection_ready_def drop_connection_def requeue_def redis_ctor_def
      redis_get_def redis_dtor_def is_valid_def wait_and_pop_Cons fifo_new_def command_of_def Let_def)

text \<open>
  the shutdown drops what is still queued: when the batching thread sees its stop request it
  leaves the remaining frames in its input queue and only flushes its open batches, a publishing
  thread that sees its stop request leaves the remaining batches, and once the batch queue is
  stopped a batch whose command fails is gone, since the re-queueing is refused.
\<close>

theorem publisher_stop_drops:
  "batching_loop ((True, now) # es) inq b = Some (LoopEnded, inq, flush_batches now b)
   \<and> publisher_loop dry ms base ((True, e) # pes) t = (LoopEnded, t)
   \<and> queue (send_queue (requeue e batch ms (t\<lparr>send_queue := fifo_stop q\<rparr>))) = queue q"
  by (simp add: requeue_def fifo_stop_def)

end
