(* ===== verification/Supervisor.thy ===== *)
theory Supervisor
  imports Prelude
begin

text \<open>
  The parent process of \<open>src/src/core/main.cpp\<close>: the monitor loop, the relaunch of a failed
  child and the final clean-up, with the signal handler that may run between any two steps. The
  process table is the operating system's: a child of the parent is alive or a zombie until it
  is waited for, and a free process id may be taken by a foreign process. \<open>kill\<close> with signal 0
  succeeds for every entry of the table, zombies included.
\<close>

section \<open>Processes and signals\<close>

datatype exit_status = Exited int | Signaled int

datatype process = Alive | Zombie exit_status | Foreign

datatype parent_pc =
  Start | AssignChild | Monitor | Reaped exit_status | CleanUp | Grace nat | FinalWait | Returned int

abbreviation (input) SIGTERM :: int where "SIGTERM \<equiv> 15"
abbreviation (input) SIGKILL :: int where "SIGKILL \<equiv> 9"

text \<open>A sent signal is logged with the process that had the id at that moment.\<close>

record supervisor =
  parent_pc :: parent_pc
  g_parent_shutdown_request :: bool
  g_child_pid :: int
  child :: int
  procs :: "int \<Rightarrow> process option"
  sent :: "(int \<times> int \<times> process option) list"

record parent_calls =
  fork_result :: int
  interrupted :: bool

definition start_state :: supervisor where
  "start_state =
     \<lparr>parent_pc = Start, g_parent_shutdown_request = False, g_child_pid = 0, child = 0,
      procs = (\<lambda>_. None), sent = []\<rparr>"

definition send :: "int \<Rightarrow> int \<Rightarrow> supervisor \<Rightarrow> supervisor" where
  "send pid signum s = s\<lparr>sent := sent s @ [(pid, signum, procs s pid)]\<rparr>"

definition parent_signal_handler :: "int \<Rightarrow> supervisor \<Rightarrow> supervisor" where
  "parent_signal_handler signum s =
     (let s1 = s\<lparr>g_parent_shutdown_request := True\<rparr>
      in if g_child_pid s1 > 0 then send (g_child_pid s1) signum s1 else s1)"

definition child_signal_handler :: "bool \<Rightarrow> bool" where
  "child_signal_handler g_shutdown_request = True"

definition forked :: "int \<Rightarrow> supervisor \<Rightarrow> supervisor" where
  "forked p s = s\<lparr>child := p, procs := (procs s)(p \<mapsto> Alive), parent_pc := AssignChild\<rparr>"

section \<open>The steps of the parent\<close>

definition monitor :: "parent_calls \<Rightarrow> supervisor \<Rightarrow> supervisor" where
  "monitor e s =
     (if g_parent_shutdown_request s then s\<lparr>parent_pc := CleanUp\<rparr>
      else (case procs s (child s) of
              Some Alive \<Rightarrow> s
            | Some (Zombie st) \<Rightarrow> s\<lparr>procs := (procs s)(child s := None), parent_pc := Reaped st\<rparr>
            | _ \<Rightarrow> if interrupted e then s else s\<lparr>parent_pc := CleanUp\<rparr>))"

definition reaped :: "parent_calls \<Rightarrow> exit_status \<Rightarrow> supervisor \<Rightarrow> supervisor" where
  "reaped e st s =
     (if st = Exited 0 then s\<lparr>parent_pc := CleanUp\<rparr>
      else if g_parent_shutdown_request s then s\<lparr>parent_pc := CleanUp\<rparr>
      else if fork_result e > 0 then forked (fork_result e) s
      else s\<lparr>child := - 1, parent_pc := CleanUp\<rparr>)"

definition clean_up :: "supervisor \<Rightarrow> supervisor" where
  "clean_up s =
     (if g_child_pid s > 0 then (send (g_child_pid s) SIGTERM s)\<lparr>parent_pc := Grace 0\<rparr>
      else s\<lparr>parent_pc := Returned 0\<rparr>)"

text \<open>
  \<open>kill(pid, 0)\<close> is taken to fail only when there is no such process: the child runs under the
  parent's user, so a refused permission does not occur for it.
\<close>

definition grace :: "nat \<Rightarrow> supervisor \<Rightarrow> supervisor" where
  "grace i s =
     (if i < 5 \<and> procs s (g_child_pid s) \<noteq> None then s\<lparr>parent_pc := Grace (i + 1)\<rparr>
      else if procs s (g_child_pid s) \<noteq> None
      then (send (g_child_pid s) SIGKILL s)\<lparr>parent_pc := FinalWait\<rparr>
      else s\<lparr>parent_pc := FinalWait\<rparr>)"

text \<open>The blocking wait: with the child alive the parent stays where it is.\<close>

definition final_wait :: "supervisor \<Rightarrow> supervisor" where
  "final_wait s =
     (case procs s (g_child_pid s) of
        Some Alive \<Rightarrow> s
      | Some (Zombie st) \<Rightarrow> s\<lparr>procs := (procs s)(g_child_pid s := None), parent_pc := Returned 0\<rparr>
      | _ \<Rightarrow> s\<lparr>parent_pc := Returned 0\<rparr>)"

definition parent_main :: "parent_calls \<Rightarrow> supervisor \<Rightarrow> supervisor" where
  "parent_main e s =
     (case parent_pc s of
        Start \<Rightarrow> if fork_result e > 0 then forked (fork_result e) s else s\<lparr>parent_pc := Returned 1\<rparr>
      | AssignChild \<Rightarrow> s\<lparr>g_child_pid := child s, parent_pc := Monitor\<rparr>
      | Monitor \<Rightarrow> monitor e s
      | Reaped st \<Rightarrow> reaped e st s
      | CleanUp \<Rightarrow> clean_up s
      | Grace i \<Rightarrow> grace i s
      | FinalWait \<Rightarrow> final_wait s
      | Returned c \<Rightarrow> s)"

inductive sup_step :: "supervisor \<Rightarrow> supervisor \<Rightarrow> bool" where
  Parent: "fork_result e > 0 \<longrightarrow> procs s (fork_result e) = None \<Longrightarrow> sup_step s (parent_main e s)"
| Signal: "sup_step s (parent_signal_handler signum s)"
| ChildEnds: "procs s p = Some Alive \<Longrightarrow> sup_step s (s\<lparr>procs := (procs s)(p \<mapsto> Zombie st)\<rparr>)"
| ForeignStarts: "procs s p = None \<Longrightarrow> sup_step s (s\<lparr>procs := (procs s)(p \<mapsto> Foreign)\<rparr>)"
| ForeignEnds: "procs s p = Some Foreign \<Longrightarrow> sup_step s (s\<lparr>procs := (procs s)(p := None)\<rparr>)"

inductive_cases sup_stepE: "sup_step s t"

section \<open>The invariant\<close>

definition own :: "supervisor \<Rightarrow> int \<Rightarrow> bool" where
  "own s p \<longleftrightarrow> procs s p \<noteq> None \<and> procs s p \<noteq> Some Foreign"

fun childless :: "parent_pc \<Rightarrow> bool" where
  "childless Start = True"
| "childless (Reaped st) = True"
| "childless (Returned c) = True"
| "childless _ = False"

definition sup_inv :: "supervisor \<Rightarrow> bool" where
  "sup_inv s \<longleftrightarrow>
     (\<forall>p. own s p \<longrightarrow> p = child s \<and> 0 < p \<and> (parent_pc s = AssignChild \<or> g_child_pid s = p)
        \<and> \<not> childless (parent_pc s))
     \<and> (parent_pc s = AssignChild \<longrightarrow> 0 < child s)"

lemma childless_inv: "sup_inv s \<Longrightarrow> childless (parent_pc s) \<Longrightarrow> \<not> own s p"
  by (auto simp: sup_inv_def)

lemma no_child_inv: "(\<And>p. \<not> own s p) \<Longrightarrow> parent_pc s \<noteq> AssignChild \<Longrightarrow> sup_inv s"
  by (auto simp: sup_inv_def)

lemma own_update [simp]:
  "own (s\<lparr>parent_pc := c\<rparr>) = own s" "own (s\<lparr>child := i\<rparr>) = own s" "own (s\<lparr>g_child_pid := i\<rparr>) = own s"
  "own (s\<lparr>sent := l\<rparr>) = own s" "own (s\<lparr>g_parent_shutdown_request := r\<rparr>) = own s"
  by (simp_all add: own_def fun_eq_iff)

lemma send_fields [simp]:
  "parent_pc (send p n s) = parent_pc s" "g_child_pid (send p n s) = g_child_pid s"
  "child (send p n s) = child s" "procs (send p n s) = procs s"
  "g_parent_shutdown_request (send p n s) = g_parent_shutdown_request s"
  by (simp_all add: send_def)

lemma handler_fields [simp]:
  "parent_pc (parent_signal_handler n s) = parent_pc s"
  "g_child_pid (parent_signal_handler n s) = g_child_pid s"
  "child (parent_signal_handler n s) = child s" "procs (parent_signal_handler n s) = procs s"
  by (simp_all add: parent_signal_handler_def Let_def)

lemma sup_inv_start: "sup_inv start_state"
  by (simp add: sup_inv_def start_state_def own_def)

lemma forked_inv:
  "\<forall>p. \<not> own s p \<Longrightarrow> 0 < p \<Longrightarrow> procs s p = None \<Longrightarrow> sup_inv (forked p s)"
  by (auto simp: sup_inv_def forked_def own_def)

lemma monitor_inv: "sup_inv s \<Longrightarrow> parent_pc s = Monitor \<Longrightarrow> sup_inv (monitor e s)"
  by (auto simp: sup_inv_def monitor_def own_def split: option.splits process.splits)

lemma reaped_inv:
  assumes "sup_inv s" and "parent_pc s = Reaped st"
    and "fork_result e > 0 \<longrightarrow> procs s (fork_result e) = None"
  shows "sup_inv (reaped e st s)"
proof -
  have none: "\<not> own s p" for p using childless_inv [OF assms(1)] assms(2) by simp
  then have "sup_inv (s\<lparr>parent_pc := CleanUp\<rparr>)" "sup_inv (s\<lparr>child := - 1, parent_pc := CleanUp\<rparr>)"
    by (simp_all add: no_child_inv)
  with forked_inv [of s "fork_result e"] none assms(3) show ?thesis by (simp add: reaped_def)
qed

lemma clean_up_inv: "sup_inv s \<Longrightarrow> parent_pc s = CleanUp \<Longrightarrow> sup_inv (clean_up s)"
  by (auto simp: sup_inv_def clean_up_def send_def)

lemma grace_inv: "sup_inv s \<Longrightarrow> parent_pc s = Grace i \<Longrightarrow> sup_inv (grace i s)"
  by (auto simp: sup_inv_def grace_def send_def)

lemma final_wait_inv: "sup_inv s \<Longrightarrow> parent_pc s = FinalWait \<Longrightarrow> sup_inv (final_wait s)"
  by (auto simp: sup_inv_def final_wait_def own_def split: option.splits process.splits)

lemma parent_main_inv:
  assumes "sup_inv s" and "fork_result e > 0 \<longrightarrow> procs s (fork_result e) = None"
  shows "sup_inv (parent_main e s)"
proof (cases "parent_pc s")
  case Start
  then have none: "\<not> own s p" for p using childless_inv [OF assms(1)] by simp
  then have "sup_inv (s\<lparr>parent_pc := Returned 1\<rparr>)" by (simp add: no_child_inv)
  with Start forked_inv [of s "fork_result e"] none assms(2) show ?thesis by (simp add: parent_main_def)
next
  case AssignChild
  with assms(1) show ?thesis by (auto simp: parent_main_def sup_inv_def)
next
  case (Returned c)
  with assms(1) show ?thesis by (simp add: parent_main_def)
qed (simp_all add: parent_main_def monitor_inv reaped_inv clean_up_inv grace_inv final_wait_inv assms)

lemma environment_inv:
  "sup_inv s \<Longrightarrow> procs s p = Some Alive \<Longrightarrow> sup_inv (s\<lparr>procs := (procs s)(p \<mapsto> Zombie st)\<rparr>)"
  "sup_inv s \<Longrightarrow> procs s p = None \<Longrightarrow> sup_inv (s\<lparr>procs := (procs s)(p \<mapsto> Foreign)\<rparr>)"
  "sup_inv s \<Longrightarrow> procs s p = Some Foreign \<Longrightarrow> sup_inv (s\<lparr>procs := (procs s)(p := None)\<rparr>)"
  "sup_inv s \<Longrightarrow> sup_inv (parent_signal_handler n s)"
proof -
  have cong: "sup_inv t" if "sup_inv s" "\<And>q. own t q = own s q" "parent_pc t = parent_pc s"
      "child t = child s" "g_child_pid t = g_child_pid s" for t
    using that by (simp add: sup_inv_def)
  show "sup_inv s \<Longrightarrow> procs s p = Some Alive \<Longrightarrow> sup_inv (s\<lparr>procs := (procs s)(p \<mapsto> Zombie st)\<rparr>)"
    "sup_inv s \<Longrightarrow> procs s p = None \<Longrightarrow> sup_inv (s\<lparr>procs := (procs s)(p \<mapsto> Foreign)\<rparr>)"
    "sup_inv s \<Longrightarrow> procs s p = Some Foreign \<Longrightarrow> sup_inv (s\<lparr>procs := (procs s)(p := None)\<rparr>)"
    "sup_inv s \<Longrightarrow> sup_inv (parent_signal_handler n s)"
    by (rule cong; auto simp: own_def)+
qed

interpretation sup_ts: transition_system "\<lambda>s. s = start_state" sup_step sup_inv
  by unfold_locales
    (auto simp: sup_inv_start environment_inv elim!: sup_stepE intro!: parent_main_inv)

section \<open>The end of the parent\<close>

text \<open>
  A step of the parent that does something: it has not returned and is not blocked in the final
  wait. The work counts the steps that are left once a shutdown is requested.
\<close>

definition waiting_for_child :: "supervisor \<Rightarrow> bool" where
  "waiting_for_child s \<longleftrightarrow> parent_pc s = FinalWait \<and> procs s (g_child_pid s) = Some Alive"

fun has_returned :: "parent_pc \<Rightarrow> bool" where
  "has_returned (Returned c) = True"
| "has_returned _ = False"

inductive parent_move :: "supervisor \<Rightarrow> supervisor \<Rightarrow> bool" where
  "\<not> has_returned (parent_pc s) \<Longrightarrow> \<not> waiting_for_child s \<Longrightarrow>
   fork_result e > 0 \<longrightarrow> procs s (fork_result e) = None \<Longrightarrow> parent_move s (parent_main e s)"

inductive_cases parent_moveE: "parent_move s t"

fun parent_work :: "parent_pc \<Rightarrow> nat" where
  "parent_work Start = 12"
| "parent_work AssignChild = 11"
| "parent_work Monitor = 10"
| "parent_work (Reaped st) = 10"
| "parent_work CleanUp = 9"
| "parent_work (Grace i) = 2 + (6 - i)"
| "parent_work FinalWait = 1"
| "parent_work (Returned c) = 0"

lemma parent_work_bound: "parent_work pc \<le> 12"
  by (cases pc) simp_all

lemma parent_main_request [simp]:
  "g_parent_shutdown_request (parent_main e s) = g_parent_shutdown_request s"
  by (simp add: parent_main_def monitor_def reaped_def clean_up_def grace_def final_wait_def forked_def
      split: parent_pc.splits option.splits process.splits)

lemma parent_main_work:
  assumes "g_parent_shutdown_request s" and "\<not> has_returned (parent_pc s)" and "\<not> waiting_for_child s"
  shows "parent_work (parent_pc (parent_main e s)) < parent_work (parent_pc s)"
proof (cases "parent_pc s")
  case FinalWait
  with assms(3) show ?thesis
    by (auto simp: parent_main_def final_wait_def waiting_for_child_def
        split: option.splits process.splits)
next
  case (Grace i)
  then show ?thesis by (auto simp: parent_main_def grace_def)
next
  case (Returned c)
  with assms(2) show ?thesis by simp
qed (use assms(1) in \<open>simp_all add: parent_main_def monitor_def reaped_def clean_up_def forked_def\<close>)

lemma parent_main_idle:
  "has_returned (parent_pc s) \<or> waiting_for_child s \<Longrightarrow> parent_main e s = s"
  by (cases "parent_pc s") (auto simp: parent_main_def final_wait_def waiting_for_child_def)

text \<open>Whoever waits for a living child has sent it SIGKILL before.\<close>

definition kill_inv :: "supervisor \<Rightarrow> bool" where
  "kill_inv s \<longleftrightarrow> (waiting_for_child s \<longrightarrow> (g_child_pid s, SIGKILL, Some Alive) \<in> set (sent s))"

lemma parent_main_kill: "kill_inv s \<Longrightarrow> kill_inv (parent_main e s)"
  by (cases "parent_pc s")
    (auto simp: kill_inv_def waiting_for_child_def parent_main_def monitor_def reaped_def clean_up_def
      grace_def final_wait_def forked_def send_def split: option.splits process.splits)

lemma kill_inv_step:
  assumes "sup_step s t" and "kill_inv s"
  shows "kill_inv t"
  using assms(1)
proof (rule sup_stepE)
  fix e
  assume "t = parent_main e s"
  with assms(2) show ?thesis by (simp add: parent_main_kill)
qed (use assms(2) in \<open>auto simp: kill_inv_def waiting_for_child_def parent_signal_handler_def send_def
    Let_def split: if_splits\<close>)

interpretation parent_process: ending_threads "\<lambda>s. s = start_state" sup_step kill_inv parent_move
  g_parent_shutdown_request "\<lambda>s. parent_work (parent_pc s)"
  "\<lambda>s. has_returned (parent_pc s) \<or> waiting_for_child s"
proof unfold_locales
  fix s t
  show "s = start_state \<Longrightarrow> kill_inv s"
    by (simp add: kill_inv_def waiting_for_child_def start_state_def)
  show "sup_step s t \<Longrightarrow> kill_inv s \<Longrightarrow> kill_inv t" by (rule kill_inv_step)
  show "parent_move s t \<Longrightarrow> sup_step s t" by (auto elim!: parent_moveE intro: Parent)
  show "g_parent_shutdown_request t \<and> parent_work (parent_pc t) \<le> parent_work (parent_pc s)"
    if "sup_step s t" "g_parent_shutdown_request s"
    using that(1)
  proof (rule sup_stepE)
    fix e
    assume "t = parent_main e s"
    with that(2) show ?thesis using parent_main_work [of s e] parent_main_idle [of s e] by fastforce
  qed (use that(2) in \<open>simp_all add: parent_signal_handler_def Let_def\<close>)
  show "parent_move s t \<Longrightarrow> g_parent_shutdown_request s
      \<Longrightarrow> parent_work (parent_pc t) < parent_work (parent_pc s)"
    by (auto elim!: parent_moveE simp: parent_main_work)
  show "\<exists>t. parent_move s t" if "\<not> (has_returned (parent_pc s) \<or> waiting_for_child s)"
    using that parent_move.intros [of s "\<lparr>fork_result = 0, interrupted = False\<rparr>"] by auto
qed

section \<open>Properties\<close>

text \<open>
  C9: in every reachable state, whatever signals arrive and whenever the child ends, the parent has
  at most one child process (alive or waiting to be reaped), the monitor and the clean-up know
  its id, and when \<open>main\<close> returns there is none left.
\<close>

theorem at_most_one_child:
  assumes "sup_step\<^sup>*\<^sup>* start_state s"
  shows "card {p. own s p} \<le> 1
    \<and> (own s p \<longrightarrow> p = child s \<and> (parent_pc s = AssignChild \<or> p = g_child_pid s))
    \<and> (parent_pc s = Returned c \<longrightarrow> {p. own s p} = {})"
proof -
  have inv: "sup_inv s" using sup_ts.inv_reachable assms by blast
  then have sub: "{p. own s p} \<subseteq> {child s}" by (auto simp: sup_inv_def)
  then have "card {p. own s p} \<le> 1" using card_mono [OF _ sub] by simp
  with inv show ?thesis by (auto simp: sup_inv_def)
qed

definition calls :: "int \<Rightarrow> parent_calls" where
  "calls p = \<lparr>fork_result = p, interrupted = False\<rparr>"

definition child_running :: supervisor where
  "child_running = parent_main (calls 0) (parent_main (calls 100) start_state)"

lemma child_running_eq:
  "child_running =
     \<lparr>parent_pc = Monitor, g_parent_shutdown_request = False, g_child_pid = 100, child = 100,
      procs = [100 \<mapsto> Alive], sent = []\<rparr>"
  by (simp add: child_running_def parent_main_def forked_def start_state_def calls_def)

lemma child_running_reached: "sup_step\<^sup>*\<^sup>* start_state child_running"
proof -
  have "sup_step start_state (parent_main (calls 100) start_state)"
    by (rule Parent) (simp add: start_state_def)
  moreover have "sup_step (parent_main (calls 100) start_state) child_running"
    unfolding child_running_def by (rule Parent) (simp add: calls_def)
  ultimately show ?thesis by auto
qed

theorem at_most_one_child_witness: "card {p. own child_running p} \<le> 1"
  using at_most_one_child [OF child_running_reached] by blast

text \<open>
  a child that fails is replaced: two steps after it has become a zombie with any status other
  than a normal exit, the old process is reaped and the forked one is recorded as the child, and
  one step later the parent monitors it under its id.
\<close>

theorem failed_child_relaunched:
  assumes "parent_pc s = Monitor" and "\<not> g_parent_shutdown_request s"
    and "procs s (child s) = Some (Zombie st)" and "st \<noteq> Exited 0"
    and "0 < fork_result e2" and "procs s (fork_result e2) = None"
  shows "parent_main e3 (parent_main e2 (parent_main e1 s))
    = s\<lparr>procs := (procs s)(child s := None, fork_result e2 \<mapsto> Alive), child := fork_result e2,
        g_child_pid := fork_result e2, parent_pc := Monitor\<rparr>"
  using assms by (simp add: parent_main_def monitor_def reaped_def forked_def)

theorem failed_child_relaunched_witness:
  "procs (parent_main (calls 0) (parent_main (calls 101) (parent_main (calls 0)
      (child_running\<lparr>procs := [100 \<mapsto> Zombie (Exited 1)]\<rparr>)))) = [101 \<mapsto> Alive]"
proof -
  have "parent_main (calls 0) (parent_main (calls 101) (parent_main (calls 0)
      (child_running\<lparr>procs := [100 \<mapsto> Zombie (Exited 1)]\<rparr>)))
    = child_running\<lparr>procs := (Map.empty(100 \<mapsto> Zombie (Exited 1)))(100 := None, 101 \<mapsto> Alive), child := 101, g_child_pid := 101,
        parent_pc := Monitor\<rparr>"
    using failed_child_relaunched [of "child_running\<lparr>procs := [100 \<mapsto> Zombie (Exited 1)]\<rparr>"
        "Exited 1" "calls 101" "calls 0" "calls 0"]
    by (simp add: child_running_eq calls_def)
  then show ?thesis by (simp add: fun_upd_def fun_eq_iff)
qed

text \<open>
  the clean-up cannot see that the child has ended: for a child that is already a zombie the
  grace period still runs its five rounds and then sends SIGKILL, because the zombie answers
  signal 0 until the final wait reaps it.
\<close>

theorem grace_ignores_zombie:
  assumes "parent_pc s = Grace 0" and "procs s (g_child_pid s) = Some (Zombie st)"
  shows "parent_pc ((parent_main e ^^ 5) s) = Grace 5
    \<and> sent ((parent_main e ^^ 6) s) = sent s @ [(g_child_pid s, SIGKILL, Some (Zombie st))]
    \<and> parent_pc ((parent_main e ^^ 7) s) = Returned 0"
proof -
  have g: "(parent_main e ^^ n) s = s\<lparr>parent_pc := Grace n\<rparr>" if "n \<le> 5" for n
    using that
  proof (induction n)
    case 0
    then show ?case using assms(1) by simp
  next
    case (Suc n)
    then show ?case using assms(2) by (simp add: parent_main_def grace_def)
  qed
  have nums: "(6 :: nat) = Suc 5" "(7 :: nat) = Suc (Suc 5)" by simp_all
  let ?t = "(send (g_child_pid s) SIGKILL (s\<lparr>parent_pc := Grace 5\<rparr>))\<lparr>parent_pc := FinalWait\<rparr>"
  have 6: "(parent_main e ^^ 6) s = ?t"
    unfolding nums funpow.simps o_apply g [OF order_refl]
    using assms(2) by (simp add: parent_main_def grace_def)
  have 7: "(parent_main e ^^ 7) s = parent_main e ?t"
    using 6 unfolding nums funpow.simps o_apply by simp
  have "parent_pc ((parent_main e ^^ 7) s) = Returned 0"
    unfolding 7 using assms(2) by (simp add: parent_main_def final_wait_def)
  moreover have "sent ?t = sent s @ [(g_child_pid s, SIGKILL, Some (Zombie st))]"
    using assms(2) by (simp add: send_def)
  moreover have "parent_pc ((parent_main e ^^ 5) s) = Grace 5" by (simp add: g)
  ultimately show ?thesis unfolding 6 by blast
qed

theorem grace_ignores_zombie_witness:
  "sent ((parent_main (calls 0) ^^ 6) (child_running\<lparr>procs := [100 \<mapsto> Zombie (Exited 0)],
      parent_pc := Grace 0\<rparr>)) = [(100, SIGKILL, Some (Zombie (Exited 0)))]"
  using grace_ignores_zombie [of "child_running\<lparr>procs := [100 \<mapsto> Zombie (Exited 0)],
      parent_pc := Grace 0\<rparr>" "Exited 0" "calls 0"]
  by (simp add: child_running_eq del: funpow.simps)

text \<open>
  after a normal exit of the child the parent still signals the child's process id: there are
  runs in which SIGTERM goes to a foreign process that has taken the id in the meantime.
\<close>

theorem signal_to_foreign_process:
  "\<exists>s. sup_step\<^sup>*\<^sup>* start_state s \<and> (100, SIGTERM, Some Foreign) \<in> set (sent s)"
proof -
  let ?s1 = "child_running\<lparr>procs := (procs child_running)(100 \<mapsto> Zombie (Exited 0))\<rparr>"
  let ?s2 = "parent_main (calls 0) ?s1"
  let ?s3 = "?s2\<lparr>procs := (procs ?s2)(100 \<mapsto> Foreign)\<rparr>"
  let ?s4 = "parent_main (calls 0) ?s3"
  let ?s5 = "parent_main (calls 0) ?s4"
  have p: "\<And>s. sup_step s (parent_main (calls 0) s)" by (rule Parent) (simp add: calls_def)
  have "procs child_running 100 = Some Alive" by (simp add: child_running_eq)
  then have "sup_step child_running ?s1" by (rule ChildEnds)
  moreover have "procs ?s2 100 = None"
    by (simp add: child_running_eq parent_main_def monitor_def)
  then have "sup_step ?s2 ?s3" by (rule ForeignStarts)
  ultimately have "sup_step\<^sup>*\<^sup>* start_state ?s5"
    using child_running_reached p by (meson rtranclp.rtrancl_into_rtrancl)
  moreover have "(100, SIGTERM, Some Foreign) \<in> set (sent ?s5)"
    by (simp add: child_running_eq parent_main_def monitor_def reaped_def clean_up_def send_def)
  ultimately show ?thesis by blast
qed

text \<open>
  C10: the parent ends: once a shutdown is requested, the parent takes at most twelve more steps of
  its own, however signals, the end of the child and foreign processes interleave with them, and
  it is stuck before only where it waits for a child that is alive and to which it has sent
  SIGKILL; otherwise it has returned.
\<close>

theorem parent_ends_after_shutdown:
  assumes "sup_step\<^sup>*\<^sup>* start_state s" and "g_parent_shutdown_request s"
    and "interleaved sup_step parent_move n s t"
  shows "n \<le> 12
    \<and> (has_returned (parent_pc t) \<or> (\<exists>u. parent_move t u)
       \<or> parent_pc t = FinalWait \<and> procs t (g_child_pid t) = Some Alive
         \<and> (g_child_pid t, SIGKILL, Some Alive) \<in> set (sent t))"
proof -
  have inv: "kill_inv s" using parent_process.inv_reachable [OF refl assms(1)] .
  have "kill_inv t" using parent_process.interleaved_work [OF assms(3) inv assms(2)] by simp
  then show ?thesis
    using parent_process.own_steps_bounded [OF assms(3) inv assms(2)] parent_work_bound [of "parent_pc s"]
    by (auto simp: kill_inv_def waiting_for_child_def)
qed

theorem parent_ends_after_shutdown_witness:
  "\<exists>u. parent_move (parent_signal_handler SIGTERM child_running) u"
proof -
  let ?s = "parent_signal_handler SIGTERM child_running"
  have "sup_step\<^sup>*\<^sup>* start_state ?s"
    using child_running_reached Signal by (rule rtranclp.rtrancl_into_rtrancl)
  moreover have "g_parent_shutdown_request ?s" by (simp add: parent_signal_handler_def Let_def)
  ultimately show ?thesis
    using parent_ends_after_shutdown [OF _ _ Start] by (fastforce simp: child_running_eq)
qed

end
