(* ===== verification/App.thy ===== *)
theory App
  imports Logger ConfigReload StreamManager Worker Publisher Supervisor
begin

text \<open>
  \<open>app_logic\<close> of \<open>src/src/core/main.cpp\<close>, the child process: the construction of the components
  in the code's order with every error exit, the configuration callback that the reloader calls,
  and the shutdown. An exception that leaves \<open>app_logic\<close> terminates the process.
\<close>

section \<open>Start-up\<close>

definition get_worker_count :: "environment \<Rightarrow> int \<Rightarrow> stdexc + int" where
  "get_worker_count env hardware_concurrency =
     (let cores = hardware_concurrency; workers = max 1 (cores - 2)
      in stoi (get_env env ''FP_NUM_WORKER_THREADS'' (show_int workers)))"

record app =
  config_manager :: ConfigManager
  g_log_level :: LogLevel
  stream_manager :: StreamIoManager
  workers :: "worker_thread list"
  frame_saver :: FrameSaver
  decode_frame_queue :: "DecodedFrame fifo"
  processed_frame_queue :: "DecodedFrame fifo"
  publisher :: Publisher

datatype app_result = ExitFailure | Uncaught stdexc | Up app

definition update_callback :: "GlobalConfig \<Rightarrow> app \<Rightarrow> stdexc + app" where
  "update_callback config a =
     (let a1 = a\<lparr>g_log_level := string_to_loglevel (log_level_str config)\<rparr>
      in rbind (update_streams (stream_configs config) (stream_manager a1))
           (\<lambda>(m, acts). Inr (a1\<lparr>stream_manager := m\<rparr>)))"

definition uncaught :: "stdexc + app \<Rightarrow> app_result" where
  "uncaught r = (case r of Inl x \<Rightarrow> Uncaught x | Inr a \<Rightarrow> Up a)"

text \<open>
  The level before the first callback is the initial value of \<open>G_LOG_LEVEL\<close>; the number of
  workers passes through an \<open>int16_t\<close>, the warning threshold through a \<open>size_t\<close>.
\<close>

definition app_start :: "environment \<Rightarrow> int \<Rightarrow> 'e simdjson \<Rightarrow> files \<Rightarrow> app_result" where
  "app_start env hardware_concurrency sj fls =
     (case config_manager_ctor env of
        Inl _ \<Rightarrow> ExitFailure
      | Inr cm0 \<Rightarrow>
          (case load_initial_config sj fls cm0 of
             (loaded, cm1) \<Rightarrow>
               if \<not> loaded then ExitFailure
               else uncaught (
                 rbind (get_worker_count env hardware_concurrency) (\<lambda>count.
                 let num_workers = narrow 16 count
                 in rbind (stoi (get_env env ''FP_QUEUE_WARNING_THRESHOLD'' ''1000'')) (\<lambda>threshold.
                    rbind (worker_ctor env) (\<lambda>(saver, av_level).
                    rbind (publisher_ctor env) (\<lambda>pub.
                    case start_reloader True cm1 of
                      (cm2, notified) \<Rightarrow>
                        rbind (foldl (\<lambda>r c. rbind r (update_callback c))
                          (Inr \<lparr>config_manager = cm2, g_log_level = INFO, stream_manager = new_manager,
                                workers = [], frame_saver = saver,
                                decode_frame_queue = fifo_new (of_int threshold) ''decode_frame_queue'',
                                processed_frame_queue =
                                  fifo_new (of_int threshold) ''processed_frame_queue'',
                                publisher = pub\<rparr>) notified)
                          (\<lambda>a. Inr (a\<lparr>workers := worker_start num_workers\<rparr>)))))))))"

text \<open>
  The shutdown: the streams first, then the workers with both queues, then the publisher, whose
  batching thread performs the iterations \<open>es\<close> until it sees its stop request.
\<close>

definition app_stop :: "(bool \<times> int) list \<Rightarrow> batcher \<Rightarrow> app \<Rightarrow> (app \<times> batcher) option" where
  "app_stop es b a =
     (let a1 = a\<lparr>stream_manager := fst (stop_all (stream_manager a))\<rparr>;
          queues = worker_stop (decode_frame_queue a1) (processed_frame_queue a1);
          a2 = a1\<lparr>decode_frame_queue := fst queues, processed_frame_queue := snd queues, workers := []\<rparr>
      in map_option (\<lambda>(q, b'). (a2\<lparr>processed_frame_queue := q\<rparr>, b'))
           (publisher_stop (publisher a2) es (processed_frame_queue a2) b))"

section \<open>Helper lemmas\<close>

lemma stoi_show_int: "int_min \<le> i \<Longrightarrow> i \<le> int_max \<Longrightarrow> stoi (show_int i) = Inr i"
  using strto_show_int [of int_min i int_max "[]"] by (simp add: stoi_def)

lemma update_callback_ok:
  assumes "manager_inv (stream_manager a)"
  shows "\<exists>m acts. update_streams (stream_configs c) (stream_manager a) = Inr (m, acts)
    \<and> manager_inv m
    \<and> update_callback c a = Inr (a\<lparr>g_log_level := string_to_loglevel (log_level_str c),
                                     stream_manager := m\<rparr>)"
  using update_streams_total [OF assms, of "stream_configs c"] by (auto simp: update_callback_def)

lemma app_start_up:
  assumes "app_start env cores sj fls = Up a"
  shows "\<exists>cm0 cm1 m acts. config_manager_ctor env = Inr cm0
    \<and> parse_config_json cm0 sj fls default_global = (True, current_config cm1)
    \<and> cm1 = cm0\<lparr>current_config := current_config cm1\<rparr>
    \<and> config_manager a = cm1\<lparr>cm_has_callback := True\<rparr>
    \<and> update_streams (stream_configs (current_config cm1)) new_manager = Inr (m, acts)
    \<and> stream_manager a = m
    \<and> g_log_level a = string_to_loglevel (log_level_str (current_config cm1))
    \<and> (\<exists>count. get_worker_count env cores = Inr count \<and> workers a = worker_start (narrow 16 count))"
proof -
  obtain cm0 cm1 where c: "config_manager_ctor env = Inr cm0" "load_initial_config sj fls cm0 = (True, cm1)"
    using assms by (auto simp: app_start_def split: sum.splits prod.splits if_splits)
  have p: "parse_config_json cm0 sj fls default_global = (True, current_config cm1)"
    "cm1 = cm0\<lparr>current_config := current_config cm1\<rparr>"
    using c(2) by (auto simp: load_initial_config_def split: prod.splits if_splits)
  obtain m acts where u: "update_streams (stream_configs (current_config cm1)) new_manager = Inr (m, acts)"
    using update_streams_total [OF manager_inv_new] by blast
  show ?thesis
    using assms c p u
    by (auto simp: app_start_def uncaught_def start_reloader_def update_callback_def Let_def
        rbind_Inr_iff split: sum.splits prod.splits)
qed

section \<open>Properties\<close>

lemma config_path_ctor:
  "config_manager_ctor env = Inr cm \<Longrightarrow>
   config_path cm = get_env env ''FP_CONFIG_PATH'' ''/etc/fp/configs/config.json''"
  by (auto simp: config_manager_ctor_def Let_def rbind_Inr_iff)

lemma loaded_ids:
  assumes "\<forall>x \<in> set xs. \<forall>i. se_id x = Some i \<longrightarrow> int_min \<le> i \<and> i \<le> int_max"
  shows "ids_in_range (loaded_streams cm xs)"
proof -
  have "\<exists>x \<in> set xs. se_id x = Some (st_id c)" if "c \<in> set (List.map_filter (loaded_entry cm) xs)" for c
    using that
    by (auto simp: List.map_filter_def loaded_entry_def entry_config_def split: option.splits if_splits)
  then show ?thesis
    using assms by (fastforce simp: ids_in_range_def loaded_streams_def dest: in_set_takeD split: if_splits)
qed

text \<open>
  C29: when the child starts, it runs what its configuration file says: if the file at the path of
  the environment holds a document with a log level and stream entries (ids within \<open>int\<close>), then
  for every id the manager's active configuration is the last enabled entry of that id among the
  entries this instance loads (the first \<open>max_streams\<close> with id and URL that are whitelisted and
  owned), exactly these streams have a running thread, each with that configuration, and the log
  level is the one of the document.
\<close>

theorem app_starts_configured_streams:
  assumes "app_start env cores (json_lib parser) fls = Up a"
    and "fls (get_env env ''FP_CONFIG_PATH'' ''/etc/fp/configs/config.json'') = Some s0"
    and "parser s0 = Inr (config_json lvl xs)"
    and "\<forall>x \<in> set xs. \<forall>i. se_id x = Some i \<longrightarrow> int_min \<le> i \<and> i \<le> int_max"
  shows "\<exists>cm. config_manager_ctor env = Inr cm
    \<and> stream_configs (current_config (config_manager a)) = loaded_streams cm xs
    \<and> (\<forall>k. map_of (active_stream_configs (stream_manager a)) k
          = last_option (filter (\<lambda>c. enabled c \<and> st_id c = k) (loaded_streams cm xs))
        \<and> map_of (stream_threads (stream_manager a)) k
          = map_option (\<lambda>c. \<lparr>th_config = c, th_running = True\<rparr>)
              (last_option (filter (\<lambda>c. enabled c \<and> st_id c = k) (loaded_streams cm xs))))
    \<and> g_log_level a = string_to_loglevel (given_or lvl ''INFO'')"
proof -
  obtain cm0 cm1 acts where s: "config_manager_ctor env = Inr cm0"
    "parse_config_json cm0 (json_lib parser) fls default_global = (True, current_config cm1)"
    "config_manager a = cm1\<lparr>cm_has_callback := True\<rparr>"
    "update_streams (stream_configs (current_config cm1)) new_manager = Inr (stream_manager a, acts)"
    "g_log_level a = string_to_loglevel (log_level_str (current_config cm1))"
    using app_start_up [OF assms(1)] by blast
  have "current_config cm1 = snd (parse_config_json cm0 (json_lib parser) fls default_global)"
    using s(2) by simp
  then have cur: "stream_configs (current_config cm1) = loaded_streams cm0 xs"
    "log_level_str (current_config cm1) = given_or lvl ''INFO''"
    using parse_config_entries [of fls cm0 s0 parser lvl xs] assms(2,3) config_path_ctor [OF s(1)]
    by simp_all
  note ids = loaded_ids [OF assms(4), of cm0]
  note u = s(4) [unfolded cur(1)]
  have "map_of (active_stream_configs (stream_manager a)) k
      = last_option (filter (\<lambda>c. enabled c \<and> st_id c = k) (loaded_streams cm0 xs))
    \<and> map_of (stream_threads (stream_manager a)) k = map_option (\<lambda>c. \<lparr>th_config = c, th_running = True\<rparr>)
        (last_option (filter (\<lambda>c. enabled c \<and> st_id c = k) (loaded_streams cm0 xs)))" for k
    using reconciled_active [OF manager_inv_new ids u, of k] reconciled_thread [OF manager_inv_new ids u, of k]
    by (simp add: new_manager_def reconciled_def desired_configs_last split: option.splits)
  with s(1,3,5) cur show ?thesis by simp
qed

lemma singleton_maps:
  "map f xs = [a] \<Longrightarrow> map g xs = [b] \<Longrightarrow> \<exists>c. xs = [c] \<and> f c = a \<and> g c = b"
  by (cases xs) auto

lemma case_Up: "(case r of Up a \<Rightarrow> P a | _ \<Rightarrow> False) \<Longrightarrow> \<exists>a. r = Up a \<and> P a"
  by (cases r) auto

definition app_entry :: stream_entry where
  "app_entry = \<lparr>se_id = Some 7, se_url = Some ''rtsp://a'', se_fps = None, se_keyframe = None,
     se_enabled = Some True, se_scale = None, se_crop = None, se_events = None\<rparr>"

definition app_doc :: json where
  "app_doc = config_json (Some ''DEBUG'') [app_entry]"

definition sample_app :: app_result where
  "sample_app = app_start [''FP_CONFIG_PATH'' \<mapsto> ''c''] 8 (json_lib (\<lambda>_. Inr app_doc)) [''c'' \<mapsto> ''x'']"

lemma sample_app_up: "\<exists>a. sample_app = Up a"
proof -
  have "(case sample_app of Up a \<Rightarrow> True | _ \<Rightarrow> False)" by code_simp
  then show ?thesis by (auto split: app_result.splits)
qed

theorem app_starts_configured_streams_witness:
  "\<exists>a cm c. sample_app = Up a \<and> config_manager_ctor [''FP_CONFIG_PATH'' \<mapsto> ''c''] = Inr cm
     \<and> map_of (stream_threads (stream_manager a)) 7
         = map_option (\<lambda>c. \<lparr>th_config = c, th_running = True\<rparr>)
             (last_option (filter (\<lambda>c. enabled c \<and> st_id c = 7) (loaded_streams cm [app_entry])))
     \<and> g_log_level a = DEBUG"
proof -
  obtain a where a: "sample_app = Up a" using sample_app_up by blast
  have "[''c'' \<mapsto> ''x''] (get_env [''FP_CONFIG_PATH'' \<mapsto> ''c''] ''FP_CONFIG_PATH''
      ''/etc/fp/configs/config.json'') = Some ''x''"
    by (simp add: get_env_def)
  moreover have "\<forall>x \<in> set [app_entry]. \<forall>i. se_id x = Some i \<longrightarrow> int_min \<le> i \<and> i \<le> int_max"
    by (simp add: app_entry_def)
  moreover have "string_to_loglevel ''DEBUG'' = DEBUG" by code_simp
  ultimately show ?thesis
    using app_starts_configured_streams [OF a [unfolded sample_app_def], of "''x''" "Some ''DEBUG''" "[app_entry]"] a
    by (auto simp: app_doc_def)
qed

text \<open>
  without the environment variable the process runs \<open>cores - 2\<close> workers and at least one, as
  documented, up to the range of the \<open>int16_t\<close> that holds the number.
\<close>

theorem default_worker_count:
  assumes "env ''FP_NUM_WORKER_THREADS'' = None" and "0 \<le> cores" and "cores < 2 ^ 15"
  shows "\<exists>n. get_worker_count env cores = Inr n
    \<and> length (worker_start (narrow 16 n)) = (if cores \<le> 3 then 1 else nat cores - 2)"
proof -
  have "get_worker_count env cores = Inr (max 1 (cores - 2))"
    using assms by (simp add: get_worker_count_def get_env_def stoi_show_int)
  moreover have "narrow 16 (max 1 (cores - 2)) = max 1 (cores - 2)"
    using assms by (intro narrow_id) auto
  ultimately show ?thesis using assms by (auto simp: worker_start_def nat_diff_distrib)
qed

theorem default_worker_count_witness:
  "\<exists>n. get_worker_count Map.empty 8 = Inr n \<and> length (worker_start (narrow 16 n)) = 6"
  using default_worker_count [of Map.empty 8] by simp

end
