(* ===== verification/Service.thy ===== *)
theory Service
  imports App
begin

text \<open>
  The running child process: the reloader thread with the callback of \<open>app_logic\<close>, from the start
  through any number of reload cycles and into the shutdown. The reloader thread stops only when
  the configuration manager is destroyed, the last of the components.
\<close>

section \<open>The reloader and its callback\<close>

text \<open>
  The callback changes nothing that the reloader reads, so the callbacks of a run are applied in
  their order after it.
\<close>

definition apply_updates :: "GlobalConfig list \<Rightarrow> app \<Rightarrow> stdexc + app" where
  "apply_updates configs a = foldl (\<lambda>r c. rbind r (update_callback c)) (Inr a) configs"

definition reload_service ::
  "'e simdjson \<Rightarrow> ('e \<Rightarrow> 'e \<Rightarrow> 'e) \<Rightarrow> (cycle \<times> (files \<Rightarrow> files)) list \<Rightarrow> app \<Rightarrow> files
     \<Rightarrow> stdexc + (app \<times> files)" where
  "reload_service sj reread cys a fls =
     rbind (reloader_loop sj reread cys (config_manager a) fls) (\<lambda>(cm, fls', configs).
       rbind (apply_updates configs (a\<lparr>config_manager := cm\<rparr>)) (\<lambda>a'. Inr (a', fls')))"

lemma apply_updates_Nil [simp]: "apply_updates [] a = Inr a"
  by (simp add: apply_updates_def)

lemma apply_updates_snoc [simp]:
  "apply_updates (cs @ [c]) a = rbind (apply_updates cs a) (update_callback c)"
  by (simp add: apply_updates_def)

lemma apply_updates_ok:
  assumes "manager_inv (stream_manager a)"
  shows "\<exists>m l. apply_updates cs a = Inr (a\<lparr>g_log_level := l, stream_manager := m\<rparr>) \<and> manager_inv m
    \<and> (if cs = [] then l = g_log_level a \<and> m = stream_manager a
       else l = string_to_loglevel (log_level_str (last cs))
         \<and> (\<exists>m0 acts. manager_inv m0 \<and> update_streams (stream_configs (last cs)) m0 = Inr (m, acts)))"
proof (induction cs rule: rev_induct)
  case Nil
  then show ?case using assms by (auto intro!: exI [of _ "stream_manager a"] exI [of _ "g_log_level a"])
next
  case (snoc c cs)
  then obtain m l where "apply_updates cs a = Inr (a\<lparr>g_log_level := l, stream_manager := m\<rparr>)" "manager_inv m"
    by blast
  with update_callback_ok [of "a\<lparr>g_log_level := l, stream_manager := m\<rparr>" c] show ?case by auto
qed

lemma apply_updates_result:
  assumes "apply_updates cs a = Inr a'" and "manager_inv (stream_manager a)"
  shows "config_manager a' = config_manager a \<and> manager_inv (stream_manager a')
    \<and> (if cs = [] then a' = a
       else g_log_level a' = string_to_loglevel (log_level_str (last cs))
         \<and> (\<exists>m0 acts. manager_inv m0
              \<and> update_streams (stream_configs (last cs)) m0 = Inr (stream_manager a', acts)))"
proof -
  obtain m l where "apply_updates cs a = Inr (a\<lparr>g_log_level := l, stream_manager := m\<rparr>)" "manager_inv m"
    "if cs = [] then l = g_log_level a \<and> m = stream_manager a
       else l = string_to_loglevel (log_level_str (last cs))
         \<and> (\<exists>m0 acts. manager_inv m0 \<and> update_streams (stream_configs (last cs)) m0 = Inr (m, acts))"
    using apply_updates_ok [OF assms(2), of cs] by (elim exE conjE)
  with assms(1) show ?thesis by (cases "cs = []") auto
qed

section \<open>The streams of a configuration\<close>

text \<open>The streams that run are enabled streams of the configuration, up to \<open>operator==\<close>.\<close>

definition streams_of :: "GlobalConfig \<Rightarrow> StreamIoManager \<Rightarrow> bool" where
  "streams_of g m \<longleftrightarrow> (\<forall>k t. map_of (stream_threads m) k = Some t \<longrightarrow>
     (\<exists>d. last_option (filter (\<lambda>c. enabled c \<and> st_id c = k) (stream_configs g)) = Some d
        \<and> stream_eq d (th_config t)))"

lemma update_streams_of:
  assumes "manager_inv m0" and "ids_in_range (stream_configs g)"
    and "update_streams (stream_configs g) m0 = Inr (m, acts)"
  shows "streams_of g m"
proof -
  have "\<exists>d. map_of (desired_configs (stream_configs g)) k = Some d \<and> stream_eq d (th_config t)"
    if "map_of (stream_threads m) k = Some t" for k t
  proof -
    have "map_of (active_stream_configs m) k = Some (th_config t)"
      using update_streams_inv [OF assms(1,3)] that by (metis manager_inv_def option.simps(9))
    then show ?thesis
      using reconciled_active [OF assms, of k] by (auto simp: reconciled_def split: option.splits if_splits)
  qed
  then show ?thesis by (simp add: streams_of_def desired_configs_last)
qed

lemma app_running:
  assumes "app_start env cores sj fls = Up a"
  shows "cm_has_callback (config_manager a)" "manager_inv (stream_manager a)"
    "g_log_level a = string_to_loglevel (log_level_str (current_config (config_manager a)))"
    "\<exists>acts. update_streams (stream_configs (current_config (config_manager a))) new_manager
       = Inr (stream_manager a, acts)"
  using app_start_up [OF assms] update_streams_inv [OF manager_inv_new] by auto

section \<open>The end of the child process\<close>

text \<open>
  The end of \<open>app_logic\<close>: the three stop calls, then the destructors of its locals in the reverse
  order of their declaration, each of which stops its component again. The reloader thread lives
  until the destructor of the configuration manager joins it; until then it may call the callback,
  which refers to the stream manager. \<open>invalid_call\<close> records a call after that has been destroyed.
\<close>

datatype exit_pc =
  StopStreams | StopWorkers | StopPublisher | DropPublisher | DropWorkers | DropStreams | DropConfig
| ChildExited

record child_exit =
  service :: app
  open_batches :: batcher
  exit_pc :: exit_pc
  batching_joined :: bool
  streams_destroyed :: bool
  reloader_joined :: bool
  invalid_call :: bool

definition exit_start :: "app \<Rightarrow> batcher \<Rightarrow> child_exit" where
  "exit_start a b =
     \<lparr>service = a, open_batches = b, exit_pc = StopStreams, batching_joined = False,
      streams_destroyed = False, reloader_joined = False, invalid_call = False\<rparr>"

definition stream_manager_dtor :: "app \<Rightarrow> app" where
  "stream_manager_dtor a = a\<lparr>stream_manager := fst (stop_all (stream_manager a))\<rparr>"

definition worker_dtor :: "app \<Rightarrow> app" where
  "worker_dtor a =
     (case worker_stop (decode_frame_queue a) (processed_frame_queue a) of
        (dq, pq) \<Rightarrow> a\<lparr>decode_frame_queue := dq, processed_frame_queue := pq, workers := []\<rparr>)"

text \<open>The second call finds the batching thread joined and only stops the queues again.\<close>

definition publisher_dtor :: "(bool \<times> int) list \<Rightarrow> child_exit \<Rightarrow> child_exit option" where
  "publisher_dtor es s =
     (let a = service s; b = open_batches s
      in if batching_joined s
         then Some (if redis_target (publisher a) = None then s
                    else s\<lparr>service := a\<lparr>processed_frame_queue := fifo_stop (processed_frame_queue a)\<rparr>,
                           open_batches := b\<lparr>batch_queue := fifo_stop (batch_queue b)\<rparr>\<rparr>)
         else map_option (\<lambda>(q, b'). s\<lparr>service := a\<lparr>processed_frame_queue := q\<rparr>, open_batches := b',
                                        batching_joined := True\<rparr>)
                (publisher_stop (publisher a) es (processed_frame_queue a) b))"

definition config_manager_dtor :: "child_exit \<Rightarrow> child_exit" where
  "config_manager_dtor s = s\<lparr>reloader_joined := True\<rparr>"

definition exit_main :: "(bool \<times> int) list \<Rightarrow> child_exit \<Rightarrow> child_exit option" where
  "exit_main es s =
     (case exit_pc s of
        StopStreams \<Rightarrow> Some (s\<lparr>service := stream_manager_dtor (service s), exit_pc := StopWorkers\<rparr>)
      | StopWorkers \<Rightarrow> Some (s\<lparr>service := worker_dtor (service s), exit_pc := StopPublisher\<rparr>)
      | StopPublisher \<Rightarrow> map_option (\<lambda>s'. s'\<lparr>exit_pc := DropPublisher\<rparr>) (publisher_dtor es s)
      | DropPublisher \<Rightarrow> map_option (\<lambda>s'. s'\<lparr>exit_pc := DropWorkers\<rparr>) (publisher_dtor es s)
      | DropWorkers \<Rightarrow> Some (s\<lparr>service := worker_dtor (service s), exit_pc := DropStreams\<rparr>)
      | DropStreams \<Rightarrow> Some (s\<lparr>service := stream_manager_dtor (service s), streams_destroyed := True,
                              exit_pc := DropConfig\<rparr>)
      | DropConfig \<Rightarrow> Some ((config_manager_dtor s)\<lparr>exit_pc := ChildExited\<rparr>)
      | ChildExited \<Rightarrow> None)"

definition late_callback :: "GlobalConfig \<Rightarrow> child_exit \<Rightarrow> child_exit option" where
  "late_callback g s =
     (if reloader_joined s then None
      else if streams_destroyed s then Some (s\<lparr>invalid_call := True\<rparr>)
      else (case update_callback g (service s) of
              Inl _ \<Rightarrow> None | Inr a \<Rightarrow> Some (s\<lparr>service := a\<rparr>)))"

inductive exit_step :: "child_exit \<Rightarrow> child_exit \<Rightarrow> bool" where
  Main: "exit_main es s = Some s' \<Longrightarrow> exit_step s s'"
| Callback: "late_callback g s = Some s' \<Longrightarrow> exit_step s s'"

inductive_cases exit_stepE: "exit_step s s'"

text \<open>
  The same interleaving with the reloader's own iterations in place of arbitrary callbacks: an
  iteration runs while the thread has not been told to stop, reads the files, and calls the callback
  only when the parsed configuration differs from the current one.
\<close>

definition late_cycle ::
  "'e simdjson \<Rightarrow> ('e \<Rightarrow> 'e \<Rightarrow> 'e) \<Rightarrow> cycle \<Rightarrow> child_exit \<times> files \<Rightarrow> (child_exit \<times> files) option" where
  "late_cycle sj reread cy x =
     (case x of (s, fls) \<Rightarrow>
        if reloader_joined s \<or> stop_before cy \<or> stop_after_wait cy then None
        else (case reload_cycle sj reread cy (config_manager (service s)) fls of
                Inl _ \<Rightarrow> None
              | Inr (cm, fls', notified) \<Rightarrow>
                  let s1 = s\<lparr>service := (service s)\<lparr>config_manager := cm\<rparr>\<rparr>
                  in (case notified of
                        [] \<Rightarrow> Some (s1, fls')
                      | g # _ \<Rightarrow> map_option (\<lambda>s2. (s2, fls')) (late_callback g s1))))"

inductive shutdown_step ::
  "'e simdjson \<Rightarrow> ('e \<Rightarrow> 'e \<Rightarrow> 'e) \<Rightarrow> child_exit \<times> files \<Rightarrow> child_exit \<times> files \<Rightarrow> bool"
  for sj reread where
  MainThread: "exit_main es s = Some s' \<Longrightarrow> shutdown_step sj reread (s, fls) (s', fls)"
| Reloader: "late_cycle sj reread cy x = Some y \<Longrightarrow> shutdown_step sj reread x y"

fun exit_rank :: "exit_pc \<Rightarrow> nat" where
  "exit_rank StopStreams = 0"
| "exit_rank StopWorkers = 1"
| "exit_rank StopPublisher = 2"
| "exit_rank DropPublisher = 3"
| "exit_rank DropWorkers = 4"
| "exit_rank DropStreams = 5"
| "exit_rank DropConfig = 6"
| "exit_rank ChildExited = 7"

text \<open>What each step of the shutdown has established for good.\<close>

definition exit_inv :: "child_exit \<Rightarrow> bool" where
  "exit_inv s \<longleftrightarrow> manager_inv (stream_manager (service s))
     \<and> (2 < exit_rank (exit_pc s) \<longrightarrow> batching_joined s)
     \<and> (1 < exit_rank (exit_pc s) \<longrightarrow> workers (service s) = [] \<and> stopped (decode_frame_queue (service s))
          \<and> stopped (processed_frame_queue (service s)))
     \<and> (streams_destroyed s \<longleftrightarrow> 5 < exit_rank (exit_pc s))
     \<and> (streams_destroyed s \<longrightarrow> stream_threads (stream_manager (service s)) = [])
     \<and> (reloader_joined s \<longleftrightarrow> exit_pc s = ChildExited)
     \<and> (batching_joined s \<and> redis_target (publisher (service s)) \<noteq> None
          \<longrightarrow> current_batches (open_batches s) = [] \<and> stopped (batch_queue (open_batches s)))
     \<and> (invalid_call s \<longrightarrow> streams_destroyed s)"

lemma exit_inv_start: "manager_inv (stream_manager a) \<Longrightarrow> exit_inv (exit_start a b)"
  by (simp add: exit_inv_def exit_start_def)

lemma stream_manager_dtor_fields [simp]:
  "manager_inv (stream_manager a) \<Longrightarrow> manager_inv (stream_manager (stream_manager_dtor a))"
  "stream_threads (stream_manager (stream_manager_dtor a)) = []"
  "workers (stream_manager_dtor a) = workers a" "publisher (stream_manager_dtor a) = publisher a"
  "decode_frame_queue (stream_manager_dtor a) = decode_frame_queue a"
  "processed_frame_queue (stream_manager_dtor a) = processed_frame_queue a"
  by (simp_all add: stream_manager_dtor_def stop_all_inv) (simp add: stop_all_def)

lemma worker_dtor_fields [simp]:
  "stream_manager (worker_dtor a) = stream_manager a" "publisher (worker_dtor a) = publisher a"
  "workers (worker_dtor a) = []" "stopped (decode_frame_queue (worker_dtor a))"
  "stopped (processed_frame_queue (worker_dtor a))"
  by (simp_all add: worker_dtor_def worker_stop_def)

lemma publisher_dtor_result:
  assumes "publisher_dtor es s = Some s'"
    and "stopped (processed_frame_queue (service s))"
  shows "stopped (processed_frame_queue (service s')) \<and> batching_joined s'
    \<and> stream_manager (service s') = stream_manager (service s) \<and> workers (service s') = workers (service s)
    \<and> decode_frame_queue (service s') = decode_frame_queue (service s)
    \<and> publisher (service s') = publisher (service s) \<and> streams_destroyed s' = streams_destroyed s
    \<and> reloader_joined s' = reloader_joined s \<and> invalid_call s' = invalid_call s"
proof (cases "batching_joined s")
  case True
  with assms show ?thesis by (auto simp: publisher_dtor_def Let_def split: if_splits)
next
  case False
  then obtain q b where q: "publisher_stop (publisher (service s)) es (processed_frame_queue (service s))
      (open_batches s) = Some (q, b)"
    and s': "s' = s\<lparr>service := (service s)\<lparr>processed_frame_queue := q\<rparr>, open_batches := b, batching_joined := True\<rparr>"
    using assms(1) by (auto simp: publisher_dtor_def Let_def)
  have "stopped q"
    using assms(2) q publisher_stop_result [OF q] by (cases "redis_target (publisher (service s)) = None")
      (simp_all add: publisher_stop_def)
  then show ?thesis by (simp add: s')
qed

lemma publisher_dtor_flushed:
  assumes "publisher_dtor es s = Some s'" and "redis_target (publisher (service s)) \<noteq> None"
    and "batching_joined s \<longrightarrow> current_batches (open_batches s) = []"
  shows "current_batches (open_batches s') = [] \<and> stopped (batch_queue (open_batches s'))"
  using assms publisher_stop_result [of "publisher (service s)" es "processed_frame_queue (service s)"]
  by (auto simp: publisher_dtor_def Let_def split: if_splits)

lemma publisher_exit_inv:
  assumes "exit_inv s" and "publisher_dtor es s = Some s'"
    and "exit_pc s = StopPublisher \<and> pc = DropPublisher \<or> exit_pc s = DropPublisher \<and> pc = DropWorkers"
  shows "exit_inv (s'\<lparr>exit_pc := pc\<rparr>)"
proof -
  have "stopped (processed_frame_queue (service s))" using assms(1,3) by (auto simp: exit_inv_def)
  note r = publisher_dtor_result [OF assms(2) this] publisher_dtor_flushed [OF assms(2)]
  from assms(3) show ?thesis
    by (elim disjE conjE) (use assms(1) r in \<open>simp_all add: exit_inv_def del: not_None_eq, blast+\<close>)
qed

lemma exit_main_inv: "exit_inv s \<Longrightarrow> exit_main es s = Some s' \<Longrightarrow> exit_inv s'"
  by (cases "exit_pc s")
    (auto simp: exit_main_def publisher_exit_inv, auto simp: exit_inv_def config_manager_dtor_def)

lemma late_callback_inv:
  assumes "exit_inv s" and "late_callback g s = Some s'"
  shows "exit_inv s' \<and> exit_pc s' = exit_pc s"
proof (cases "streams_destroyed s")
  case True
  with assms show ?thesis by (auto simp: late_callback_def exit_inv_def split: if_splits)
next
  case False
  obtain m acts where "manager_inv m" "update_callback g (service s)
      = Inr ((service s)\<lparr>g_log_level := string_to_loglevel (log_level_str g), stream_manager := m\<rparr>)"
    using update_callback_ok [of "service s" g] assms(1) by (auto simp: exit_inv_def)
  with False assms show ?thesis by (auto simp: late_callback_def exit_inv_def split: if_splits)
qed

lemma exit_main_rank: "exit_main es s = Some s' \<Longrightarrow> exit_rank (exit_pc s') = Suc (exit_rank (exit_pc s))"
  by (cases "exit_pc s") (auto simp: exit_main_def)

lemma exit_main_joined:
  "exit_main es s = Some s' \<Longrightarrow> exit_rank (exit_pc s) < 6 \<Longrightarrow> reloader_joined s' = reloader_joined s"
  by (cases "exit_pc s") (auto simp: exit_main_def publisher_dtor_def Let_def split: if_splits)

lemma exit_rank_bound: "exit_rank pc \<le> 7"
  by (cases pc) simp_all

lemma exit_main_total: "exit_pc s \<noteq> ChildExited \<Longrightarrow> exit_main [(True, 0)] s \<noteq> None"
  using publisher_stop_now [of "publisher (service s)" 0 "processed_frame_queue (service s)" "open_batches s"]
  by (cases "exit_pc s") (auto simp: exit_main_def publisher_dtor_def Let_def)

interpretation child_exit: ending_threads "\<lambda>s. \<exists>a b. manager_inv (stream_manager a) \<and> s = exit_start a b"
  exit_step exit_inv "\<lambda>s s'. \<exists>es. exit_main es s = Some s'" "\<lambda>s. True"
  "\<lambda>s. 7 - exit_rank (exit_pc s)" "\<lambda>s. exit_pc s = ChildExited"
proof unfold_locales
  fix s s'
  show "\<exists>a b. manager_inv (stream_manager a) \<and> s = exit_start a b \<Longrightarrow> exit_inv s"
    using exit_inv_start by blast
  show "exit_step s s' \<Longrightarrow> exit_inv s \<Longrightarrow> exit_inv s'"
    by (auto elim!: exit_stepE dest: exit_main_inv late_callback_inv)
  show "\<exists>es. exit_main es s = Some s' \<Longrightarrow> exit_step s s'" by (auto intro: exit_step.intros)
  show "exit_step s s' \<Longrightarrow> exit_inv s \<Longrightarrow> True \<and> 7 - exit_rank (exit_pc s') \<le> 7 - exit_rank (exit_pc s)"
    by (auto elim!: exit_stepE dest: exit_main_rank late_callback_inv)
  show "7 - exit_rank (exit_pc s') < 7 - exit_rank (exit_pc s)" if "\<exists>es. exit_main es s = Some s'"
    using that exit_main_rank exit_rank_bound [of "exit_pc s'"] by fastforce
  show "exit_pc s \<noteq> ChildExited \<Longrightarrow> \<exists>s' es. exit_main es s = Some s'"
    using exit_main_total by fastforce
qed

section \<open>Properties\<close>

text \<open>
  C30: no stream runs with a configuration that is out of date: after the start and any number of
  reload cycles (the file may change and fail to parse, the API may answer), every stream thread
  of the manager belongs to an enabled stream of the manager's current configuration, runs with a
  configuration equal to it, and the log level is the current one.
\<close>

theorem running_streams_current:
  assumes "app_start env cores sj0 fls0 = Up a"
    and "reload_service sj reread cys a fls = Inr (a', fls')"
    and "ids_in_range (stream_configs (current_config (config_manager a')))"
  shows "streams_of (current_config (config_manager a')) (stream_manager a')
    \<and> g_log_level a' = string_to_loglevel (log_level_str (current_config (config_manager a')))"
proof -
  note a = app_running [OF assms(1)]
  obtain cm cbs where r: "reloader_loop sj reread cys (config_manager a) fls = Inr (cm, fls', cbs)"
    and u: "apply_updates cbs (a\<lparr>config_manager := cm\<rparr>) = Inr a'"
    using assms(2) by (auto simp: reload_service_def rbind_Inr_iff)
  have last: "last (current_config (config_manager a) # cbs) = current_config cm"
    using reloader_run [OF r a(1)] by simp
  have c: "config_manager a' = cm \<and> (if cbs = [] then a' = a\<lparr>config_manager := cm\<rparr>
       else g_log_level a' = string_to_loglevel (log_level_str (last cbs))
         \<and> (\<exists>m0 acts. manager_inv m0
              \<and> update_streams (stream_configs (last cbs)) m0 = Inr (stream_manager a', acts)))"
    using apply_updates_result [OF u] a(2) by (cases "cbs = []") simp_all
  show ?thesis
  proof (cases "cbs = []")
    case True
    then have "stream_manager a' = stream_manager a" "g_log_level a' = g_log_level a"
      "current_config (config_manager a') = current_config (config_manager a)"
      using c last by simp_all
    moreover obtain acts where "update_streams (stream_configs (current_config (config_manager a)))
        new_manager = Inr (stream_manager a, acts)"
      using a(4) by blast
    ultimately show ?thesis
      using a(3) update_streams_of [OF manager_inv_new, of "current_config (config_manager a)"] assms(3)
      by simp
  next
    case False
    then have "last cbs = current_config (config_manager a')" using c last by simp
    then show ?thesis using False c update_streams_of assms(3) by metis
  qed
qed

definition moved_doc :: json where
  "moved_doc = config_json None [app_entry\<lparr>se_url := Some ''rtsp://b''\<rparr>]"

definition moved_lib :: "json simdjson" where
  "moved_lib = json_lib (\<lambda>_. Inr moved_doc)"

text \<open>The started service, its stream, and the configuration file with another address.\<close>

definition moved_ok :: "app \<Rightarrow> bool" where
  "moved_ok a \<longleftrightarrow> api_url (config_manager a) = [] \<and> redis_target (publisher a) = None
     \<and> map_option (url \<circ> th_config) (map_of (stream_threads (stream_manager a)) 7) = Some ''rtsp://a''
     \<and> log_level_str (current_config (config_manager a)) = ''DEBUG''
     \<and> (case parse_config_json (config_manager a) moved_lib [''c'' \<mapsto> ''y''] default_global of
          (ok, g) \<Rightarrow> ok \<and> map st_id (stream_configs g) = [7] \<and> map enabled (stream_configs g) = [True]
            \<and> map url (stream_configs g) = [''rtsp://b''] \<and> log_level_str g = ''INFO'')"

lemma sample_app_moved: "\<exists>a. sample_app = Up a \<and> moved_ok a"
proof -
  have "(case sample_app of Up a \<Rightarrow> moved_ok a | _ \<Rightarrow> False)"
    by code_simp
  then show ?thesis by (rule case_Up)
qed

lemma sample_moved:
  obtains a g c t where "sample_app = Up a" "api_url (config_manager a) = []"
    "redis_target (publisher a) = None"
    "parse_config_json (config_manager a) moved_lib [''c'' \<mapsto> ''y''] default_global = (True, g)"
    "\<not> global_eq (current_config (config_manager a)) g"
    "stream_configs g = [c]" "st_id c = 7" "enabled c" "url c = ''rtsp://b''"
    "map_of (stream_threads (stream_manager a)) 7 = Some t" "url (th_config t) = ''rtsp://a''"
proof -
  obtain a where a: "sample_app = Up a" "moved_ok a" using sample_app_moved by blast
  obtain ok g where g: "parse_config_json (config_manager a) moved_lib [''c'' \<mapsto> ''y''] default_global = (ok, g)"
    by fastforce
  note m = a(2) [unfolded moved_ok_def g prod.case]
  obtain c where c: "stream_configs g = [c]" "st_id c = 7" "enabled c"
    using m singleton_maps [of st_id "stream_configs g" 7 enabled True] by auto
  obtain t where t: "map_of (stream_threads (stream_manager a)) 7 = Some t" "url (th_config t) = ''rtsp://a''"
    using m by auto
  show thesis
    by (rule that [OF a(1) _ _ _ _ c _ t]) (use m g c in \<open>simp_all add: global_eq_def\<close>)
qed

theorem running_streams_current_witness:
  "\<exists>a a' fls'. sample_app = Up a
     \<and> reload_service moved_lib (\<lambda>a l. l) [(quiet_cycle, id)] a [''c'' \<mapsto> ''y''] = Inr (a', fls')
     \<and> streams_of (current_config (config_manager a')) (stream_manager a')"
proof (rule sample_moved)
  fix a g c t
  assume a: "sample_app = Up a" "api_url (config_manager a) = []"
    and g: "parse_config_json (config_manager a) moved_lib [''c'' \<mapsto> ''y''] default_global = (True, g)"
    "\<not> global_eq (current_config (config_manager a)) g" "stream_configs g = [c]" "st_id c = 7"
  note run = app_running [OF a(1) [unfolded sample_app_def]]
  let ?cm = "(config_manager a)\<lparr>current_config := g\<rparr>"
  have l: "reloader_loop moved_lib (\<lambda>a l. l) [(quiet_cycle, id)] (config_manager a) [''c'' \<mapsto> ''y'']
      = Inr (?cm, [''c'' \<mapsto> ''y''], [g])"
    using a g run(1) by (simp add: quiet_cycle_def reload_cycle_def poll_api_def)
  obtain a' where a': "apply_updates [g] (a\<lparr>config_manager := ?cm\<rparr>) = Inr a'"
    using apply_updates_ok [of "a\<lparr>config_manager := ?cm\<rparr>" "[g]"] run(2) by fastforce
  then have "config_manager a' = ?cm" using apply_updates_result [OF a'] run(2) by simp
  then have "ids_in_range (stream_configs (current_config (config_manager a')))"
    using g by (simp add: ids_in_range_def)
  moreover have r: "reload_service moved_lib (\<lambda>a l. l) [(quiet_cycle, id)] a [''c'' \<mapsto> ''y'']
      = Inr (a', [''c'' \<mapsto> ''y''])"
    using l a' by (simp add: reload_service_def del: reloader_loop.simps)
  ultimately show ?thesis
    using running_streams_current [OF a(1) [unfolded sample_app_def] r] a(1) r by blast
qed

text \<open>Cycles over an unchanged file, without an API, notify once at most.\<close>

definition runs_through :: "cycle list \<Rightarrow> bool" where
  "runs_through cys \<longleftrightarrow> list_all (\<lambda>cy. \<not> stop_before cy \<and> \<not> stop_after_wait cy) cys"

abbreviation unedited :: "cycle list \<Rightarrow> (cycle \<times> (files \<Rightarrow> files)) list" where
  "unedited cys \<equiv> map (\<lambda>cy. (cy, id)) cys"

lemma reloader_idle:
  assumes "api_url cm = []" and "parse_config_json cm sj fls default_global = (True, current_config cm)"
  shows "reloader_loop sj reread (unedited cys) cm fls = Inr (cm, fls, [])"
proof (induction cys)
  case (Cons cy cys)
  have "reload_cycle sj reread cy cm fls = Inr (cm, fls, [])"
    using assms by (simp add: reload_cycle_def poll_api_def)
  with Cons show ?case by simp
qed simp

lemma reloader_notifies_once:
  assumes "api_url cm = []" and "parse_config_json cm sj fls default_global = (True, g)"
    and "\<not> global_eq (current_config cm) g" and "cm_has_callback cm" and "runs_through cys" and "cys \<noteq> []"
  shows "reloader_loop sj reread (unedited cys) cm fls = Inr (cm\<lparr>current_config := g\<rparr>, fls, [g])"
proof -
  obtain cy cys' where cys: "cys = cy # cys'" using assms(6) by (cases cys) auto
  have "reload_cycle sj reread cy cm fls = Inr (cm\<lparr>current_config := g\<rparr>, fls, [g])"
    using assms by (simp add: reload_cycle_def poll_api_def)
  moreover have "reloader_loop sj reread (unedited cys') (cm\<lparr>current_config := g\<rparr>) fls
      = Inr (cm\<lparr>current_config := g\<rparr>, fls, [])"
    using assms(1,2) by (intro reloader_idle) simp_all
  ultimately show ?thesis using assms(5) by (simp add: cys runs_through_def)
qed

text \<open>
  C39: a changed stream stays down: when the configuration file is rewritten so that a running
  stream is still enabled but its configuration differs, the first reload cycle stops its thread,
  and as long as the file stays as it is no later cycle, however many follow, starts it again: the
  update that stops it does not restart it, and the reloader notifies only of a further change.
\<close>

theorem changed_stream_stays_down:
  assumes "manager_inv (stream_manager a)" and "cm_has_callback (config_manager a)"
    and "api_url (config_manager a) = []"
    and "map_of (stream_threads (stream_manager a)) k = Some t"
    and "parse_config_json (config_manager a) sj fls default_global = (True, g)"
    and "ids_in_range (stream_configs g)" and "\<not> global_eq (current_config (config_manager a)) g"
    and "last_option (filter (\<lambda>c. enabled c \<and> st_id c = k) (stream_configs g)) = Some d"
    and "\<not> stream_eq d (th_config t)" and "runs_through cys" and "cys \<noteq> []"
  shows "\<exists>a'. reload_service sj reread (unedited cys) a fls = Inr (a', fls)
    \<and> current_config (config_manager a') = g \<and> map_of (stream_threads (stream_manager a')) k = None"
proof -
  let ?a = "a\<lparr>config_manager := (config_manager a)\<lparr>current_config := g\<rparr>\<rparr>"
  obtain m acts where u: "update_streams (stream_configs g) (stream_manager ?a) = Inr (m, acts)"
    "update_callback g ?a = Inr (?a\<lparr>g_log_level := string_to_loglevel (log_level_str g), stream_manager := m\<rparr>)"
    using update_callback_ok [of ?a g] assms(1) by auto
  have "reload_service sj reread (unedited cys) a fls
      = Inr (?a\<lparr>g_log_level := string_to_loglevel (log_level_str g), stream_manager := m\<rparr>, fls)"
    using reloader_notifies_once [OF assms(3,5,7,2,10,11)] u(2)
    by (simp add: reload_service_def apply_updates_def)
  moreover have "map_of (active_stream_configs (stream_manager a)) k = Some (th_config t)"
    using assms(1,4) by (metis manager_inv_def option.simps(9))
  then have "map_of (stream_threads m) k = None"
    using reconciled_thread [OF assms(1,6), of m acts k] u(1) assms(8,9)
    by (simp add: desired_configs_last reconciled_def)
  ultimately show ?thesis by simp
qed

theorem changed_stream_stays_down_witness:
  "\<exists>a a'. sample_app = Up a \<and> map_of (stream_threads (stream_manager a)) 7 \<noteq> None
     \<and> reload_service moved_lib (\<lambda>a l. l) (unedited [quiet_cycle, quiet_cycle]) a [''c'' \<mapsto> ''y'']
       = Inr (a', [''c'' \<mapsto> ''y''])
     \<and> map_of (stream_threads (stream_manager a')) 7 = None"
proof (rule sample_moved)
  fix a g c t
  assume a: "sample_app = Up a" "api_url (config_manager a) = []"
    and g: "parse_config_json (config_manager a) moved_lib [''c'' \<mapsto> ''y''] default_global = (True, g)"
    "\<not> global_eq (current_config (config_manager a)) g" "stream_configs g = [c]" "st_id c = 7"
    "enabled c" "url c = ''rtsp://b''"
    and t: "map_of (stream_threads (stream_manager a)) 7 = Some t" "url (th_config t) = ''rtsp://a''"
  note run = app_running [OF a(1) [unfolded sample_app_def]]
  have "ids_in_range (stream_configs g)" "\<not> stream_eq c (th_config t)"
    "last_option (filter (\<lambda>c. enabled c \<and> st_id c = 7) (stream_configs g)) = Some c"
    "runs_through [quiet_cycle, quiet_cycle]"
    using g(3-6) t(2) by (simp_all add: ids_in_range_def stream_eq_def runs_through_def quiet_cycle_def)
  then obtain a' where "reload_service moved_lib (\<lambda>a l. l) (unedited [quiet_cycle, quiet_cycle]) a
      [''c'' \<mapsto> ''y''] = Inr (a', [''c'' \<mapsto> ''y''])" "map_of (stream_threads (stream_manager a')) 7 = None"
    using changed_stream_stays_down [OF run(2,1) a(2) t(1) g(1) _ g(2), of c
        "[quiet_cycle, quiet_cycle]" "\<lambda>a l. l"] by blast
  with a(1) t(1) show ?thesis by blast
qed



lemma exit_main_config: "exit_main es s = Some s' \<Longrightarrow> config_manager (service s') = config_manager (service s)"
  by (cases "exit_pc s")
    (auto simp: exit_main_def stream_manager_dtor_def worker_dtor_def publisher_dtor_def
      config_manager_dtor_def Let_def split: prod.splits if_splits)

lemma shutdown_runs:
  "n \<le> 6 \<Longrightarrow> \<exists>s. (shutdown_step sj reread)\<^sup>*\<^sup>* (exit_start a b, fls) (s, fls) \<and> exit_rank (exit_pc s) = n
     \<and> \<not> reloader_joined s \<and> config_manager (service s) = config_manager a"
proof (induction n)
  case 0
  then show ?case by (auto intro!: exI [of _ "exit_start a b"] simp: exit_start_def)
next
  case (Suc n)
  then obtain s where s: "(shutdown_step sj reread)\<^sup>*\<^sup>* (exit_start a b, fls) (s, fls)"
      "exit_rank (exit_pc s) = n" "\<not> reloader_joined s" "config_manager (service s) = config_manager a" "n < 6"
    by auto
  then have "exit_pc s \<noteq> ChildExited" by auto
  then obtain t where t: "exit_main [(True, 0)] s = Some t" using exit_main_total by fastforce
  with s have "exit_rank (exit_pc t) = Suc n" "\<not> reloader_joined t"
    "config_manager (service t) = config_manager a"
    using exit_main_rank [OF t] exit_main_joined [OF t] exit_main_config [OF t] by simp_all
  moreover have "(shutdown_step sj reread)\<^sup>*\<^sup>* (exit_start a b, fls) (t, fls)"
    using s(1) shutdown_step.MainThread [OF t] by (rule rtranclp.rtrancl_into_rtrancl)
  ultimately show ?case by blast
qed

text \<open>
  C40: the shutdown can use a destroyed object: the reloader thread is told to stop and joined only
  by the destructor of the configuration manager, which runs last. So whenever the configuration
  file of a started service has changed to one that parses differently, there is a run of the end
  of \<open>app_logic\<close> in which the stream manager is destroyed first and then an ordinary iteration of
  the reloader reads the file, detects the change and calls the callback, which refers to it.
\<close>

theorem callback_after_destruction:
  assumes "app_start env cores sj0 fls0 = Up a"
    and "parse_config_json (config_manager a) sj fls default_global = (True, g)"
    and "\<not> global_eq (current_config (config_manager a)) g"
  shows "\<exists>s. (shutdown_step sj reread)\<^sup>*\<^sup>* (exit_start a b, fls) (s, fls) \<and> exit_pc s = DropConfig
    \<and> streams_destroyed s \<and> invalid_call s"
proof -
  obtain s where s: "(shutdown_step sj reread)\<^sup>*\<^sup>* (exit_start a b, fls) (s, fls)" "exit_rank (exit_pc s) = 5"
      "\<not> reloader_joined s" "config_manager (service s) = config_manager a"
    using shutdown_runs [of 5 sj reread a b fls] by auto
  then have "exit_pc s = DropStreams" by (cases "exit_pc s") simp_all
  then obtain t where t: "exit_main [] s = Some t" "streams_destroyed t" "exit_pc t = DropConfig"
    "\<not> reloader_joined t" "config_manager (service t) = config_manager a"
    using s(3,4) by (simp add: exit_main_def stream_manager_dtor_def)
  let ?u = "t\<lparr>service := (service t)\<lparr>config_manager := (config_manager a)\<lparr>current_config := g\<rparr>\<rparr>,
      invalid_call := True\<rparr>"
  have "late_cycle sj reread quiet_cycle (t, fls) = Some (?u, fls)"
    using t(2,4,5) assms(2,3) app_running(1) [OF assms(1)]
    by (simp add: late_cycle_def quiet_cycle_def reload_cycle_def poll_api_def fetch_config_from_api_def
        curl_ctor_def curl_get_def Let_def late_callback_def)
  then have "shutdown_step sj reread (t, fls) (?u, fls)" by (rule shutdown_step.Reloader)
  moreover have "(shutdown_step sj reread)\<^sup>*\<^sup>* (exit_start a b, fls) (t, fls)"
    using s(1) shutdown_step.MainThread [OF t(1)] by (rule rtranclp.rtrancl_into_rtrancl)
  ultimately have "(shutdown_step sj reread)\<^sup>*\<^sup>* (exit_start a b, fls) (?u, fls)"
    by (rule rtranclp.rtrancl_into_rtrancl [rotated])
  with t(2,3) show ?thesis by (intro exI [of _ ?u]) simp
qed

theorem callback_after_destruction_witness:
  "\<exists>a s. sample_app = Up a
     \<and> (shutdown_step moved_lib (\<lambda>a l. l))\<^sup>*\<^sup>* (exit_start a (empty_batcher (fifo_new 9 ''b'')), [''c'' \<mapsto> ''y''])
         (s, [''c'' \<mapsto> ''y'']) \<and> invalid_call s"
proof (rule sample_moved)
  fix a and g :: GlobalConfig
  assume a: "sample_app = Up a"
    and g: "parse_config_json (config_manager a) moved_lib [''c'' \<mapsto> ''y''] default_global = (True, g)"
    "\<not> global_eq (current_config (config_manager a)) g"
  from callback_after_destruction [OF a [unfolded sample_app_def] g] a show ?thesis by blast
qed

text \<open>
  after \<open>stop_all\<close> a configuration change that the still running reloader reports starts stream
  threads again, although the decode queue is stopped and refuses their frames.
\<close>

theorem reload_restarts_after_stop:
  assumes "manager_inv (stream_manager a)" and "app_stop es b a = Some (a1, b1)"
    and "ids_in_range (stream_configs g)" and "c \<in> set (stream_configs g)" and "enabled c"
  shows "\<exists>a2 t. update_callback g a1 = Inr a2
    \<and> map_of (stream_threads (stream_manager a2)) (st_id c) = Some t \<and> th_running t
    \<and> stopped (decode_frame_queue a2)"
proof -
  have a1: "stream_manager a1 = fst (stop_all (stream_manager a))" "stopped (decode_frame_queue a1)"
    using assms(2) by (auto simp: app_stop_def Let_def worker_stop_def)
  have inv: "manager_inv (stream_manager a1)" using stop_all_inv [OF assms(1)] a1(1) by simp
  have none: "map_of (stream_threads (stream_manager a1)) k = None" for k
    using a1(1) by (simp add: stop_all_def)
  then have "map_of (active_stream_configs (stream_manager a1)) k = None" for k
    using thread_None_iff [OF inv, of k] by simp
  moreover obtain d where "map_of (desired_configs (stream_configs g)) (st_id c) = Some d"
    using assms(4,5) by (cases "map_of (desired_configs (stream_configs g)) (st_id c)")
      (auto simp: desired_configs_last filter_empty_conv)
  moreover obtain m acts where u: "update_streams (stream_configs g) (stream_manager a1) = Inr (m, acts)"
    "update_callback g a1 = Inr (a1\<lparr>g_log_level := string_to_loglevel (log_level_str g), stream_manager := m\<rparr>)"
    using update_callback_ok [OF inv, of g] by blast
  ultimately have "map_of (stream_threads m) (st_id c) = Some \<lparr>th_config = d, th_running = True\<rparr>"
    using reconciled_thread [OF inv assms(3) u(1), of "st_id c"] none by (simp add: reconciled_def)
  with u(2) a1(2) show ?thesis by simp
qed

theorem reload_restarts_after_stop_witness:
  "\<exists>a a1 b1 a2 g t. sample_app = Up a \<and> app_stop [] (empty_batcher (fifo_new 9 ''b'')) a = Some (a1, b1)
     \<and> update_callback g a1 = Inr a2 \<and> map_of (stream_threads (stream_manager a2)) 7 = Some t
     \<and> th_running t"
proof (rule sample_moved)
  fix a c and g :: GlobalConfig
  assume a: "sample_app = Up a" "redis_target (publisher a) = None"
    and g: "stream_configs g = [c]" "st_id c = 7" "enabled c"
  obtain a1 b1 where s: "app_stop [] (empty_batcher (fifo_new 9 ''b'')) a = Some (a1, b1)"
    using a(2) by (simp add: app_stop_def publisher_stop_def Let_def)
  have "ids_in_range (stream_configs g)" "c \<in> set (stream_configs g)"
    using g by (simp_all add: ids_in_range_def)
  from reload_restarts_after_stop [OF app_running(2) [OF a(1) [unfolded sample_app_def]] s this g(3)] a(1) s g(2)
  show ?thesis by auto
qed

end
