(* ===== verification/System.thy ===== *)
theory System
  imports Worker Publisher
begin

text \<open>
  The running pipeline with any number of worker and publishing threads, and its shutdown. The
  stream threads deliver decoded frames; each worker takes a frame under the queue's lock, runs
  it through its graph and puts the results on the processed queue one by one; the batching
  thread serialises what it takes; each publishing thread takes a batch and sends it or puts it
  back. Every step contains at most one access to a shared queue, so the steps interleave as the
  threads do. The lists from \<open>accepted\<close> on record what has happened and influence nothing. The
  end of the threads is in theory \<open>Shutdown\<close>, the order of the frames in \<open>Ordering\<close>.
\<close>

section \<open>State and steps\<close>

text \<open>
  Where a worker is in its loop: at \<open>wait_and_pop\<close>, with a frame, draining its graph, or out of
  the loop.
\<close>

datatype worker_phase = AtPop | Holding DecodedFrame | Draining DecodedFrame "AVFrame list" | Left

text \<open>Where a publishing thread is: at \<open>wait_and_pop\<close>, with a batch, or out of the loop.\<close>

datatype publisher_phase = Polling | Sending FrameBatch | Gone

record pipeline =
  queue_base :: string
  dry_run :: bool
  decode_queue :: "DecodedFrame fifo"
  processed_queue :: "DecodedFrame fifo"
  phases :: "worker_phase list"
  caches :: "worker_thread list"
  disk :: FrameSaver
  batching :: batcher
  connections :: "RedisConnection option list"
  sending :: "publisher_phase list"
  workers_stopping :: bool
  batching_ended :: bool
  publishers_stopping :: bool
  accepted :: "DecodedFrame list"
  results :: "(DecodedFrame \<times> DecodedFrame list) list"
  emitted :: "DecodedFrame list"
  dropped :: "DecodedFrame list"
  consumed :: "DecodedFrame list"
  batched :: "FrameBatch list"
  published :: "(string \<times> string \<times> byte list) list"
  simulated :: "FrameBatch list"
  lost :: "FrameBatch list"

definition pipeline_start ::
  "string \<Rightarrow> bool \<Rightarrow> nat \<Rightarrow> RedisConnection list \<Rightarrow> FrameSaver \<Rightarrow> 64 word \<Rightarrow> 64 word \<Rightarrow> pipeline" where
  "pipeline_start base dry n conns fs threshold batch_thr =
     \<lparr>queue_base = base, dry_run = dry,
      decode_queue = fifo_new threshold ''decode_frame_queue'',
      processed_queue = fifo_new threshold ''processed_frame_queue'',
      phases = replicate n AtPop, caches = worker_start (int n), disk = fs,
      batching = empty_batcher (fifo_new batch_thr ''publisher_batch_queue''),
      connections = map Some conns, sending = replicate (length conns) Polling,
      workers_stopping = False, batching_ended = False, publishers_stopping = False,
      accepted = [], results = [], emitted = [], dropped = [], consumed = [], batched = [],
      published = [], simulated = [], lost = []\<rparr>"

definition deliver :: "int \<Rightarrow> DecodedFrame \<Rightarrow> pipeline \<Rightarrow> pipeline" where
  "deliver t d p =
     p\<lparr>decode_queue := push t d (decode_queue p),
       accepted := accepted p @ (if stopped (decode_queue p) then [] else [d])\<rparr>"

definition take_frame :: "nat \<Rightarrow> pipeline \<Rightarrow> pipeline option" where
  "take_frame i p =
     (if i < length (phases p) \<and> phases p ! i = AtPop
      then (case wait_and_pop (decode_queue p) of
              Popped d q \<Rightarrow> Some (p\<lparr>decode_queue := q, phases := (phases p)[i := Holding d]\<rparr>)
            | _ \<Rightarrow> None)
      else None)"

text \<open>The frame goes through the worker's own graph; no shared state is touched.\<close>

definition filter_frame :: "nat \<Rightarrow> frame_calls \<Rightarrow> pipeline \<Rightarrow> pipeline option" where
  "filter_frame i e p =
     (if i < length (phases p)
      then (case phases p ! i of
              Holding d \<Rightarrow>
                Some (case prepare_context e d (caches p ! i) of
                        None \<Rightarrow> p\<lparr>phases := (phases p)[i := AtPop], results := results p @ [(d, [])]\<rparr>
                      | Some (w, ctx) \<Rightarrow>
                          let fs = (if \<not> clone_ok e \<or> add_frame e < 0 then []
                                    else drain_frames 5 (pulled e))
                          in p\<lparr>caches := (caches p)[i := w], phases := (phases p)[i := Draining d fs],
                               results := results p @ [(d, map (processed_frame d) fs)]\<rparr>)
            | _ \<Rightarrow> None)
      else None)"

definition world_of :: "nat \<Rightarrow> pipeline \<Rightarrow> worker_world" where
  "world_of i p =
     \<lparr>thread = caches p ! i, saver = disk p, out_queue = processed_queue p, saved = []\<rparr>"

definition send_result :: "nat \<Rightarrow> frame_calls \<Rightarrow> pipeline \<Rightarrow> pipeline option" where
  "send_result i e p =
     (if i < length (phases p)
      then (case phases p ! i of
              Draining d [] \<Rightarrow> Some (p\<lparr>phases := (phases p)[i := AtPop]\<rparr>)
            | Draining d (f # fs) \<Rightarrow>
                let s = emit_frame e d f (world_of i p); out = [processed_frame d f];
                    refused = stopped (processed_queue p)
                in Some (p\<lparr>processed_queue := out_queue s, disk := saver s,
                           caches := (caches p)[i := thread s],
                           phases := (phases p)[i := Draining d fs],
                           emitted := emitted p @ (if refused then [] else out),
                           dropped := dropped p @ (if refused then out else [])\<rparr>)
            | _ \<Rightarrow> None)
      else None)"

text \<open>The batches that a change of the batcher has put on its queue.\<close>

definition new_batches :: "batcher \<Rightarrow> batcher \<Rightarrow> FrameBatch list" where
  "new_batches b b' = drop (length (queue (batch_queue b))) (queue (batch_queue b'))"

definition batch_step :: "int \<Rightarrow> pipeline \<Rightarrow> pipeline option" where
  "batch_step t p =
     (if batching_ended p then None
      else (case wait_and_pop (processed_queue p) of
              Popped d q \<Rightarrow>
                map_option (\<lambda>b. p\<lparr>processed_queue := q, batching := b, consumed := consumed p @ [d],
                                  batched := batched p @ new_batches (batching p) b\<rparr>)
                  (batch_frame t d (batching p))
            | _ \<Rightarrow> None))"

definition take_batch :: "nat \<Rightarrow> pipeline \<Rightarrow> pipeline option" where
  "take_batch j p =
     (if j < length (sending p) \<and> sending p ! j = Polling
      then (case wait_and_pop (batch_queue (batching p)) of
              Popped fb q \<Rightarrow> Some (p\<lparr>batching := (batching p)\<lparr>batch_queue := q\<rparr>,
                                     sending := (sending p)[j := Sending fb]\<rparr>)
            | _ \<Rightarrow> None)
      else None)"

definition sender_of :: "nat \<Rightarrow> pipeline \<Rightarrow> publisher_thread" where
  "sender_of j p =
     \<lparr>redis_conn = connections p ! j, send_queue = batch_queue (batching p), events_log = []\<rparr>"

definition send_batch :: "nat \<Rightarrow> publish_calls \<Rightarrow> pipeline \<Rightarrow> pipeline option" where
  "send_batch j e p =
     (if j < length (sending p)
      then (case sending p ! j of
              Sending fb \<Rightarrow>
                let t = publish_batch (dry_run p) 0 (queue_base p) e fb (sender_of j p);
                    cmds = delivered (events_log t)
                in Some (p\<lparr>batching := (batching p)\<lparr>batch_queue := send_queue t\<rparr>,
                           connections := (connections p)[j := redis_conn t],
                           sending := (sending p)[j := Polling],
                           published := published p @ cmds,
                           simulated := simulated p @ (if dry_run p then [fb] else []),
                           lost := lost p @ (if cmds = [] \<and> \<not> dry_run p
                                               \<and> stopped (batch_queue (batching p))
                                             then [fb] else [])\<rparr>)
            | _ \<Rightarrow> None)
      else None)"

text \<open>
  The shutdown, in the order of \<open>Worker::stop\<close> and \<open>Publisher::stop\<close>: the decode queue, the
  processed queue, the stop requests of the workers; when they have been joined, the stop request
  of the batching thread; when it has been joined, the batch queue. A worker leaves its loop when
  its stop is requested or when \<open>wait_and_pop\<close> reports the end; so does the batching thread, which
  then flushes its open batches; and then the publishing threads.
\<close>

definition stop_input :: "pipeline \<Rightarrow> pipeline" where
  "stop_input p = p\<lparr>decode_queue := fifo_stop (decode_queue p)\<rparr>"

definition stop_output :: "pipeline \<Rightarrow> pipeline option" where
  "stop_output p =
     (if stopped (decode_queue p) then Some (p\<lparr>processed_queue := fifo_stop (processed_queue p)\<rparr>)
      else None)"

definition stop_workers :: "pipeline \<Rightarrow> pipeline option" where
  "stop_workers p =
     (if stopped (processed_queue p) then Some (p\<lparr>workers_stopping := True\<rparr>) else None)"

text \<open>
  The code stops and joins the workers one by one; the one flag for all of them allows more
  interleavings than that.
\<close>

definition leave_loop :: "nat \<Rightarrow> pipeline \<Rightarrow> pipeline option" where
  "leave_loop i p =
     (if i < length (phases p) \<and> phases p ! i = AtPop
         \<and> (workers_stopping p \<or> (stopped (decode_queue p) \<and> queue (decode_queue p) = []))
      then Some (p\<lparr>phases := (phases p)[i := Left]\<rparr>) else None)"

definition end_batching :: "int \<Rightarrow> pipeline \<Rightarrow> pipeline option" where
  "end_batching t p =
     (if \<not> batching_ended p
         \<and> ((workers_stopping p \<and> list_all (\<lambda>ph. ph = Left) (phases p))
            \<or> (stopped (processed_queue p) \<and> queue (processed_queue p) = []))
      then let b = flush_batches t (batching p)
           in Some (p\<lparr>batching := b, batching_ended := True,
                      batched := batched p @ new_batches (batching p) b\<rparr>)
      else None)"

definition stop_batches :: "pipeline \<Rightarrow> pipeline option" where
  "stop_batches p =
     (if batching_ended p
      then Some (p\<lparr>batching := (batching p)\<lparr>batch_queue := fifo_stop (batch_queue (batching p))\<rparr>\<rparr>)
      else None)"

definition stop_publishers :: "pipeline \<Rightarrow> pipeline option" where
  "stop_publishers p =
     (if stopped (batch_queue (batching p)) then Some (p\<lparr>publishers_stopping := True\<rparr>) else None)"

definition publisher_leaves :: "nat \<Rightarrow> pipeline \<Rightarrow> pipeline option" where
  "publisher_leaves j p =
     (if j < length (sending p) \<and> sending p ! j = Polling
         \<and> (publishers_stopping p
            \<or> (stopped (batch_queue (batching p)) \<and> queue (batch_queue (batching p)) = []))
      then Some (p\<lparr>sending := (sending p)[j := Gone]\<rparr>) else None)"

text \<open>
  The graphs deliver frames in the layout of the planar format, and a batch in memory is far
  below the range of \<open>size_t\<close>.
\<close>

definition planar :: "frame_calls \<Rightarrow> bool" where
  "planar e \<longleftrightarrow> list_all (\<lambda>p. frame_ok (snd p)) (pulled e)"

definition in_memory :: "batcher \<Rightarrow> bool" where
  "in_memory b \<longleftrightarrow> list_all (\<lambda>p. length (data_buffer (snd p)) < 2 ^ 62) (current_batches b)"

inductive pipeline_step :: "pipeline \<Rightarrow> pipeline \<Rightarrow> bool" where
  Deliver: "pipeline_step p (deliver t d p)"
| Take: "take_frame i p = Some p' \<Longrightarrow> pipeline_step p p'"
| Filter: "filter_frame i e p = Some p' \<Longrightarrow> planar e \<Longrightarrow> pipeline_step p p'"
| Send: "send_result i e p = Some p' \<Longrightarrow> pipeline_step p p'"
| Batch: "batch_step t p = Some p' \<Longrightarrow> in_memory (batching p) \<Longrightarrow> pipeline_step p p'"
| TakeBatch: "take_batch j p = Some p' \<Longrightarrow> pipeline_step p p'"
| SendBatch: "send_batch j c p = Some p' \<Longrightarrow> pipeline_step p p'"
| StopInput: "pipeline_step p (stop_input p)"
| StopOutput: "stop_output p = Some p' \<Longrightarrow> pipeline_step p p'"
| StopWorkers: "stop_workers p = Some p' \<Longrightarrow> pipeline_step p p'"
| Leave: "leave_loop i p = Some p' \<Longrightarrow> pipeline_step p p'"
| EndBatching: "end_batching t p = Some p' \<Longrightarrow> pipeline_step p p'"
| StopBatches: "stop_batches p = Some p' \<Longrightarrow> pipeline_step p p'"
| StopPublishers: "stop_publishers p = Some p' \<Longrightarrow> pipeline_step p p'"
| PublisherLeaves: "publisher_leaves j p = Some p' \<Longrightarrow> pipeline_step p p'"

inductive_cases pipeline_stepE: "pipeline_step p p'"

section \<open>The invariant\<close>

fun phase_input :: "worker_phase \<Rightarrow> DecodedFrame list" where
  "phase_input (Holding d) = [d]"
| "phase_input _ = []"

fun phase_output :: "worker_phase \<Rightarrow> DecodedFrame list" where
  "phase_output (Draining d fs) = map (processed_frame d) fs"
| "phase_output _ = []"

fun in_hand :: "publisher_phase \<Rightarrow> FrameBatch list" where
  "in_hand (Sending fb) = [fb]"
| "in_hand _ = []"

definition held :: "pipeline \<Rightarrow> DecodedFrame list" where
  "held p = concat (map phase_input (phases p))"

definition unsent :: "pipeline \<Rightarrow> DecodedFrame list" where
  "unsent p = concat (map phase_output (phases p))"

definition underway :: "pipeline \<Rightarrow> FrameBatch list" where
  "underway p = queue (batch_queue (batching p)) @ concat (map in_hand (sending p))"

definition bytes_of :: "int \<times> string \<Rightarrow> FrameBatch list \<Rightarrow> byte list" where
  "bytes_of k fbs = concat (map data_buffer (filter (\<lambda>fb. key_of_batch fb = k) fbs))"

text \<open>What the workers have done, what the batching thread has done, what has been sent.\<close>

definition worker_inv :: "pipeline \<Rightarrow> bool" where
  "worker_inv p \<longleftrightarrow>
     mset (accepted p) = mset (queue (decode_queue p)) + mset (held p) + mset (map fst (results p))
     \<and> mset (concat (map snd (results p))) = mset (emitted p) + mset (dropped p) + mset (unsent p)
     \<and> list_all (\<lambda>(d, outs). length outs \<le> 5
          \<and> list_all (\<lambda>out. batch_key out = batch_key d \<and> frame_ok (frame out)) outs) (results p)
     \<and> emitted p = consumed p @ queue (processed_queue p)"

definition batches_inv :: "pipeline \<Rightarrow> bool" where
  "batches_inv p \<longleftrightarrow> batch_inv (batching p)
     \<and> (\<forall>k. bytes_of k (batched p) @ pending_bytes k (batching p)
          = frames_bytes (key_frames k (consumed p)))
     \<and> (batching_ended p \<longrightarrow> current_batches (batching p) = [])
     \<and> (\<not> batching_ended p \<longrightarrow> \<not> stopped (batch_queue (batching p)))"

definition sending_inv :: "pipeline \<Rightarrow> bool" where
  "sending_inv p \<longleftrightarrow>
     mset (map (command_of (queue_base p)) (batched p))
       = mset (published p) + mset (map (command_of (queue_base p)) (underway p @ simulated p @ lost p))"

definition stop_inv :: "pipeline \<Rightarrow> bool" where
  "stop_inv p \<longleftrightarrow> (dropped p \<noteq> [] \<longrightarrow> stopped (processed_queue p))
     \<and> (lost p \<noteq> [] \<longrightarrow> stopped (batch_queue (batching p)))
     \<and> (simulated p \<noteq> [] \<longrightarrow> dry_run p) \<and> (published p \<noteq> [] \<longrightarrow> \<not> dry_run p)"

definition pipeline_inv :: "pipeline \<Rightarrow> bool" where
  "pipeline_inv p \<longleftrightarrow> worker_inv p \<and> batches_inv p \<and> sending_inv p \<and> stop_inv p"

lemmas inv_defs = pipeline_inv_def worker_inv_def batches_inv_def sending_inv_def stop_inv_def

lemma concat_map_replicate [simp]: "f x = [] \<Longrightarrow> concat (map f (replicate n x)) = []"
  by (induction n) simp_all

lemma bytes_of_append [simp]: "bytes_of k (xs @ ys) = bytes_of k xs @ bytes_of k ys"
  by (simp add: bytes_of_def)

lemma queued_bytes_of: "queued_bytes k b = bytes_of k (queue (batch_queue b))"
  by (simp add: queued_bytes_def bytes_of_def)

lemma emitted_ok:
  assumes "worker_inv p" and "d \<in> set (emitted p)"
  shows "frame_ok (frame d)"
proof -
  have "d \<in># mset (concat (map snd (results p)))"
    using assms by (simp add: worker_inv_def)
  then show ?thesis using assms(1) by (fastforce simp: worker_inv_def list_all_iff)
qed

lemma pipeline_inv_start: "pipeline_inv (pipeline_start base dry n conns fs thr bthr)"
  by (simp add: inv_defs pipeline_start_def held_def unsent_def underway_def bytes_of_def
      empty_batcher_def batch_inv_def pending_bytes_def key_frames_def frames_bytes_def fifo_new_def)

text \<open>The steps of the workers.\<close>

lemma deliver_inv: "pipeline_inv p \<Longrightarrow> pipeline_inv (deliver t d p)"
  by (simp add: inv_defs deliver_def held_def unsent_def underway_def)

lemma phase_update:
  assumes "i < length (phases p)" and "phases p' = (phases p)[i := ph]"
  shows "mset (held p') + mset (phase_input (phases p ! i)) = mset (held p) + mset (phase_input ph)"
    and "mset (unsent p') + mset (phase_output (phases p ! i)) = mset (unsent p) + mset (phase_output ph)"
  using mset_concat_update [OF assms(1), of phase_input ph]
    mset_concat_update [OF assms(1), of phase_output ph] assms(2)
  by (simp_all add: held_def unsent_def)

lemma take_inv:
  assumes "pipeline_inv p" and "take_frame i p = Some p'"
  shows "pipeline_inv p'"
proof -
  obtain d q where i: "i < length (phases p)" "phases p ! i = AtPop"
    and pop: "wait_and_pop (decode_queue p) = Popped d q"
    and p': "p' = p\<lparr>decode_queue := q, phases := (phases p)[i := Holding d]\<rparr>"
    using assms(2) by (auto simp: take_frame_def split: if_splits pop_result.splits)
  have "queue (decode_queue p) = d # queue q"
    using pop by (auto simp: wait_and_pop_Popped)
  with assms(1) show ?thesis
    using phase_update [OF i(1), of p' "Holding d"] i(2) by (simp add: inv_defs underway_def p')
qed

lemma drained_outputs:
  assumes "planar e"
  shows "length (drain_frames 5 (pulled e)) \<le> 5" "list_all frame_ok (drain_frames 5 (pulled e))"
proof -
  have "set (drain_frames n ps) \<subseteq> snd ` set ps" for n ps
    by (induction n ps rule: drain_frames.induct) auto
  from this [of 5 "pulled e"] assms show "list_all frame_ok (drain_frames 5 (pulled e))"
    by (auto simp: planar_def list_all_iff)
qed (rule length_drain_frames)

lemma filter_frame_cases:
  assumes "filter_frame i e p = Some p'" and "planar e"
  obtains d ph fs cs where "i < length (phases p)" "phases p ! i = Holding d"
    "phase_input ph = []" "phase_output ph = map (processed_frame d) fs"
    "length fs \<le> 5" "list_all frame_ok fs"
    "p' = p\<lparr>caches := cs, phases := (phases p)[i := ph],
            results := results p @ [(d, map (processed_frame d) fs)]\<rparr>"
proof -
  obtain d where i: "i < length (phases p)" "phases p ! i = Holding d"
    using assms(1) by (auto simp: filter_frame_def split: if_splits worker_phase.splits)
  show ?thesis
  proof (cases "prepare_context e d (caches p ! i)")
    case None
    then have "p' = p\<lparr>caches := caches p, phases := (phases p)[i := AtPop],
            results := results p @ [(d, map (processed_frame d) [])]\<rparr>"
      using assms(1) i by (simp add: filter_frame_def)
    with i show ?thesis by (intro that [of d AtPop "[]" "caches p"]) simp_all
  next
    case (Some wc)
    define fs where "fs = (if \<not> clone_ok e \<or> add_frame e < 0 then [] else drain_frames 5 (pulled e))"
    have "p' = p\<lparr>caches := (caches p)[i := fst wc], phases := (phases p)[i := Draining d fs],
            results := results p @ [(d, map (processed_frame d) fs)]\<rparr>"
      using assms(1) i Some by (simp add: filter_frame_def fs_def Let_def split_beta)
    moreover have "length fs \<le> 5 \<and> list_all frame_ok fs"
      using drained_outputs [OF assms(2)] by (simp add: fs_def)
    ultimately show ?thesis using i
      by (intro that [of d "Draining d fs" fs "(caches p)[i := fst wc]"]) simp_all
  qed
qed

lemma filter_inv:
  assumes "pipeline_inv p" and "filter_frame i e p = Some p'" and "planar e"
  shows "pipeline_inv p'"
proof -
  obtain d ph fs cs where i: "i < length (phases p)" "phases p ! i = Holding d"
    and ph: "phase_input ph = []" "phase_output ph = map (processed_frame d) fs"
      "length fs \<le> 5" "list_all frame_ok fs"
    and p': "p' = p\<lparr>caches := cs, phases := (phases p)[i := ph],
               results := results p @ [(d, map (processed_frame d) fs)]\<rparr>"
    by (rule filter_frame_cases [OF assms(2,3)])
  have "mset (held p') + {#d#} = mset (held p)"
    "mset (unsent p') = mset (unsent p) + mset (map (processed_frame d) fs)"
    using phase_update [OF i(1), of p' ph] i(2) ph(1,2) by (simp_all add: p')
  moreover have "list_all (\<lambda>out. batch_key out = batch_key d \<and> frame_ok (frame out))
      (map (processed_frame d) fs)"
    using ph(4) by (simp add: list_all_iff processed_frame_def batch_key_def)
  ultimately show ?thesis
    using assms(1) ph(3) by (auto simp: inv_defs underway_def p')
qed

lemma send_result_inv:
  assumes "pipeline_inv p" and "send_result i e p = Some p'"
  shows "pipeline_inv p'"
proof -
  obtain d fs where i: "i < length (phases p)" "phases p ! i = Draining d fs"
    using assms(2) by (auto simp: send_result_def split: if_splits worker_phase.splits)
  show ?thesis
  proof (cases fs)
    case Nil
    then have p': "p' = p\<lparr>phases := (phases p)[i := AtPop]\<rparr>"
      using assms(2) i by (simp add: send_result_def)
    then show ?thesis
      using assms(1) phase_update [OF i(1), of p' AtPop] i(2) Nil by (simp add: inv_defs underway_def)
  next
    case (Cons f gs)
    define s where "s = emit_frame e d f (world_of i p)"
    let ?r = "stopped (processed_queue p)" and ?out = "[processed_frame d f]"
    have p': "p' = p\<lparr>processed_queue := out_queue s, disk := saver s,
                     caches := (caches p)[i := thread s], phases := (phases p)[i := Draining d gs],
                     emitted := emitted p @ (if ?r then [] else ?out),
                     dropped := dropped p @ (if ?r then ?out else [])\<rparr>"
      using assms(2) i Cons by (simp add: send_result_def s_def Let_def)
    have q: "queue (out_queue s) = queue (processed_queue p) @ (if ?r then [] else ?out)"
      "stopped (out_queue s) = ?r"
      by (simp_all add: s_def world_of_def)
    have "mset (held p') = mset (held p)"
      "mset (unsent p') + {#processed_frame d f#} = mset (unsent p)"
      using phase_update [OF i(1), of p' "Draining d gs"] i(2) Cons by (simp_all add: p')
    with assms(1) q show ?thesis
      by (cases ?r) (auto simp: inv_defs underway_def p' simp del: split_paired_All)
  qed
qed

lemma leave_inv:
  assumes "pipeline_inv p" and "leave_loop i p = Some p'"
  shows "pipeline_inv p'"
proof -
  have i: "i < length (phases p)" "phases p ! i = AtPop"
    and p': "p' = p\<lparr>phases := (phases p)[i := Left]\<rparr>"
    using assms(2) by (auto simp: leave_loop_def split: if_splits)
  show ?thesis
    using assms(1) phase_update [OF i(1), of p' Left] i(2) by (simp add: inv_defs underway_def p')
qed

text \<open>The steps of the batching thread.\<close>

lemma pending_bytes_bound: "in_memory b \<Longrightarrow> length (pending_bytes k b) < 2 ^ 62"
  by (fastforce simp: in_memory_def pending_bytes_def list_all_iff split: option.splits dest: map_of_SomeD)

lemma key_frames_snoc:
  "frames_bytes (key_frames k (ds @ [d]))
     = frames_bytes (key_frames k ds) @ (if k = batch_key d then image_bytes (frame_image (frame d)) else [])"
  by (simp add: key_frames_def frames_bytes_def)

lemma new_batches_frame:
  "batch_frame t d b = Some b' \<Longrightarrow>
   queue (batch_queue b') = queue (batch_queue b) @ new_batches b b'"
  by (auto simp: batch_frame_def new_batches_def Let_def split: option.splits if_splits)

abbreviation (input) flush_one :: "int \<Rightarrow> (int \<times> string) \<times> FrameBatch \<Rightarrow> FrameBatch fifo \<Rightarrow> FrameBatch fifo" where
  "flush_one t \<equiv> \<lambda>(key, fb) q. if frame_count fb > 0 then push t fb q else q"

lemma flush_queue: "batch_queue (flush_batches t b) = fold (flush_one t) (current_batches b) (batch_queue b)"
  by (simp add: flush_batches_def)

lemma fold_flush:
  "\<exists>fbs. queue (fold (flush_one t) kbs q) = queue q @ fbs" "stopped (fold (flush_one t) kbs q) = stopped q"
proof -
  show "\<exists>fbs. queue (fold (flush_one t) kbs q) = queue q @ fbs"
  proof (induction kbs arbitrary: q)
    case Nil
    then show ?case by simp
  next
    case (Cons p kbs)
    show ?case using Cons [of "push t (snd p) q"] Cons [of q] by (auto simp: split_beta)
  qed
  show "stopped (fold (flush_one t) kbs q) = stopped q"
    by (induction kbs arbitrary: q) (auto simp: split_beta)
qed

lemma new_batches_flush:
  "queue (batch_queue (flush_batches t b)) = queue (batch_queue b) @ new_batches b (flush_batches t b)"
  using fold_flush(1) [of t "current_batches b" "batch_queue b"]
  by (auto simp: flush_queue new_batches_def)

lemma flush_batches_stopped [simp]:
  "stopped (batch_queue (flush_batches t b)) = stopped (batch_queue b)"
  unfolding flush_queue by (rule fold_flush(2))

lemma batch_inv_step:
  assumes "pipeline_inv p" and "batch_step t p = Some p'" and "in_memory (batching p)"
  shows "pipeline_inv p'"
proof -
  obtain d q b where e: "\<not> batching_ended p" and pop: "wait_and_pop (processed_queue p) = Popped d q"
    and b: "batch_frame t d (batching p) = Some b"
    and p': "p' = p\<lparr>processed_queue := q, batching := b, consumed := consumed p @ [d],
                    batched := batched p @ new_batches (batching p) b\<rparr>"
    using assms(2) by (auto simp: batch_step_def split: pop_result.splits if_splits)
  let ?new = "new_batches (batching p) b"
  have q: "queue (processed_queue p) = d # queue q" "stopped q = stopped (processed_queue p)"
    using pop by (auto simp: wait_and_pop_Popped)
  have em: "emitted p = consumed p @ d # queue q" "batch_inv (batching p)"
    "\<not> stopped (batch_queue (batching p))"
    using assms(1) q(1) e by (simp_all add: inv_defs)
  have "frame_ok (frame d)"
    using emitted_ok [of p d] assms(1) em(1) by (simp add: pipeline_inv_def)
  from batch_frame_step [OF em(2) this em(3) pending_bytes_bound [OF assms(3)], of t] b
  have b': "batch_inv b" "\<not> stopped (batch_queue b)"
    and bytes: "\<And>k. queued_bytes k b @ pending_bytes k b
         = queued_bytes k (batching p) @ pending_bytes k (batching p)
           @ (if k = batch_key d then image_bytes (frame_image (frame d)) else [])"
    by (auto simp del: split_paired_All)
  note new = new_batches_frame [OF b]
  have step: "bytes_of k ?new @ pending_bytes k b = pending_bytes k (batching p)
           @ (if k = batch_key d then image_bytes (frame_image (frame d)) else [])" for k
    using bytes [of k] unfolding queued_bytes_of new by simp
  have "bytes_of k (batched p @ ?new) @ pending_bytes k b
      = frames_bytes (key_frames k (consumed p @ [d]))" for k
  proof -
    have "bytes_of k (batched p) @ pending_bytes k (batching p) = frames_bytes (key_frames k (consumed p))"
      using assms(1) unfolding pipeline_inv_def batches_inv_def by (elim conjE) (erule spec)
    then show ?thesis
      unfolding key_frames_snoc bytes_of_append append_assoc step
      by (simp add: append_assoc [symmetric] del: append_assoc)
  qed
  then have "batches_inv p'" using b' e by (simp add: batches_inv_def p')
  moreover have "worker_inv p'" using assms(1) q by (simp add: inv_defs held_def unsent_def p')
  moreover have "sending_inv p'" using assms(1) new by (simp add: inv_defs underway_def p')
  moreover have "stop_inv p'" using assms(1) q(2) e by (auto simp: inv_defs p' simp del: split_paired_All)
  ultimately show ?thesis by (simp add: pipeline_inv_def)
qed

lemma end_batching_inv:
  assumes "pipeline_inv p" and "end_batching t p = Some p'"
  shows "pipeline_inv p'"
proof -
  define b where "b = flush_batches t (batching p)"
  have e: "\<not> batching_ended p"
    and p': "p' = p\<lparr>batching := b, batching_ended := True, batched := batched p @ new_batches (batching p) b\<rparr>"
    using assms(2) by (auto simp: end_batching_def Let_def b_def split: if_splits)
  have bi: "batch_inv (batching p)" "\<not> stopped (batch_queue (batching p))"
    using assms(1) e by (simp_all add: inv_defs)
  have cur: "current_batches b = []" "\<And>k. pending_bytes k b = []"
    by (simp_all add: b_def flush_batches_def pending_bytes_def)
  note new = new_batches_flush [of t "batching p", folded b_def]
  have "bytes_of k (new_batches (batching p) b) = pending_bytes k (batching p)" for k
    using flush_bytes [OF bi, of k t, folded b_def] unfolding queued_bytes_of new by simp
  then have "batches_inv p'"
    using assms(1) cur by (simp add: inv_defs batch_inv_def p' del: split_paired_All)
  moreover have "worker_inv p'" using assms(1) by (simp add: inv_defs held_def unsent_def p')
  moreover have "sending_inv p'" using assms(1) new by (simp add: inv_defs underway_def p')
  moreover have "stop_inv p'" using assms(1) by (simp add: inv_defs b_def p')
  ultimately show ?thesis by (simp add: pipeline_inv_def)
qed

text \<open>The steps of the publishing threads, and the stops.\<close>

lemma same_batches:
  "current_batches b' = current_batches b \<Longrightarrow> batch_inv b' = batch_inv b \<and> pending_bytes k b' = pending_bytes k b"
  by (simp add: batch_inv_def pending_bytes_def)

lemma sending_update:
  assumes "j < length (sending p)"
  shows "mset (map g (concat (map in_hand ((sending p)[j := h])))) + mset (map g (in_hand (sending p ! j)))
    = mset (map g (concat (map in_hand (sending p)))) + mset (map g (in_hand h))"
  using arg_cong [OF mset_concat_update [OF assms, of in_hand h], of "image_mset g"] by simp

lemma take_batch_inv:
  assumes "pipeline_inv p" and "take_batch j p = Some p'"
  shows "pipeline_inv p'"
proof -
  obtain fb q where j: "j < length (sending p)" "sending p ! j = Polling"
    and pop: "wait_and_pop (batch_queue (batching p)) = Popped fb q"
    and p': "p' = p\<lparr>batching := (batching p)\<lparr>batch_queue := q\<rparr>, sending := (sending p)[j := Sending fb]\<rparr>"
    using assms(2) by (auto simp: take_batch_def split: if_splits pop_result.splits)
  have q: "queue (batch_queue (batching p)) = fb # queue q"
      "stopped q = stopped (batch_queue (batching p))"
    using pop by (auto simp: wait_and_pop_Popped)
  have "sending_inv p'"
    using assms(1) q(1) sending_update [OF j(1), of "command_of (queue_base p)" "Sending fb"] j(2)
    by (simp add: inv_defs underway_def p')
  with assms(1) q(2) show ?thesis
    by (simp add: inv_defs held_def unsent_def batch_inv_def pending_bytes_def p')
qed

lemma send_batch_inv:
  assumes "pipeline_inv p" and "send_batch j e p = Some p'"
  shows "pipeline_inv p'"
proof -
  obtain fb where j: "j < length (sending p)" "sending p ! j = Sending fb"
    using assms(2) by (auto simp: send_batch_def split: if_splits publisher_phase.splits)
  define t where "t = publish_batch (dry_run p) 0 (queue_base p) e fb (sender_of j p)"
  define cmds where "cmds = delivered (events_log t)"
  let ?q = "batch_queue (batching p)"
  have p': "p' = p\<lparr>batching := (batching p)\<lparr>batch_queue := send_queue t\<rparr>,
                   connections := (connections p)[j := redis_conn t], sending := (sending p)[j := Polling],
                   published := published p @ cmds,
                   simulated := simulated p @ (if dry_run p then [fb] else []),
                   lost := lost p @ (if cmds = [] \<and> \<not> dry_run p \<and> stopped ?q then [fb] else [])\<rparr>"
    using assms(2) j by (simp add: send_batch_def t_def cmds_def Let_def)
  have c: "if dry_run p then cmds = [] \<and> send_queue t = ?q
      else cmds = [command_of (queue_base p) fb] \<and> send_queue t = ?q
        \<or> cmds = [] \<and> send_queue t = push (pub_now e) fb ?q"
    using publish_batch_cases [of 0 "queue_base p" e fb "sender_of j p"]
      publish_batch_dry [of 0 "queue_base p" e fb "sender_of j p"]
    by (cases "dry_run p") (simp_all add: cmds_def t_def sender_of_def)
  have "sending_inv p'"
    using assms(1) c sending_update [OF j(1), of "command_of (queue_base p)" Polling] j(2)
    by (auto simp: inv_defs underway_def p' split: if_splits)
  moreover have "stopped (send_queue t) = stopped ?q" using c by (auto split: if_splits)
  moreover have "stop_inv p'" if "cmds = [] \<or> \<not> dry_run p"
    using assms(1) that \<open>stopped (send_queue t) = stopped ?q\<close> by (auto simp: pipeline_inv_def stop_inv_def p')
  moreover have "cmds = [] \<or> \<not> dry_run p" using c by (auto split: if_splits)
  ultimately show ?thesis
    using assms(1) by (simp add: pipeline_inv_def worker_inv_def batches_inv_def held_def unsent_def
        batch_inv_def pending_bytes_def p')
qed

lemma publisher_leaves_inv:
  assumes "pipeline_inv p" and "publisher_leaves j p = Some p'"
  shows "pipeline_inv p'"
proof -
  have j: "j < length (sending p)" "sending p ! j = Polling"
    and p': "p' = p\<lparr>sending := (sending p)[j := Gone]\<rparr>"
    using assms(2) by (auto simp: publisher_leaves_def split: if_splits)
  have "sending_inv p'"
    using assms(1) sending_update [OF j(1), of "command_of (queue_base p)" Gone] j(2)
    by (simp add: inv_defs underway_def p')
  with assms(1) show ?thesis by (simp add: inv_defs held_def unsent_def p')
qed

lemma stop_input_inv: "pipeline_inv p \<Longrightarrow> pipeline_inv (stop_input p)"
  by (simp add: inv_defs stop_input_def held_def unsent_def underway_def)

lemma stops_cases:
  "stop_output p = Some p' \<Longrightarrow> p' = p\<lparr>processed_queue := fifo_stop (processed_queue p)\<rparr>"
  "stop_workers p = Some p' \<Longrightarrow> p' = p\<lparr>workers_stopping := True\<rparr>"
  "stop_batches p = Some p' \<Longrightarrow> batching_ended p
     \<and> p' = p\<lparr>batching := (batching p)\<lparr>batch_queue := fifo_stop (batch_queue (batching p))\<rparr>\<rparr>"
  "stop_publishers p = Some p' \<Longrightarrow> p' = p\<lparr>publishers_stopping := True\<rparr>"
  by (auto simp: stop_output_def stop_workers_def stop_batches_def stop_publishers_def split: if_splits)

lemma stop_output_inv: "pipeline_inv p \<Longrightarrow> stop_output p = Some p' \<Longrightarrow> pipeline_inv p'"
  by (drule stops_cases) (simp add: inv_defs held_def unsent_def underway_def)

lemma stop_workers_inv: "pipeline_inv p \<Longrightarrow> stop_workers p = Some p' \<Longrightarrow> pipeline_inv p'"
  by (drule stops_cases) (simp add: inv_defs held_def unsent_def underway_def)

lemma stop_publishers_inv: "pipeline_inv p \<Longrightarrow> stop_publishers p = Some p' \<Longrightarrow> pipeline_inv p'"
  by (drule stops_cases) (simp add: inv_defs held_def unsent_def underway_def)

lemma stop_batches_inv:
  assumes "pipeline_inv p" and "stop_batches p = Some p'"
  shows "pipeline_inv p'"
proof -
  note c = stops_cases(3) [OF assms(2)]
  have "batches_inv p'"
    using assms(1) c same_batches [of "batching p'" "batching p"]
    by (simp add: pipeline_inv_def batches_inv_def del: split_paired_All)
  moreover have "worker_inv p'" "sending_inv p'" "stop_inv p'"
    using assms(1) c by (simp_all add: inv_defs held_def unsent_def underway_def)
  ultimately show ?thesis by (simp add: pipeline_inv_def)
qed

lemmas stops_inv = stop_output_inv stop_workers_inv stop_batches_inv stop_publishers_inv

interpretation pipeline_ts: transition_system
  "\<lambda>p. \<exists>base dry n conns fs thr bthr. p = pipeline_start base dry n conns fs thr bthr" pipeline_step pipeline_inv
  by unfold_locales
    (auto simp: pipeline_inv_start deliver_inv stop_input_inv elim!: pipeline_stepE
      intro: take_inv filter_inv send_result_inv batch_inv_step take_batch_inv send_batch_inv
        stops_inv leave_inv end_batching_inv publisher_leaves_inv)

lemma reachable_inv:
  "pipeline_step\<^sup>*\<^sup>* (pipeline_start base dry n conns fs thr bthr) p \<Longrightarrow> pipeline_inv p"
  using pipeline_ts.inv_reachable by blast

lemma batches_decode:
  assumes "worker_inv p" and "batches_inv p"
  shows "decode_batch (bytes_of k (batched p) @ pending_bytes k (batching p))
    = Some (map frame_image (key_frames k (consumed p)))"
proof -
  have "list_all frame_ok (key_frames k (consumed p))"
    using emitted_ok [OF assms(1)] assms(1) by (auto simp: list_all_iff key_frames_def worker_inv_def)
  then show ?thesis using assms(2) decode_frames_bytes unfolding batches_inv_def by metis
qed

section \<open>Schedules\<close>

text \<open>A schedule names the steps; running it gives a reachable state.\<close>

datatype schedule_op =
  DoDeliver int DecodedFrame | DoTake nat | DoFilter nat frame_calls | DoSend nat frame_calls
| DoBatch int | DoTakeBatch nat | DoSendBatch nat publish_calls
| DoStopInput | DoStopOutput | DoStopWorkers | DoLeave nat | DoEndBatching int | DoStopBatches
| DoStopPublishers | DoPublisherLeaves nat

fun schedule_step :: "schedule_op \<Rightarrow> pipeline \<Rightarrow> pipeline option" where
  "schedule_step (DoDeliver t d) p = Some (deliver t d p)"
| "schedule_step (DoTake i) p = take_frame i p"
| "schedule_step (DoFilter i e) p = (if planar e then filter_frame i e p else None)"
| "schedule_step (DoSend i e) p = send_result i e p"
| "schedule_step (DoBatch t) p = (if in_memory (batching p) then batch_step t p else None)"
| "schedule_step (DoTakeBatch j) p = take_batch j p"
| "schedule_step (DoSendBatch j c) p = send_batch j c p"
| "schedule_step DoStopInput p = Some (stop_input p)"
| "schedule_step DoStopOutput p = stop_output p"
| "schedule_step DoStopWorkers p = stop_workers p"
| "schedule_step (DoLeave i) p = leave_loop i p"
| "schedule_step (DoEndBatching t) p = end_batching t p"
| "schedule_step DoStopBatches p = stop_batches p"
| "schedule_step DoStopPublishers p = stop_publishers p"
| "schedule_step (DoPublisherLeaves j) p = publisher_leaves j p"

fun run_schedule :: "schedule_op list \<Rightarrow> pipeline \<Rightarrow> pipeline option" where
  "run_schedule [] p = Some p"
| "run_schedule (a # as) p = Option.bind (schedule_step a p) (run_schedule as)"

lemma schedule_step_sound: "schedule_step a p = Some p' \<Longrightarrow> pipeline_step p p'"
  by (cases a) (auto intro: pipeline_step.intros split: if_splits)

lemma run_schedule_sound: "run_schedule as p = Some p' \<Longrightarrow> pipeline_step\<^sup>*\<^sup>* p p'"
proof (induction as arbitrary: p)
  case Nil
  then show ?case by simp
next
  case (Cons a as)
  then obtain p1 where "schedule_step a p = Some p1" "run_schedule as p1 = Some p'"
    by (auto simp: bind_eq_Some_conv)
  with Cons.IH show ?case by (blast intro: schedule_step_sound converse_rtranclp_into_rtranclp)
qed

definition numbered_frame :: "64 word \<Rightarrow> AVFrame" where
  "numbered_frame n = padded_frame\<lparr>pts := n\<rparr>"

definition numbered_input :: "64 word \<Rightarrow> DecodedFrame" where
  "numbered_input n = (sample_decoded ''a'')\<lparr>frame := numbered_frame n\<rparr>"

definition numbered_env :: "64 word \<Rightarrow> frame_calls" where
  "numbered_env n = sample_env\<lparr>pulled := [(0, numbered_frame n)]\<rparr>"

definition two_workers :: pipeline where
  "two_workers = pipeline_start ''fp'' False 2 [] (sample_saver\<lparr>save_processed_enabled := False\<rparr>) 9 9"

text \<open>Two workers take the first and the second frame; the second is sent first.\<close>

definition overtaking :: "schedule_op list" where
  "overtaking =
     [DoDeliver 0 (numbered_input 1), DoDeliver 0 (numbered_input 2), DoTake 0, DoTake 1,
      DoFilter 0 (numbered_env 1), DoFilter 1 (numbered_env 2),
      DoSend 1 (numbered_env 2), DoSend 0 (numbered_env 1)]"

definition pts_list :: "DecodedFrame list \<Rightarrow> 64 word list" where
  "pts_list ds = map (\<lambda>d. pts (frame d)) ds"

lemma numbered_env_fields [simp]:
  "planar (numbered_env n)" "clone_ok (numbered_env n)" "\<not> add_frame (numbered_env n) < 0"
  "drain_frames 5 (pulled (numbered_env n)) = [numbered_frame n]"
proof -
  have "frame_ok (numbered_frame n)"
    by (simp add: frame_ok_def numbered_frame_def padded_frame_def plane_ok_def plane_data_def
        plane_linesize_def less_Suc_eq numeral_3_eq_3)
  then show "planar (numbered_env n)" by (simp add: planar_def numbered_env_def)
qed (simp_all add: numbered_env_def sample_env_def eval_nat_numeral)

lemma prepare_numbered:
  "prepare_context (numbered_env n) d new_worker_thread
     = Some (new_worker_thread\<lparr>stream_contexts := [(ctx_key d, new_context d)]\<rparr>, new_context d)"
  by (simp add: prepare_context_def needs_reinit_def new_worker_thread_def numbered_env_def
      sample_env_def create_processing_filter_def)

lemma two_workers_start: "worker_start 2 = [new_worker_thread, new_worker_thread]"
  by (simp add: worker_start_def upt_rec numeral_2_eq_2)

lemma one_worker_start: "worker_start 1 = [new_worker_thread]"
  by (simp add: worker_start_def)

lemma overtaking_run:
  "\<exists>p. run_schedule overtaking two_workers = Some p
     \<and> pts_list (accepted p) = [1, 2] \<and> pts_list (emitted p) = [2, 1]"
  by (simp add: overtaking_def two_workers_def pipeline_start_def two_workers_start deliver_def
      take_frame_def filter_frame_def send_result_def emit_frame_def world_of_def prepare_numbered
      fifo_new_def wait_and_pop_Cons Let_def pts_list_def numbered_input_def numbered_frame_def
      processed_frame_def numeral_2_eq_2)

text \<open>
  One worker has a result and one frame waits when the service is stopped: the result is refused,
  the frame stays in the queue, and all threads end.
\<close>

definition one_worker :: pipeline where
  "one_worker = pipeline_start ''fp'' False 1 [] (sample_saver\<lparr>save_processed_enabled := False\<rparr>) 9 9"

definition stopping :: "schedule_op list" where
  "stopping =
     [DoDeliver 0 (numbered_input 1), DoDeliver 0 (numbered_input 2), DoTake 0,
      DoFilter 0 (numbered_env 1), DoStopInput, DoStopOutput, DoSend 0 (numbered_env 1),
      DoSend 0 (numbered_env 1), DoStopWorkers, DoLeave 0, DoEndBatching 0, DoStopBatches]"

lemma stopping_run:
  "\<exists>p. run_schedule stopping one_worker = Some p
     \<and> list_all (\<lambda>ph. ph = Left) (phases p) \<and> batching_ended p
     \<and> pts_list (accepted p) = [1, 2] \<and> pts_list (dropped p) = [1]
     \<and> pts_list (queue (decode_queue p)) = [2] \<and> emitted p = [] \<and> published p = []"
  by (simp add: stopping_def one_worker_def pipeline_start_def one_worker_start deliver_def
      take_frame_def filter_frame_def send_result_def emit_frame_def world_of_def prepare_numbered
      fifo_new_def wait_and_pop_Cons Let_def pts_list_def numbered_input_def numbered_frame_def
      processed_frame_def stop_input_def stop_output_def stop_workers_def leave_loop_def
      end_batching_def stop_batches_def)

section \<open>Properties\<close>

text \<open>
  C2: with any number of workers and publishing threads and any interleaving, before, during and
  after a shutdown, in every reachable state: every accepted frame is in the decode queue, in the
  hands of exactly one worker, or has been filtered once; a filtered frame has at most five
  results, all of its stream and event; a result is still to be sent, was sent, or was refused,
  which happens only once the processed queue is stopped; the batching thread receives the sent
  frames in the order in which they were sent; for every stream and event the batches it has
  queued, in order, and its open batch decode to exactly the frames it received, in order; and
  each queued batch is waiting, with one publishing thread, answered by Redis once (or, in dry-run
  mode, simulated once), or lost, which happens only once the batch queue is stopped.
\<close>

theorem system_conserves:
  assumes "pipeline_step\<^sup>*\<^sup>* (pipeline_start base dry n conns fs thr bthr) p"
  shows "mset (accepted p)
       = mset (queue (decode_queue p)) + mset (held p) + mset (map fst (results p))
    \<and> list_all (\<lambda>(d, outs). length outs \<le> 5 \<and> list_all (\<lambda>out. batch_key out = batch_key d) outs)
        (results p)
    \<and> mset (concat (map snd (results p))) = mset (emitted p) + mset (dropped p) + mset (unsent p)
    \<and> (dropped p \<noteq> [] \<longrightarrow> stopped (processed_queue p))
    \<and> emitted p = consumed p @ queue (processed_queue p)
    \<and> (\<forall>k. decode_batch (bytes_of k (batched p) @ pending_bytes k (batching p))
         = Some (map frame_image (key_frames k (consumed p))))
    \<and> mset (map (command_of (queue_base p)) (batched p))
       = mset (published p) + mset (map (command_of (queue_base p)) (underway p @ simulated p @ lost p))
    \<and> (lost p \<noteq> [] \<longrightarrow> stopped (batch_queue (batching p)))
    \<and> (if dry_run p then published p = [] else simulated p = [])"
proof -
  have inv: "worker_inv p" "batches_inv p" "sending_inv p" "stop_inv p"
    using reachable_inv [OF assms] by (simp_all add: pipeline_inv_def)
  have "list_all (\<lambda>(d, outs). length outs \<le> 5 \<and> list_all (\<lambda>out. batch_key out = batch_key d) outs)
      (results p)"
    using inv(1) by (auto simp: worker_inv_def list_all_iff)
  moreover have "if dry_run p then published p = [] else simulated p = []"
    using inv(4) by (auto simp: stop_inv_def)
  ultimately show ?thesis
    using inv batches_decode [OF inv(1,2)]
    unfolding worker_inv_def sending_inv_def stop_inv_def by blast
qed

theorem system_conserves_witness:
  "\<exists>p. run_schedule overtaking two_workers = Some p
     \<and> mset (accepted p)
       = mset (queue (decode_queue p)) + mset (held p) + mset (map fst (results p))"
proof -
  obtain p where p: "run_schedule overtaking two_workers = Some p"
    using overtaking_run by (elim exE conjE)
  from system_conserves [OF run_schedule_sound [OF p, unfolded two_workers_def]] p
  show ?thesis by blast
qed

text \<open>
  C11: what a shutdown leaves behind: when the workers and the batching thread have ended, every
  accepted frame was filtered or is left in the decode queue, every result of a filtered frame was
  received by the batching thread, is left in the processed queue, or was refused; no batch is
  open, and for every stream and event the batches queued for the publishing threads decode to
  exactly the frames the batching thread received, in order.
\<close>

theorem shutdown_accounts:
  assumes "pipeline_step\<^sup>*\<^sup>* (pipeline_start base dry n conns fs thr bthr) p"
    and "list_all (\<lambda>ph. ph = Left) (phases p)" and "batching_ended p"
  shows "mset (accepted p) = mset (queue (decode_queue p)) + mset (map fst (results p))
    \<and> mset (concat (map snd (results p)))
       = mset (consumed p) + mset (queue (processed_queue p)) + mset (dropped p)
    \<and> current_batches (batching p) = []
    \<and> (\<forall>k. decode_batch (bytes_of k (batched p)) = Some (map frame_image (key_frames k (consumed p))))"
proof -
  have inv: "worker_inv p" "batches_inv p"
    using reachable_inv [OF assms(1)] by (simp_all add: pipeline_inv_def)
  have none: "held p = []" "unsent p = []"
    using assms(2) by (auto simp: held_def unsent_def list_all_iff)
  have cur: "current_batches (batching p) = []" "\<And>k. pending_bytes k (batching p) = []"
    using inv(2) assms(3) by (simp_all add: batches_inv_def pending_bytes_def)
  have "decode_batch (bytes_of k (batched p)) = Some (map frame_image (key_frames k (consumed p)))" for k
    using batches_decode [OF inv, of k] cur(2) by simp
  with inv(1) none cur(1) show ?thesis by (simp add: worker_inv_def)
qed

theorem shutdown_accounts_witness:
  "\<exists>p. run_schedule stopping one_worker = Some p
     \<and> mset (accepted p) = mset (queue (decode_queue p)) + mset (map fst (results p))"
proof -
  obtain p where p: "run_schedule stopping one_worker = Some p"
      "list_all (\<lambda>ph. ph = Left) (phases p)" "batching_ended p"
    using stopping_run by (elim exE conjE)
  from shutdown_accounts [OF run_schedule_sound [OF p(1), unfolded one_worker_def] p(2,3)] p(1)
  show ?thesis by blast
qed

text \<open>
  the shutdown loses frames: there is a run in which a worker has filtered a frame when the
  queues are stopped and another frame waits; after all threads have ended, the result has been
  refused, the waiting frame is still in the decode queue, and nothing was published.
\<close>

theorem shutdown_loses_frames:
  "\<exists>p. pipeline_step\<^sup>*\<^sup>* one_worker p \<and> list_all (\<lambda>ph. ph = Left) (phases p) \<and> batching_ended p
     \<and> pts_list (accepted p) = [1, 2] \<and> pts_list (dropped p) = [1]
     \<and> pts_list (queue (decode_queue p)) = [2] \<and> emitted p = [] \<and> published p = []"
  using stopping_run run_schedule_sound by blast

text \<open>
  the order of a stream's frames is not kept by several workers: with two workers there is a
  schedule in which two frames of one stream and event are delivered in one order and reach the
  processed queue in the other.
\<close>

theorem workers_may_reorder:
  "\<exists>p. pipeline_step\<^sup>*\<^sup>* two_workers p
     \<and> batch_key (numbered_input 1) = batch_key (numbered_input 2)
     \<and> pts_list (accepted p) = [1, 2] \<and> pts_list (emitted p) = [2, 1]"
proof -
  obtain p where p: "run_schedule overtaking two_workers = Some p"
      "pts_list (accepted p) = [1, 2]" "pts_list (emitted p) = [2, 1]"
    using overtaking_run by (elim exE conjE)
  then show ?thesis using run_schedule_sound [OF p(1)]
    by (intro exI [of _ p]) (simp add: numbered_input_def batch_key_def)
qed

end
