(* ===== verification/Shutdown.thy ===== *)
theory Shutdown
  imports System
begin

text \<open>
  The end of the threads of the running pipeline: once the queue before them is stopped, the
  workers, the batching thread and the publishing threads each end after boundedly many of their
  own steps, whatever the other threads do. The three are instances of \<open>ending_threads\<close>.
\<close>

section \<open>The end of the workers\<close>

text \<open>The steps of worker \<open>i\<close>, and the work that is left once the decode queue is stopped.\<close>

inductive worker_move :: "nat \<Rightarrow> pipeline \<Rightarrow> pipeline \<Rightarrow> bool" where
  "take_frame i p = Some p' \<Longrightarrow> worker_move i p p'"
| "filter_frame i e p = Some p' \<Longrightarrow> planar e \<Longrightarrow> worker_move i p p'"
| "send_result i e p = Some p' \<Longrightarrow> worker_move i p p'"
| "leave_loop i p = Some p' \<Longrightarrow> worker_move i p p'"

inductive_cases worker_moveE: "worker_move i p p'"

fun phase_work :: "worker_phase \<Rightarrow> nat" where
  "phase_work AtPop = 1"
| "phase_work (Holding d) = 8"
| "phase_work (Draining d fs) = 2 + length fs"
| "phase_work Left = 0"

definition work :: "pipeline \<Rightarrow> nat" where
  "work p = 8 * length (queue (decode_queue p)) + sum_list (map phase_work (phases p))"

lemma work_update:
  assumes "i < length (phases p)" and "phases p' = (phases p)[i := ph]"
  shows "work p' + phase_work (phases p ! i) + 8 * length (queue (decode_queue p))
    = work p + phase_work ph + 8 * length (queue (decode_queue p'))"
  using sum_list_update_less [OF assms(1), of phase_work ph] assms(2) by (simp add: work_def)

lemma worker_move_work:
  assumes "worker_move i p p'"
  shows "work p' < work p \<and> stopped (decode_queue p') = stopped (decode_queue p)"
  using assms
proof (rule worker_moveE)
  assume "take_frame i p = Some p'"
  then obtain d q where "i < length (phases p)" "phases p ! i = AtPop"
      "wait_and_pop (decode_queue p) = Popped d q"
      "p' = p\<lparr>decode_queue := q, phases := (phases p)[i := Holding d]\<rparr>"
    by (auto simp: take_frame_def split: if_splits pop_result.splits)
  then show ?thesis
    using work_update [of i p p' "Holding d"] by (auto simp: wait_and_pop_Popped)
next
  fix e
  assume f: "filter_frame i e p = Some p'"
  then obtain d where i: "i < length (phases p)" "phases p ! i = Holding d"
    by (auto simp: filter_frame_def split: if_splits worker_phase.splits)
  obtain ph where "phases p' = (phases p)[i := ph]" "phase_work ph < 8"
      "decode_queue p' = decode_queue p"
  proof (cases "prepare_context e d (caches p ! i)")
    case None
    with f i show ?thesis by (intro that [of AtPop]) (auto simp: filter_frame_def)
  next
    case (Some wc)
    with f i length_drain_frames [of 5 "pulled e"] show ?thesis
      by (intro that [of "Draining d (if \<not> clone_ok e \<or> add_frame e < 0 then []
          else drain_frames 5 (pulled e))"]) (auto simp: filter_frame_def Let_def split_beta)
  qed
  with i show ?thesis using work_update [of i p p' ph] by simp
next
  fix e
  assume s: "send_result i e p = Some p'"
  then obtain d fs where i: "i < length (phases p)" "phases p ! i = Draining d fs"
    by (auto simp: send_result_def split: if_splits worker_phase.splits)
  show ?thesis
  proof (cases fs)
    case Nil
    with s i have "p' = p\<lparr>phases := (phases p)[i := AtPop]\<rparr>" by (simp add: send_result_def)
    with i Nil show ?thesis using work_update [of i p p' AtPop] by simp
  next
    case (Cons f gs)
    with s i have "phases p' = (phases p)[i := Draining d gs]" "decode_queue p' = decode_queue p"
      by (auto simp: send_result_def Let_def)
    with i Cons show ?thesis using work_update [of i p p' "Draining d gs"] by simp
  qed
next
  assume "leave_loop i p = Some p'"
  then have "i < length (phases p)" "phases p ! i = AtPop" "p' = p\<lparr>phases := (phases p)[i := Left]\<rparr>"
    by (auto simp: leave_loop_def split: if_splits)
  then show ?thesis using work_update [of i p p' Left] by simp
qed

lemma other_step_work:
  assumes "pipeline_step p p'" and "stopped (decode_queue p)"
  shows "stopped (decode_queue p') \<and> work p' \<le> work p"
proof -
  have "(\<exists>i. worker_move i p p') \<or>
      stopped (decode_queue p') \<and> queue (decode_queue p') = queue (decode_queue p) \<and> phases p' = phases p"
    using assms
    by (auto elim!: pipeline_stepE intro: worker_move.intros
        simp: deliver_def batch_step_def take_batch_def send_batch_def stop_input_def stop_output_def
          stop_workers_def end_batching_def stop_batches_def stop_publishers_def publisher_leaves_def Let_def
        split: if_splits option.splits pop_result.splits publisher_phase.splits)
  then show ?thesis using worker_move_work assms(2) by (fastforce simp: work_def)
qed

lemma worker_not_stuck:
  assumes "stopped (decode_queue p)" and "i < length (phases p)" and "phases p ! i \<noteq> Left"
  shows "\<exists>p'. worker_move i p p'"
proof (cases "phases p ! i")
  case AtPop
  show ?thesis
  proof (cases "queue (decode_queue p)")
    case Nil
    with AtPop assms have "\<exists>p'. leave_loop i p = Some p'" by (simp add: leave_loop_def)
    then show ?thesis by (auto intro: worker_move.intros(4))
  next
    case (Cons d ds)
    with AtPop assms have "\<exists>p'. take_frame i p = Some p'" by (simp add: take_frame_def wait_and_pop_Cons)
    then show ?thesis by (auto intro: worker_move.intros(1))
  qed
next
  case (Holding d)
  with assms have "\<exists>p'. filter_frame i (numbered_env 0) p = Some p'" by (simp add: filter_frame_def)
  then show ?thesis by (blast intro: worker_move.intros(2) numbered_env_fields(1))
next
  case (Draining d fs)
  with assms have "\<exists>p'. send_result i sample_env p = Some p'"
    by (cases fs) (simp_all add: send_result_def Let_def)
  then show ?thesis by (auto intro: worker_move.intros(3))
qed (use assms in simp)

lemma worker_move_step: "worker_move i p p' \<Longrightarrow> pipeline_step p p'"
  by (erule worker_moveE) (blast intro: pipeline_step.intros)+

abbreviation pipeline_init :: "pipeline \<Rightarrow> bool" where
  "pipeline_init \<equiv>
     \<lambda>p. \<exists>base dry n conns fs thr bthr. p = pipeline_start base dry n conns fs thr bthr"

abbreviation all_left :: "pipeline \<Rightarrow> bool" where
  "all_left p \<equiv> list_all (\<lambda>ph. ph = Left) (phases p)"

interpretation workers: ending_threads pipeline_init pipeline_step pipeline_inv
  "\<lambda>p p'. \<exists>i. worker_move i p p'" "\<lambda>p. stopped (decode_queue p)" work all_left
proof unfold_locales
  fix p p'
  show "\<exists>i. worker_move i p p' \<Longrightarrow> pipeline_step p p'" using worker_move_step by blast
  show "\<exists>i. worker_move i p p' \<Longrightarrow> work p' < work p" using worker_move_work by blast
  show "pipeline_step p p' \<Longrightarrow> stopped (decode_queue p) \<Longrightarrow> stopped (decode_queue p') \<and> work p' \<le> work p"
    by (rule other_step_work)
  show "\<exists>p' i. worker_move i p p'" if c: "stopped (decode_queue p)" "\<not> all_left p"
  proof -
    obtain i where "i < length (phases p)" "phases p ! i \<noteq> Left"
      using c(2) unfolding list_all_length by blast
    then show ?thesis using worker_not_stuck [OF c(1)] by blast
  qed
qed

section \<open>The end of the batching thread\<close>

text \<open>
  Once the processed queue is stopped no frame is added to it, so that the data of the open
  batches is bounded by that of the frames sent so far.
\<close>

inductive batching_move :: "pipeline \<Rightarrow> pipeline \<Rightarrow> bool" where
  "batch_step t p = Some p' \<Longrightarrow> in_memory (batching p) \<Longrightarrow> batching_move p p'"
| "end_batching t p = Some p' \<Longrightarrow> batching_move p p'"

inductive_cases batching_moveE: "batching_move p p'"

definition batching_closing :: "pipeline \<Rightarrow> bool" where
  "batching_closing p \<longleftrightarrow> stopped (processed_queue p)
     \<and> length (frames_bytes (map frame (emitted p))) < 2 ^ 62"

definition batching_work :: "pipeline \<Rightarrow> nat" where
  "batching_work p = length (queue (processed_queue p)) + (if batching_ended p then 0 else 1)"

lemma key_frames_length: "length (frames_bytes (key_frames k ds)) \<le> length (frames_bytes (map frame ds))"
  by (induction ds) (auto simp: key_frames_def frames_bytes_def)

lemma closing_in_memory:
  assumes "pipeline_inv p" and "batching_closing p"
  shows "in_memory (batching p)"
proof -
  have b: "batches_inv p" "emitted p = consumed p @ queue (processed_queue p)"
    using assms(1) by (simp_all add: pipeline_inv_def worker_inv_def)
  have "length (pending_bytes k (batching p)) < 2 ^ 62" for k
  proof -
    have "bytes_of k (batched p) @ pending_bytes k (batching p) = frames_bytes (key_frames k (consumed p))"
      using b(1) unfolding batches_inv_def by (elim conjE) (erule spec)
    then have "length (pending_bytes k (batching p)) \<le> length (frames_bytes (key_frames k (consumed p)))"
      by (metis length_append le_add2)
    also have "\<dots> \<le> length (frames_bytes (map frame (emitted p)))"
      using key_frames_length [of k "consumed p"] b(2) by (simp add: frames_bytes_def)
    finally show ?thesis using assms(2) by (simp add: batching_closing_def)
  qed
  then have "length (data_buffer fb) < 2 ^ 62" if "map_of (current_batches (batching p)) k = Some fb" for k fb
    using that by (metis option.simps(5) pending_bytes_def)
  moreover have "smap_inv (current_batches (batching p))"
    using b(1) by (simp add: batches_inv_def batch_inv_def)
  ultimately show ?thesis using smap_in_find by (fastforce simp: in_memory_def list_all_iff)
qed

lemma batching_move_step: "batching_move p p' \<Longrightarrow> pipeline_step p p'"
  by (erule batching_moveE) (blast intro: pipeline_step.intros)+

lemma batching_move_work:
  assumes "batching_move p p'" and "batching_closing p"
  shows "batching_closing p' \<and> batching_work p' < batching_work p"
  using assms(1)
proof (rule batching_moveE)
  fix t
  assume "batch_step t p = Some p'"
  with assms(2) show ?thesis
    by (auto simp: batch_step_def batching_closing_def batching_work_def wait_and_pop_Popped
        split: if_splits pop_result.splits)
next
  fix t
  assume "end_batching t p = Some p'"
  with assms(2) show ?thesis
    by (auto simp: end_batching_def Let_def batching_closing_def batching_work_def split: if_splits)
qed

lemma closing_batching:
  assumes "pipeline_step p p'" and "batching_closing p"
  shows "batching_closing p' \<and> batching_work p' \<le> batching_work p"
proof -
  have "batching_move p p' \<or> stopped (processed_queue p')
      \<and> queue (processed_queue p') = queue (processed_queue p)
      \<and> emitted p' = emitted p \<and> batching_ended p' = batching_ended p"
    using assms
    by (auto elim!: pipeline_stepE intro: batching_move.intros
        simp: deliver_def take_frame_def filter_frame_def send_result_def take_batch_def send_batch_def
          stop_input_def stop_output_def stop_workers_def leave_loop_def stop_batches_def
          stop_publishers_def publisher_leaves_def batching_closing_def world_of_def Let_def
        split: if_splits option.splits pop_result.splits publisher_phase.splits worker_phase.splits
          list.splits)
  then show ?thesis
  proof
    assume "batching_move p p'"
    then show ?thesis using batching_move_work assms(2) by (blast intro: less_imp_le)
  qed (use assms(2) in \<open>simp add: batching_closing_def batching_work_def\<close>)
qed

lemma batching_not_stuck:
  assumes "pipeline_inv p" and "batching_closing p" and "\<not> batching_ended p"
  shows "\<exists>p'. batching_move p p'"
proof (cases "queue (processed_queue p)")
  case Nil
  with assms(2,3) have "\<exists>p'. end_batching 0 p = Some p'"
    by (simp add: end_batching_def batching_closing_def Let_def)
  then show ?thesis by (blast intro: batching_move.intros)
next
  case (Cons d ds)
  have "d \<in> set (emitted p)" using Cons assms(1) by (simp add: pipeline_inv_def worker_inv_def)
  then have "frame_ok (frame d)" using emitted_ok [of p d] assms(1) by (simp add: pipeline_inv_def)
  moreover have "batch_inv (batching p)" "\<not> stopped (batch_queue (batching p))"
    using assms(1,3) by (simp_all add: pipeline_inv_def batches_inv_def)
  moreover note mem = closing_in_memory [OF assms(1,2)]
  ultimately obtain b where "batch_frame 0 d (batching p) = Some b"
    using batch_frame_step [of "batching p" d 0] pending_bytes_bound by blast
  then have "\<exists>p'. batch_step 0 p = Some p'"
    using Cons assms(3) by (simp add: batch_step_def wait_and_pop_Cons)
  with mem show ?thesis by (blast intro: batching_move.intros)
qed

interpretation batching_thread: ending_threads pipeline_init pipeline_step pipeline_inv
  batching_move batching_closing batching_work batching_ended
proof unfold_locales
  fix p p'
  show "batching_move p p' \<Longrightarrow> pipeline_step p p'" by (rule batching_move_step)
  show "batching_move p p' \<Longrightarrow> batching_closing p \<Longrightarrow> batching_work p' < batching_work p"
    using batching_move_work by blast
  show "pipeline_step p p' \<Longrightarrow> batching_closing p
      \<Longrightarrow> batching_closing p' \<and> batching_work p' \<le> batching_work p"
    by (rule closing_batching)
  show "\<exists>p'. batching_move p p'" if "pipeline_inv p" "batching_closing p" "\<not> batching_ended p"
    using batching_not_stuck that .
qed

section \<open>The end of the publishing threads\<close>

inductive publisher_move :: "nat \<Rightarrow> pipeline \<Rightarrow> pipeline \<Rightarrow> bool" where
  "take_batch j p = Some p' \<Longrightarrow> publisher_move j p p'"
| "send_batch j c p = Some p' \<Longrightarrow> publisher_move j p p'"
| "publisher_leaves j p = Some p' \<Longrightarrow> publisher_move j p p'"

inductive_cases publisher_moveE: "publisher_move j p p'"

fun publisher_phase_work :: "publisher_phase \<Rightarrow> nat" where
  "publisher_phase_work Polling = 1"
| "publisher_phase_work (Sending fb) = 2"
| "publisher_phase_work Gone = 0"

definition publisher_work :: "pipeline \<Rightarrow> nat" where
  "publisher_work p = 2 * length (queue (batch_queue (batching p)))
     + sum_list (map publisher_phase_work (sending p))"

abbreviation all_gone :: "pipeline \<Rightarrow> bool" where
  "all_gone p \<equiv> list_all (\<lambda>ph. ph = Gone) (sending p)"

lemma publisher_work_update:
  assumes "j < length (sending p)" and "sending p' = (sending p)[j := ph]"
  shows "publisher_work p' + publisher_phase_work (sending p ! j)
      + 2 * length (queue (batch_queue (batching p)))
    = publisher_work p + publisher_phase_work ph + 2 * length (queue (batch_queue (batching p')))"
  using sum_list_update_less [OF assms(1), of publisher_phase_work ph] assms(2)
  by (simp add: publisher_work_def)

lemma publish_batch_stopped:
  "stopped (send_queue t) \<Longrightarrow> stopped (send_queue (publish_batch dry ms base e fb t))
     \<and> queue (send_queue (publish_batch dry ms base e fb t)) = queue (send_queue t)"
  using publish_batch_cases [of ms base e fb t] publish_batch_dry [of ms base e fb t]
  by (cases dry) auto

lemma publisher_move_work:
  assumes "publisher_move j p p'" and "stopped (batch_queue (batching p))"
  shows "stopped (batch_queue (batching p')) \<and> publisher_work p' < publisher_work p"
  using assms(1)
proof (rule publisher_moveE)
  assume "take_batch j p = Some p'"
  then obtain fb q where "j < length (sending p)" "sending p ! j = Polling"
      "wait_and_pop (batch_queue (batching p)) = Popped fb q"
      "p' = p\<lparr>batching := (batching p)\<lparr>batch_queue := q\<rparr>, sending := (sending p)[j := Sending fb]\<rparr>"
    by (auto simp: take_batch_def split: if_splits pop_result.splits)
  then show ?thesis
    using assms(2) publisher_work_update [of j p p' "Sending fb"] by (auto simp: wait_and_pop_Popped)
next
  fix c
  assume s: "send_batch j c p = Some p'"
  then obtain fb where j: "j < length (sending p)" "sending p ! j = Sending fb"
    by (auto simp: send_batch_def split: if_splits publisher_phase.splits)
  with s have "sending p' = (sending p)[j := Polling]"
    "batch_queue (batching p') = send_queue (publish_batch (dry_run p) 0 (queue_base p) c fb (sender_of j p))"
    by (auto simp: send_batch_def Let_def)
  then show ?thesis
    using assms(2) j publisher_work_update [of j p p' Polling] publish_batch_stopped [of "sender_of j p"]
    by (simp add: sender_of_def)
next
  assume "publisher_leaves j p = Some p'"
  then have "j < length (sending p)" "sending p ! j = Polling" "p' = p\<lparr>sending := (sending p)[j := Gone]\<rparr>"
    by (auto simp: publisher_leaves_def split: if_splits)
  then show ?thesis using assms(2) publisher_work_update [of j p p' Gone] by simp
qed

lemma closing_publishers:
  assumes "pipeline_step p p'" and "pipeline_inv p" and "stopped (batch_queue (batching p))"
  shows "stopped (batch_queue (batching p')) \<and> publisher_work p' \<le> publisher_work p"
proof -
  have "batching_ended p" using assms(2,3) by (auto simp: pipeline_inv_def batches_inv_def)
  then have "(\<exists>j. publisher_move j p p') \<or> stopped (batch_queue (batching p'))
      \<and> queue (batch_queue (batching p')) = queue (batch_queue (batching p)) \<and> sending p' = sending p"
    using assms(1,3)
    by (auto elim!: pipeline_stepE intro: publisher_move.intros
        simp: deliver_def take_frame_def filter_frame_def send_result_def batch_step_def
          stop_input_def stop_output_def stop_workers_def leave_loop_def end_batching_def
          stop_batches_def stop_publishers_def Let_def
        split: if_splits option.splits pop_result.splits worker_phase.splits list.splits)
  then show ?thesis
    using publisher_move_work [OF _ assms(3)] by (fastforce simp: publisher_work_def)
qed

lemma publisher_not_stuck:
  assumes "stopped (batch_queue (batching p))" and "j < length (sending p)" and "sending p ! j \<noteq> Gone"
  shows "\<exists>p'. publisher_move j p p'"
proof (cases "sending p ! j")
  case Polling
  show ?thesis
  proof (cases "queue (batch_queue (batching p))")
    case Nil
    with Polling assms have "\<exists>p'. publisher_leaves j p = Some p'" by (simp add: publisher_leaves_def)
    then show ?thesis by (blast intro: publisher_move.intros)
  next
    case (Cons fb fbs)
    with Polling assms have "\<exists>p'. take_batch j p = Some p'" by (simp add: take_batch_def wait_and_pop_Cons)
    then show ?thesis by (blast intro: publisher_move.intros)
  qed
next
  case (Sending fb)
  with assms have "\<exists>p'. send_batch j \<lparr>pub_now = 0, connect = None, replied = False\<rparr> p = Some p'"
    by (simp add: send_batch_def Let_def)
  then show ?thesis by (blast intro: publisher_move.intros)
qed (use assms in simp)

lemma publisher_move_step: "publisher_move j p p' \<Longrightarrow> pipeline_step p p'"
  by (erule publisher_moveE) (blast intro: pipeline_step.intros)+

interpretation publishers: ending_threads pipeline_init pipeline_step pipeline_inv
  "\<lambda>p p'. \<exists>j. publisher_move j p p'" "\<lambda>p. stopped (batch_queue (batching p))" publisher_work all_gone
proof unfold_locales
  fix p p'
  show "\<exists>j. publisher_move j p p' \<Longrightarrow> pipeline_step p p'" using publisher_move_step by blast
  show "\<exists>j. publisher_move j p p' \<Longrightarrow> stopped (batch_queue (batching p))
      \<Longrightarrow> publisher_work p' < publisher_work p"
    using publisher_move_work by blast
  show "pipeline_step p p' \<Longrightarrow> pipeline_inv p \<Longrightarrow> stopped (batch_queue (batching p))
      \<Longrightarrow> stopped (batch_queue (batching p')) \<and> publisher_work p' \<le> publisher_work p"
    by (rule closing_publishers)
  show "\<exists>p' j. publisher_move j p p'" if c: "stopped (batch_queue (batching p))" "\<not> all_gone p"
  proof -
    obtain j where "j < length (sending p)" "sending p ! j \<noteq> Gone"
      using c(2) unfolding list_all_length by blast
    then show ?thesis using publisher_not_stuck [OF c(1)] by blast
  qed
qed

lemma publisher_work_bound:
  "publisher_work p \<le> 2 * (length (queue (batch_queue (batching p))) + length (sending p))"
proof -
  have "sum_list (map publisher_phase_work phs) \<le> 2 * length phs" for phs
  proof (induction phs)
    case (Cons ph phs)
    then show ?case by (cases ph) simp_all
  qed simp
  then show ?thesis by (simp add: publisher_work_def)
qed

text \<open>The batching thread ends, its queue is stopped, the publishing threads end.\<close>

lemma closing_can_end:
  assumes "pipeline_inv p" and "batching_closing p"
  shows "\<exists>q. pipeline_step\<^sup>*\<^sup>* p q \<and> batching_ended q \<and> all_gone q"
proof -
  obtain q1 where q1: "batching_move\<^sup>*\<^sup>* p q1" "batching_ended q1"
    using batching_thread.can_finish [OF assms] by blast
  then have r1: "pipeline_step\<^sup>*\<^sup>* p q1"
    using rtranclp_mono [of batching_move pipeline_step] batching_move_step by blast
  obtain q2 where q2: "stop_batches q1 = Some q2" "stopped (batch_queue (batching q2))"
    using q1(2) by (simp add: stop_batches_def)
  then have s2: "pipeline_step q1 q2" by (blast intro: pipeline_step.intros)
  have i2: "pipeline_inv q2"
    using pipeline_ts.inv_steps [OF r1 assms(1)] s2 pipeline_ts.inv_step by blast
  obtain q where q: "(\<lambda>s t. \<exists>j. publisher_move j s t)\<^sup>*\<^sup>* q2 q" "all_gone q"
    using publishers.can_finish [OF i2 q2(2)] by blast
  then have r2: "pipeline_step\<^sup>*\<^sup>* q2 q"
    using rtranclp_mono [of "\<lambda>s t. \<exists>j. publisher_move j s t" pipeline_step] publisher_move_step by blast
  have "stopped (batch_queue (batching q)) \<and> pipeline_inv q"
    using r2 i2 q2(2)
    by (induction rule: rtranclp_induct) (use closing_publishers pipeline_ts.inv_step in blast)+
  then have "batching_ended q" by (auto simp: pipeline_inv_def batches_inv_def)
  moreover have "pipeline_step\<^sup>*\<^sup>* p q" using r1 s2 r2 by simp
  ultimately show ?thesis using q(2) by blast
qed

section \<open>Properties\<close>

text \<open>
  C12: the workers end: once the decode queue is stopped it stays stopped, no step of any thread
  increases the work left for the workers, every step of a worker decreases it, and a worker that
  has not left its loop can always take a step. So after finitely many of their own steps all
  workers have left, and the join in \<open>Worker::stop\<close> returns.
\<close>

theorem workers_end_after_stop:
  assumes "stopped (decode_queue p)"
  shows "(\<forall>p'. pipeline_step p p' \<longrightarrow> stopped (decode_queue p') \<and> work p' \<le> work p)
    \<and> (\<forall>i p'. worker_move i p p' \<longrightarrow> work p' < work p)
    \<and> (\<forall>i < length (phases p). phases p ! i \<noteq> Left \<longrightarrow> (\<exists>p'. worker_move i p p'))"
  using other_step_work [OF _ assms] worker_move_work worker_not_stuck [OF assms] by blast

theorem workers_end_after_stop_witness: "\<exists>p'. worker_move 0 (stop_input one_worker) p'"
proof -
  have "stopped (decode_queue (stop_input one_worker))" "0 < length (phases (stop_input one_worker))"
    "phases (stop_input one_worker) ! 0 \<noteq> Left"
    by (simp_all add: stop_input_def one_worker_def pipeline_start_def)
  then show ?thesis using workers_end_after_stop [of "stop_input one_worker"] by blast
qed

text \<open>
  C13: the batching and publishing threads end: once the processed queue is stopped, the batching
  thread ends after at most one step more than there are frames in that queue, in every
  interleaving with the other threads, and is never stuck before; once the batch queue is stopped
  the same holds of the publishing threads, whether Redis answers or not; and a state in which all
  of them have ended can be reached.
\<close>

theorem publishing_side_ends:
  assumes "pipeline_step\<^sup>*\<^sup>* (pipeline_start base dry n conns fs thr bthr) p" and "batching_closing p"
  shows "(\<forall>m q. interleaved pipeline_step batching_move m p q \<longrightarrow>
          m \<le> Suc (length (queue (processed_queue p))) \<and> (batching_ended q \<or> (\<exists>r. batching_move q r)))
    \<and> (\<forall>m q r. pipeline_step\<^sup>*\<^sup>* p q \<longrightarrow> stopped (batch_queue (batching q)) \<longrightarrow>
          interleaved pipeline_step (\<lambda>s t. \<exists>j. publisher_move j s t) m q r \<longrightarrow>
          m \<le> 2 * (length (queue (batch_queue (batching q))) + length (sending q))
          \<and> (all_gone r \<or> (\<exists>t j. publisher_move j r t)))
    \<and> (\<exists>q. pipeline_step\<^sup>*\<^sup>* p q \<and> batching_ended q \<and> all_gone q)"
proof (intro conjI allI impI)
  have inv: "pipeline_inv p" by (rule reachable_inv [OF assms(1)])
  fix m q
  assume "interleaved pipeline_step batching_move m p q"
  from batching_thread.own_steps_bounded [OF this inv assms(2)]
  show "m \<le> Suc (length (queue (processed_queue p)))" "batching_ended q \<or> (\<exists>r. batching_move q r)"
    by (auto simp: batching_work_def split: if_splits)
next
  fix m q r
  assume q: "pipeline_step\<^sup>*\<^sup>* p q" and s: "stopped (batch_queue (batching q))"
    and i: "interleaved pipeline_step (\<lambda>s t. \<exists>j. publisher_move j s t) m q r"
  have "pipeline_inv q" using reachable_inv rtranclp_trans [OF assms(1) q] by blast
  from publishers.own_steps_bounded [OF i this s] publisher_work_bound [of q]
  show "m \<le> 2 * (length (queue (batch_queue (batching q))) + length (sending q))"
    "all_gone r \<or> (\<exists>t j. publisher_move j r t)" by simp_all
next
  show "\<exists>q. pipeline_step\<^sup>*\<^sup>* p q \<and> batching_ended q \<and> all_gone q"
    using closing_can_end [OF reachable_inv [OF assms(1)] assms(2)] .
qed

text \<open>One worker and one publishing thread.\<close>

definition closing_pipeline :: pipeline where
  "closing_pipeline = pipeline_start ''fp'' False 1 [\<lparr>redis_context = Some 5\<rparr>] sample_saver 9 9"

theorem publishing_side_ends_witness:
  "\<exists>p q. run_schedule [DoStopInput, DoStopOutput] closing_pipeline = Some p
     \<and> sending p = [Polling] \<and> pipeline_step\<^sup>*\<^sup>* p q \<and> batching_ended q \<and> all_gone q"
proof -
  obtain p where p: "run_schedule [DoStopInput, DoStopOutput] closing_pipeline = Some p"
      "batching_closing p" "sending p = [Polling]"
    by (simp add: stop_input_def stop_output_def closing_pipeline_def pipeline_start_def
        batching_closing_def frames_bytes_def fifo_new_def)
  from publishing_side_ends [OF run_schedule_sound [OF p(1), unfolded closing_pipeline_def] p(2)] p
  show ?thesis by blast
qed

end
