(* ===== verification/BatchContents.thy ===== *)
theory BatchContents
  imports System
begin

text \<open>
  What the batches of the running pipeline contain, one by one: each is a nonempty sequence of
  whole frames of its own stream and event, counted correctly, that the batching thread received.
\<close>

section \<open>The contents of a batch\<close>

definition holds_frames :: "DecodedFrame list \<Rightarrow> FrameBatch \<Rightarrow> bool" where
  "holds_frames ds fb \<longleftrightarrow>
     (\<exists>fs. fs \<noteq> [] \<and> set fs \<subseteq> set (key_frames (key_of_batch fb) ds) \<and> frame_count fb = int (length fs)
        \<and> data_buffer fb = frames_bytes fs)"

definition contents_inv :: "pipeline \<Rightarrow> bool" where
  "contents_inv p \<longleftrightarrow> (\<forall>fb \<in> set (batched p) \<union> snd ` set (current_batches (batching p)).
     holds_frames (consumed p) fb)"

lemma key_frames_append: "key_frames k (xs @ ys) = key_frames k xs @ key_frames k ys"
  by (simp add: key_frames_def)

lemma frames_bytes_append: "frames_bytes (fs @ gs) = frames_bytes fs @ frames_bytes gs"
  by (simp add: frames_bytes_def)

lemma holds_frames_mono: "holds_frames ds fb \<Longrightarrow> holds_frames (ds @ es) fb"
  by (fastforce simp: holds_frames_def key_frames_append)

lemma smap_insert_snd: "snd ` set (smap_insert k v m) \<subseteq> insert v (snd ` set m)"
  by (induction m rule: smap_insert.induct) (auto split: if_splits)

lemma smap_erase_snd: "snd ` set (smap_erase k m) \<subseteq> snd ` set m"
  by (auto simp: smap_erase_def)

text \<open>The batch that a frame is added to.\<close>

lemma batch_frame_contents:
  assumes "batch_frame t d b = Some b'" and "frame_ok (frame d)" and "in_memory b" and "batch_inv b"
    and "\<forall>fb \<in> snd ` set (current_batches b). holds_frames ds fb"
  shows "\<forall>fb \<in> set (new_batches b b') \<union> snd ` set (current_batches b'). holds_frames (ds @ [d]) fb"
proof -
  define batch where "batch = (case map_of (current_batches b) (batch_key d) of
      None \<Rightarrow> new_batch d | Some found \<Rightarrow> found)"
  define batch1 where "batch1 = batch\<lparr>data_buffer := data_buffer batch @ image_bytes (frame_image (frame d)),
      frame_count := frame_count batch + 1\<rparr>"
  have old: "key_of_batch batch = batch_key d \<and> (batch = new_batch d \<or> holds_frames ds batch)"
  proof (cases "map_of (current_batches b) (batch_key d)")
    case None
    then show ?thesis by (simp add: batch_def new_batch_def batch_key_def)
  next
    case (Some fb)
    then have "fb \<in> snd ` set (current_batches b)" by (force dest: map_of_SomeD)
    moreover have "key_of_batch fb = batch_key d"
      using Some assms(4) unfolding batch_inv_def by blast
    moreover have "holds_frames ds fb" using assms(5) calculation(1) by blast
    ultimately show ?thesis using Some by (simp add: batch_def)
  qed
  have "length (data_buffer batch) < 2 ^ 62"
    using pending_bytes_bound [OF assms(3), of "batch_key d"]
    by (simp add: batch_def pending_bytes_def new_batch_def split: option.splits)
  then have ser: "serialize_frame (frame d) (data_buffer batch)
      = Some (data_buffer batch @ image_bytes (frame_image (frame d)))"
    by (rule serialize_frame_ok [OF assms(2)])
  have step: "batch_frame t d b = Some (if batch_size (event_config d) \<le> frame_count batch1
      then b\<lparr>batch_queue := push t batch1 (batch_queue b),
             current_batches := smap_erase (batch_key d) (current_batches b)\<rparr>
      else b\<lparr>current_batches := smap_insert (batch_key d) batch1 (current_batches b)\<rparr>)"
    by (simp add: batch_frame_def Let_def batch_def [symmetric] ser batch1_def)
  have "holds_frames (ds @ [d]) batch1"
  proof -
    obtain fs where fs: "set fs \<subseteq> set (key_frames (batch_key d) ds)" "frame_count batch = int (length fs)"
        "data_buffer batch = frames_bytes fs"
    proof (cases "batch = new_batch d")
      case True
      then show ?thesis by (intro that [of "[]"]) (simp_all add: new_batch_def frames_bytes_def)
    next
      case False
      with old have "\<exists>fs. set fs \<subseteq> set (key_frames (batch_key d) ds) \<and> frame_count batch = int (length fs)
          \<and> data_buffer batch = frames_bytes fs"
        unfolding holds_frames_def by metis
      then show ?thesis using that by blast
    qed
    have "key_frames (batch_key d) [d] = [frame d]" by (simp add: key_frames_def)
    then have "set (fs @ [frame d]) \<subseteq> set (key_frames (batch_key d) (ds @ [d]))"
      using fs(1) by (auto simp: key_frames_append)
    then show ?thesis
      using fs(2,3) old unfolding holds_frames_def
      by (intro exI [of _ "fs @ [frame d]"]) (auto simp: batch1_def frames_bytes_def)
  qed
  moreover have "set (new_batches b b') \<subseteq> {batch1}"
    "snd ` set (current_batches b') \<subseteq> insert batch1 (snd ` set (current_batches b))"
    using step assms(1) smap_insert_snd [of "batch_key d" batch1 "current_batches b"]
      smap_erase_snd [of "batch_key d" "current_batches b"]
    by (auto simp: new_batches_def split: if_splits)
  ultimately show ?thesis using assms(5) holds_frames_mono by blast
qed

lemma fold_flush_new:
  "\<exists>fbs. queue (fold (flush_one t) kbs q) = queue q @ fbs \<and> set fbs \<subseteq> snd ` set kbs"
proof (induction kbs arbitrary: q)
  case (Cons p kbs)
  obtain fbs where "queue (fold (flush_one t) kbs (flush_one t p q)) = queue (flush_one t p q) @ fbs"
      "set fbs \<subseteq> snd ` set kbs"
    using Cons by blast
  moreover obtain gs where "queue (flush_one t p q) = queue q @ gs" "set gs \<subseteq> {snd p}"
    by (cases "0 < frame_count (snd p) \<and> \<not> stopped q")
      (auto simp: split_beta intro: that [of "[]"] that [of "[snd p]"])
  ultimately show ?case by (intro exI [of _ "gs @ fbs"]) auto
qed simp

lemma new_batches_flush_set:
  "set (new_batches b (flush_batches t b)) \<subseteq> snd ` set (current_batches b)"
proof -
  obtain fbs where "queue (fold (flush_one t) (current_batches b) (batch_queue b)) = queue (batch_queue b) @ fbs"
      "set fbs \<subseteq> snd ` set (current_batches b)"
    using fold_flush_new by blast
  then show ?thesis by (simp add: new_batches_def flush_queue)
qed

lemma contents_unchanged:
  "contents_inv p \<Longrightarrow> batched p' = batched p \<Longrightarrow> consumed p' = consumed p \<Longrightarrow>
   current_batches (batching p') = current_batches (batching p) \<Longrightarrow> contents_inv p'"
  by (simp add: contents_inv_def)

text \<open>Only two steps put batches anywhere.\<close>

lemma contents_step:
  assumes "pipeline_step p p'" and "pipeline_inv p" and "contents_inv p"
  shows "contents_inv p'"
  using assms(1)
proof (rule pipeline_stepE)
  fix t
  assume s: "batch_step t p = Some p'" "in_memory (batching p)"
  then obtain d q b where "\<not> batching_ended p" and pop: "wait_and_pop (processed_queue p) = Popped d q"
    and b: "batch_frame t d (batching p) = Some b"
    and p': "p' = p\<lparr>processed_queue := q, batching := b, consumed := consumed p @ [d],
                    batched := batched p @ new_batches (batching p) b\<rparr>"
    by (auto simp: batch_step_def split: pop_result.splits if_splits)
  have inv: "worker_inv p" "batch_inv (batching p)"
    using assms(2) by (simp_all add: pipeline_inv_def batches_inv_def)
  have "d \<in> set (emitted p)"
    using inv(1) pop by (auto simp: worker_inv_def wait_and_pop_Popped)
  note ok = emitted_ok [OF inv(1) this]
  have "\<forall>fb \<in> snd ` set (current_batches (batching p)). holds_frames (consumed p) fb"
    using assms(3) by (simp add: contents_inv_def)
  from batch_frame_contents [OF b ok s(2) inv(2) this] assms(3) show ?thesis
    by (auto simp: contents_inv_def p' intro: holds_frames_mono)
next
  fix t
  assume "end_batching t p = Some p'"
  then have p': "batching p' = flush_batches t (batching p)" "consumed p' = consumed p"
      "batched p' = batched p @ new_batches (batching p) (flush_batches t (batching p))"
    by (auto simp: end_batching_def Let_def split: if_splits)
  with new_batches_flush_set [of "batching p" t] assms(3) show ?thesis
    by (auto simp: contents_inv_def flush_batches_def)
qed (use contents_unchanged [OF assms(3)] in \<open>auto simp: deliver_def take_frame_def filter_frame_def send_result_def
    take_batch_def send_batch_def stop_input_def stop_output_def stop_workers_def leave_loop_def
    stop_batches_def stop_publishers_def publisher_leaves_def Let_def
    split: if_splits option.splits pop_result.splits publisher_phase.splits worker_phase.splits list.splits\<close>)

interpretation contents_ts: transition_system
  "\<lambda>p. \<exists>base dry n conns fs thr bthr. p = pipeline_start base dry n conns fs thr bthr" pipeline_step
  "\<lambda>p. pipeline_inv p \<and> contents_inv p"
proof unfold_locales
  show "pipeline_inv p' \<and> contents_inv p'" if "pipeline_step p p'" "pipeline_inv p \<and> contents_inv p" for p p'
    using that contents_step pipeline_ts.inv_step by blast
  show "pipeline_inv p \<and> contents_inv p"
    if "\<exists>base dry n conns fs thr bthr. p = pipeline_start base dry n conns fs thr bthr" for p
  proof -
    have "contents_inv (pipeline_start base dry n conns fs thr bthr)" for base dry n conns fs thr bthr
      by (simp add: contents_inv_def pipeline_start_def empty_batcher_def)
    with that show ?thesis using pipeline_inv_start by blast
  qed
qed

lemma reachable_contents:
  "pipeline_step\<^sup>*\<^sup>* (pipeline_start base dry n conns fs thr bthr) p \<Longrightarrow> pipeline_inv p \<and> contents_inv p"
  using contents_ts.inv_reachable by blast

text \<open>Whole batches, put one after the other, hold whole frames.\<close>

lemma batches_hold_frames:
  assumes "\<forall>fb \<in> set fbs. holds_frames ds fb"
  shows "\<exists>fs. set fs \<subseteq> set (key_frames k ds) \<and> bytes_of k fbs = frames_bytes fs"
  using assms
proof (induction fbs)
  case Nil
  then show ?case by (intro exI [of _ "[]"]) (simp add: bytes_of_def frames_bytes_def)
next
  case (Cons fb fbs)
  then obtain fs where fs: "set fs \<subseteq> set (key_frames k ds)" "bytes_of k fbs = frames_bytes fs" by auto
  show ?case
  proof (cases "key_of_batch fb = k")
    case True
    obtain gs where gs: "set gs \<subseteq> set (key_frames (key_of_batch fb) ds)" "data_buffer fb = frames_bytes gs"
      using Cons.prems unfolding holds_frames_def by (metis list.set_intros(1))
    have "bytes_of k (fb # fbs) = frames_bytes (gs @ fs)"
      using True fs(2) gs(2) by (simp add: bytes_of_def frames_bytes_append)
    moreover have "set (gs @ fs) \<subseteq> set (key_frames k ds)" using fs(1) gs(1) True by simp
    ultimately show ?thesis by blast
  next
    case False
    then have "bytes_of k (fb # fbs) = bytes_of k fbs" by (simp add: bytes_of_def)
    with fs show ?thesis by auto
  qed
qed

lemma consumed_key_frames_ok:
  assumes "worker_inv p" and "set fs \<subseteq> set (key_frames k (consumed p))"
  shows "list_all frame_ok fs"
proof -
  have "frame_ok (frame d)" if "d \<in> set (consumed p)" for d
    using emitted_ok [OF assms(1)] assms(1) that by (simp add: worker_inv_def)
  then show ?thesis using assms(2) by (fastforce simp: list_all_iff key_frames_def)
qed

text \<open>
  If whole batches are the first part of all the bytes of a stream and event, their frames are
  the first of its frames.
\<close>

lemma first_batches_decode:
  assumes "worker_inv p" and "batches_inv p" and "contents_inv p" and "batched p = fbs @ rest"
  shows "\<exists>imgs. decode_batch (bytes_of k fbs) = Some imgs
    \<and> (\<exists>more. map frame_image (key_frames k (consumed p)) = imgs @ more)"
proof -
  let ?held = "\<lambda>b. \<exists>fs. list_all frame_ok fs \<and> b = frames_bytes fs"
  have h: "\<forall>fb \<in> set (batched p). holds_frames (consumed p) fb" using assms(3) by (simp add: contents_inv_def)
  have whole: "?held (bytes_of k xs)" if "\<forall>fb \<in> set xs. holds_frames (consumed p) fb" for xs
    using batches_hold_frames [OF that, of k] consumed_key_frames_ok [OF assms(1), of _ k] by blast
  obtain fs where fs: "list_all frame_ok fs" "bytes_of k fbs = frames_bytes fs"
    using whole [of fbs] h assms(4) by auto
  obtain gs where gs: "list_all frame_ok gs" "bytes_of k rest = frames_bytes gs"
    using whole [of rest] h assms(4) by auto
  have "?held (pending_bytes k (batching p))"
  proof (cases "map_of (current_batches (batching p)) k")
    case None
    then show ?thesis by (intro exI [of _ "[]"]) (simp add: pending_bytes_def frames_bytes_def)
  next
    case (Some fb)
    then have "fb \<in> snd ` set (current_batches (batching p))" by (force dest: map_of_SomeD)
    then have "holds_frames (consumed p) fb" using assms(3) unfolding contents_inv_def by blast
    then obtain es where "set es \<subseteq> set (key_frames (key_of_batch fb) (consumed p))"
        "data_buffer fb = frames_bytes es"
      unfolding holds_frames_def by blast
    with Some consumed_key_frames_ok [OF assms(1)] show ?thesis
      by (intro exI [of _ es]) (simp add: pending_bytes_def)
  qed
  then obtain es where es: "list_all frame_ok es" "pending_bytes k (batching p) = frames_bytes es" by blast
  have "decode_batch (frames_bytes (fs @ gs @ es)) = Some (map frame_image (fs @ gs @ es))"
    using fs(1) gs(1) es(1) by (intro decode_frames_bytes) simp
  moreover have "frames_bytes (fs @ gs @ es) = bytes_of k (batched p) @ pending_bytes k (batching p)"
    using fs(2) gs(2) es(2) assms(4) by (simp add: frames_bytes_append)
  ultimately have "map frame_image (key_frames k (consumed p)) = map frame_image fs @ map frame_image (gs @ es)"
    using batches_decode [OF assms(1,2), of k] by simp
  then show ?thesis using decode_frames_bytes [OF fs(1)] fs(2) by auto
qed

section \<open>Properties\<close>

text \<open>
  the batches of the pipeline, one by one: in every reachable state each batch that was queued for
  Redis, and each open one, holds at least one frame, as many as it counts, only frames of its own
  stream and event that the batching thread received, and decodes to exactly these.
\<close>

theorem batch_contents:
  assumes "pipeline_step\<^sup>*\<^sup>* (pipeline_start base dry n conns fs thr bthr) p"
    and "fb \<in> set (batched p) \<union> snd ` set (current_batches (batching p))"
  shows "\<exists>fs. fs \<noteq> [] \<and> set fs \<subseteq> set (key_frames (key_of_batch fb) (consumed p))
    \<and> frame_count fb = int (length fs) \<and> decode_batch (data_buffer fb) = Some (map frame_image fs)"
proof -
  have inv: "pipeline_inv p" "contents_inv p" using reachable_contents [OF assms(1)] by simp_all
  then have w: "worker_inv p" by (simp add: pipeline_inv_def)
  have "holds_frames (consumed p) fb" using inv(2) assms(2) unfolding contents_inv_def by blast
  then show ?thesis
    unfolding holds_frames_def using consumed_key_frames_ok [OF w] decode_frames_bytes by metis
qed

end
