(* ===== verification/Ordering.thy ===== *)
theory Ordering
  imports BatchContents "HOL-Library.Sublist"
begin

text \<open>
  The order of the frames. With one worker thread the pipeline, whatever its interleaving with the
  stream, batching and publishing threads, refines a sequential program: filter the accepted
  frames one after the other and batch the results in that order. With two workers it does not
  (\<open>workers_may_reorder\<close> of theory \<open>System\<close>). With one publishing thread besides, and as long as
  Redis answers, the order is kept up to the stream entries in Redis.
\<close>

section \<open>One worker\<close>

definition order_inv :: "pipeline \<Rightarrow> bool" where
  "order_inv p \<longleftrightarrow> length (phases p) = 1
     \<and> accepted p = map fst (results p) @ held p @ queue (decode_queue p)
     \<and> concat (map snd (results p)) = emitted p @ dropped p @ unsent p"

lemma single_phase:
  assumes "length (phases p) = 1" and "i < length (phases p)" and "phases p' = (phases p)[i := ph]"
  shows "held p = phase_input (phases p ! i) \<and> unsent p = phase_output (phases p ! i)
    \<and> held p' = phase_input ph \<and> unsent p' = phase_output ph"
  using assms by (cases "phases p") (auto simp: held_def unsent_def)

lemma order_unchanged:
  assumes "order_inv p" and "phases p' = phases p" "decode_queue p' = decode_queue p"
    and "accepted p' = accepted p" "results p' = results p" "emitted p' = emitted p" "dropped p' = dropped p"
  shows "order_inv p'"
  using assms by (simp add: order_inv_def held_def unsent_def)

lemma order_worker_steps:
  assumes "order_inv p" and "stop_inv p"
  shows "take_frame i p = Some p' \<Longrightarrow> order_inv p'"
    and "filter_frame i e p = Some p' \<Longrightarrow> planar e \<Longrightarrow> order_inv p'"
    and "send_result i e p = Some p' \<Longrightarrow> order_inv p'"
    and "leave_loop i p = Some p' \<Longrightarrow> order_inv p'"
proof -
  have one: "length (phases p) = 1" using assms(1) by (simp add: order_inv_def)
  {
    assume "take_frame i p = Some p'"
    then obtain d q where "i < length (phases p)" "phases p ! i = AtPop"
        "wait_and_pop (decode_queue p) = Popped d q"
        "p' = p\<lparr>decode_queue := q, phases := (phases p)[i := Holding d]\<rparr>"
      by (auto simp: take_frame_def split: if_splits pop_result.splits)
    then show "order_inv p'"
      using assms(1) single_phase [OF one, of i p' "Holding d"] by (auto simp: order_inv_def wait_and_pop_Popped)
  next
    assume "filter_frame i e p = Some p'" "planar e"
    then obtain d ph fs cs where "i < length (phases p)" "phases p ! i = Holding d"
        "phase_input ph = []" "phase_output ph = map (processed_frame d) fs"
        "p' = p\<lparr>caches := cs, phases := (phases p)[i := ph],
                results := results p @ [(d, map (processed_frame d) fs)]\<rparr>"
      using filter_frame_cases by metis
    then show "order_inv p'"
      using assms(1) single_phase [OF one, of i p' ph] by (simp add: order_inv_def)
  next
    assume s: "send_result i e p = Some p'"
    then obtain d fs where i: "i < length (phases p)" "phases p ! i = Draining d fs"
      by (auto simp: send_result_def split: if_splits worker_phase.splits)
    show "order_inv p'"
    proof (cases fs)
      case Nil
      with s i have "p' = p\<lparr>phases := (phases p)[i := AtPop]\<rparr>" by (simp add: send_result_def)
      then show ?thesis
        using assms(1) i Nil single_phase [OF one, of i p' AtPop] by (simp add: order_inv_def)
    next
      case (Cons f gs)
      let ?r = "stopped (processed_queue p)" and ?out = "[processed_frame d f]"
      have "phases p' = (phases p)[i := Draining d gs]" "decode_queue p' = decode_queue p"
        "accepted p' = accepted p" "results p' = results p"
        "emitted p' = emitted p @ (if ?r then [] else ?out)" "dropped p' = dropped p @ (if ?r then ?out else [])"
        using s i Cons by (auto simp: send_result_def Let_def)
      then show ?thesis
        using assms i Cons single_phase [OF one, of i p' "Draining d gs"]
        by (cases ?r) (auto simp: order_inv_def stop_inv_def)
    qed
  next
    assume "leave_loop i p = Some p'"
    then have "i < length (phases p)" "phases p ! i = AtPop" "p' = p\<lparr>phases := (phases p)[i := Left]\<rparr>"
      by (auto simp: leave_loop_def split: if_splits)
    then show "order_inv p'"
      using assms(1) single_phase [OF one, of i p' Left] by (simp add: order_inv_def)
  }
qed

lemma order_other_steps:
  assumes "order_inv p"
  shows "order_inv (deliver t d p)" "order_inv (stop_input p)"
    and "batch_step t p = Some p' \<Longrightarrow> order_inv p'"
    and "take_batch j p = Some p' \<Longrightarrow> order_inv p'"
    and "send_batch j c p = Some p' \<Longrightarrow> order_inv p'"
    and "end_batching t p = Some p' \<Longrightarrow> order_inv p'"
    and "publisher_leaves j p = Some p' \<Longrightarrow> order_inv p'"
proof -
  show "order_inv (deliver t d p)" "order_inv (stop_input p)"
    using assms by (simp_all add: order_inv_def deliver_def stop_input_def held_def unsent_def)
qed (use order_unchanged [OF assms] in
    \<open>auto simp: batch_step_def take_batch_def send_batch_def end_batching_def publisher_leaves_def Let_def
      split: if_splits pop_result.splits publisher_phase.splits\<close>)

lemma order_stops:
  assumes "order_inv p"
  shows "stop_output p = Some p' \<Longrightarrow> order_inv p'" "stop_workers p = Some p' \<Longrightarrow> order_inv p'"
    "stop_batches p = Some p' \<Longrightarrow> order_inv p'" "stop_publishers p = Some p' \<Longrightarrow> order_inv p'"
  by (drule stops_cases, use order_unchanged [OF assms] in simp)+

lemma order_inv_start: "order_inv (pipeline_start base dry 1 conns fs thr bthr)"
  by (simp add: order_inv_def pipeline_start_def held_def unsent_def fifo_new_def)

lemma order_inv_step: "pipeline_step p p' \<Longrightarrow> pipeline_inv p \<Longrightarrow> order_inv p \<Longrightarrow> order_inv p'"
  by (auto simp: pipeline_inv_def elim!: pipeline_stepE
      intro: order_worker_steps order_other_steps order_stops)

interpretation single_worker: transition_system
  "\<lambda>p. \<exists>base dry conns fs thr bthr. p = pipeline_start base dry 1 conns fs thr bthr" pipeline_step
  "\<lambda>p. pipeline_inv p \<and> order_inv p"
proof unfold_locales
  show "pipeline_inv p' \<and> order_inv p'" if "pipeline_step p p'" "pipeline_inv p \<and> order_inv p" for p p'
    using that order_inv_step pipeline_ts.inv_step by blast
qed (auto intro: pipeline_inv_start order_inv_start [simplified])

section \<open>The sequential program\<close>

text \<open>The results for one stream and event, in the order of the accepted frames.\<close>

definition outputs_for :: "int \<times> string \<Rightarrow> (DecodedFrame \<times> DecodedFrame list) list \<Rightarrow> AVFrame list" where
  "outputs_for k rs = concat (map (\<lambda>(d, outs). if batch_key d = k then map frame outs else []) rs)"

lemma key_frames_results:
  assumes "list_all (\<lambda>(d, outs). list_all (\<lambda>out. batch_key out = batch_key d) outs) rs"
  shows "key_frames k (concat (map snd rs)) = outputs_for k rs"
proof -
  have "filter (\<lambda>d. batch_key d = k) outs = (if batch_key d = k then outs else [])"
    if "list_all (\<lambda>out. batch_key out = batch_key d) outs" for d outs
    using that by (induction outs) auto
  with assms show ?thesis
    by (induction rs) (auto simp: key_frames_def outputs_for_def)
qed

lemma key_frames_prefix: "prefix (key_frames k xs) (key_frames k (xs @ ys))"
  by (simp add: key_frames_def)

section \<open>One publishing thread\<close>

text \<open>
  A batch whose command Redis does not answer goes back to the end of the batch queue, behind
  later batches. The steps in which that does not happen:
\<close>

definition answered_step :: "pipeline \<Rightarrow> pipeline \<Rightarrow> bool" where
  "answered_step p p' \<longleftrightarrow> pipeline_step p p'
     \<and> \<not> (\<exists>j c. send_batch j c p = Some p' \<and> published p' = published p)"

definition send_order :: "pipeline \<Rightarrow> bool" where
  "send_order p \<longleftrightarrow> \<not> dry_run p \<and> length (sending p) = 1
     \<and> map (command_of (queue_base p)) (batched p)
       = published p @ map (command_of (queue_base p))
           (concat (map in_hand (sending p)) @ queue (batch_queue (batching p)))"

lemma send_order_unchanged:
  "send_order p \<Longrightarrow> dry_run p' = dry_run p \<Longrightarrow> queue_base p' = queue_base p \<Longrightarrow> sending p' = sending p \<Longrightarrow>
   published p' = published p \<Longrightarrow> batched p' = batched p \<Longrightarrow>
   queue (batch_queue (batching p')) = queue (batch_queue (batching p)) \<Longrightarrow> send_order p'"
  by (simp add: send_order_def)

lemma single_sender:
  assumes "length (sending p) = 1" and "j < length (sending p)" and "sending p' = (sending p)[j := ph]"
  shows "concat (map in_hand (sending p)) = in_hand (sending p ! j)
    \<and> concat (map in_hand (sending p')) = in_hand ph \<and> length (sending p') = 1"
  using assms by (cases "sending p") auto

lemma send_order_answered:
  assumes "send_order p" and "send_batch j c p = Some p'" and "published p' \<noteq> published p"
  shows "send_order p'"
proof -
  obtain fb where j: "j < length (sending p)" "sending p ! j = Sending fb"
    using assms(2) by (auto simp: send_batch_def split: if_splits publisher_phase.splits)
  have one: "length (sending p) = 1" "\<not> dry_run p" using assms(1) by (simp_all add: send_order_def)
  define t where "t = publish_batch False 0 (queue_base p) c fb (sender_of j p)"
  have p': "sending p' = (sending p)[j := Polling]" "published p' = published p @ delivered (events_log t)"
      "queue_base p' = queue_base p" "dry_run p' = dry_run p" "batched p' = batched p"
      "batch_queue (batching p') = send_queue t"
    using assms(2) j one(2) by (auto simp: send_batch_def t_def Let_def)
  have "delivered (events_log t) = [command_of (queue_base p) fb] \<and> send_queue t = batch_queue (batching p)"
    using publish_batch_cases [of 0 "queue_base p" c fb "sender_of j p"] assms(3) p'(2)
    by (auto simp: t_def sender_of_def)
  then show ?thesis
    using assms(1) single_sender [OF one(1) j(1) p'(1)] j(2) p' by (simp add: send_order_def)
qed

lemma send_order_step:
  assumes "answered_step p p'" and "send_order p"
  shows "send_order p'"
proof -
  have one: "length (sending p) = 1" using assms(2) by (simp add: send_order_def)
  have "pipeline_step p p'" using assms(1) by (simp add: answered_step_def)
  then show ?thesis
  proof (rule pipeline_stepE)
    fix t
    assume "batch_step t p = Some p'"
    then show ?thesis
      using assms(2) new_batches_frame
      by (auto simp: batch_step_def send_order_def split: pop_result.splits if_splits)
  next
    fix t
    assume "end_batching t p = Some p'"
    then show ?thesis
      using assms(2) new_batches_flush [of t "batching p"]
      by (auto simp: end_batching_def Let_def send_order_def split: if_splits)
  next
    fix j
    assume s: "take_batch j p = Some p'"
    then obtain fb q where j: "j < length (sending p)" "sending p ! j = Polling"
        "wait_and_pop (batch_queue (batching p)) = Popped fb q"
        "p' = p\<lparr>batching := (batching p)\<lparr>batch_queue := q\<rparr>, sending := (sending p)[j := Sending fb]\<rparr>"
      by (auto simp: take_batch_def split: if_splits pop_result.splits)
    then show ?thesis
      using assms(2) single_sender [OF one j(1), of p' "Sending fb"]
      by (auto simp: send_order_def wait_and_pop_Popped)
  next
    fix j c
    assume s: "send_batch j c p = Some p'"
    then have "published p' \<noteq> published p" using assms(1) by (auto simp: answered_step_def)
    with s show ?thesis by (rule send_order_answered [OF assms(2)])
  next
    fix j
    assume "publisher_leaves j p = Some p'"
    then have j: "j < length (sending p)" "sending p ! j = Polling" "p' = p\<lparr>sending := (sending p)[j := Gone]\<rparr>"
      by (auto simp: publisher_leaves_def split: if_splits)
    then show ?thesis
      using assms(2) single_sender [OF one j(1), of p' Gone] by (simp add: send_order_def)
  qed (use send_order_unchanged [OF assms(2)] in \<open>auto simp: deliver_def take_frame_def filter_frame_def
      send_result_def stop_input_def stop_output_def stop_workers_def leave_loop_def stop_batches_def
      stop_publishers_def Let_def
      split: if_splits option.splits pop_result.splits worker_phase.splits list.splits\<close>)
qed

lemma send_order_start: "send_order (pipeline_start base False n [conn] fs thr bthr)"
  by (simp add: send_order_def pipeline_start_def empty_batcher_def fifo_new_def)

interpretation single_sender_ts: transition_system
  "\<lambda>p. \<exists>base n conn fs thr bthr. p = pipeline_start base False n [conn] fs thr bthr" answered_step send_order
  by unfold_locales (auto intro: send_order_start send_order_step)

lemma answered_pipeline: "answered_step\<^sup>*\<^sup>* p q \<Longrightarrow> pipeline_step\<^sup>*\<^sup>* p q"
  by (induction rule: rtranclp_induct) (auto simp: answered_step_def intro: rtranclp.rtrancl_into_rtrancl)

text \<open>Schedules in which every command is answered.\<close>

fun run_answered :: "schedule_op list \<Rightarrow> pipeline \<Rightarrow> pipeline option" where
  "run_answered [] p = Some p"
| "run_answered (a # as) p = Option.bind (schedule_step a p) (\<lambda>p'.
     if list_all (\<lambda>ph. ph = Polling) (sending p) \<or> published p' \<noteq> published p
     then run_answered as p' else None)"

lemma run_answered_sound: "run_answered as p = Some p' \<Longrightarrow> answered_step\<^sup>*\<^sup>* p p'"
proof (induction as arbitrary: p)
  case (Cons a as)
  then obtain p1 where p1: "schedule_step a p = Some p1" "run_answered as p1 = Some p'"
      "list_all (\<lambda>ph. ph = Polling) (sending p) \<or> published p1 \<noteq> published p"
    by (auto simp: bind_eq_Some_conv split: if_splits)
  have "send_batch j c p = None" if "list_all (\<lambda>ph. ph = Polling) (sending p)" for j c
    using that by (simp add: send_batch_def list_all_length)
  with p1(3) schedule_step_sound [OF p1(1)] have "answered_step p p1" by (auto simp: answered_step_def)
  with Cons.IH [OF p1(2)] show ?case by (blast intro: converse_rtranclp_into_rtranclp)
qed simp

text \<open>The payloads of the stream entries of a stream and event, in the order of their commands.\<close>

definition entries_of :: "int \<times> string \<Rightarrow> pipeline \<Rightarrow> byte list" where
  "entries_of k p = concat (map (\<lambda>(key, field, payload).
     if key = redis_key (queue_base p) (fst k) \<and> field = snd k then payload else []) (published p))"

lemma entries_of_batches:
  assumes "published p = map (command_of (queue_base p)) fbs"
  shows "entries_of k p = bytes_of k fbs"
proof -
  have "concat (map ((\<lambda>(key, field, payload). if key = redis_key base (fst k) \<and> field = snd k
      then payload else []) \<circ> command_of base) fbs) = bytes_of k fbs" for base
    by (induction fbs) (auto simp: bytes_of_def command_of_def redis_key_def)
  then show ?thesis by (simp add: entries_of_def assms)
qed

section \<open>Properties\<close>

text \<open>
  C14: with one worker the pipeline keeps the order: in every reachable state the accepted frames
  are, in the order of their acceptance, the filtered ones, the one in the worker's hands and the
  ones in the queue; the results leave the worker in that order, the ones refused after the
  processed queue was stopped last; and for every stream and event the batches queued, in order,
  and the open batch decode to the first of the results of its accepted frames, in order: nothing
  is missing in between, doubled, or out of order.
\<close>

theorem single_worker_in_order:
  assumes "pipeline_step\<^sup>*\<^sup>* (pipeline_start base dry 1 conns fs thr bthr) p"
  shows "accepted p = map fst (results p) @ held p @ queue (decode_queue p)
    \<and> concat (map snd (results p)) = consumed p @ queue (processed_queue p) @ dropped p @ unsent p
    \<and> (\<forall>k. \<exists>imgs. prefix imgs (outputs_for k (results p))
          \<and> decode_batch (bytes_of k (batched p) @ pending_bytes k (batching p))
            = Some (map frame_image imgs))"
proof -
  have inv: "pipeline_inv p" "order_inv p"
    using single_worker.inv_steps [OF assms] pipeline_inv_start order_inv_start by blast+
  then have w: "worker_inv p" "batches_inv p" by (simp_all add: pipeline_inv_def)
  have c: "concat (map snd (results p)) = consumed p @ queue (processed_queue p) @ dropped p @ unsent p"
    using inv(2) w(1) by (simp add: order_inv_def worker_inv_def)
  have "list_all (\<lambda>(d, outs). list_all (\<lambda>out. batch_key out = batch_key d) outs) (results p)"
    using w(1) by (auto simp: worker_inv_def list_all_iff)
  from key_frames_results [OF this] have "prefix (key_frames k (consumed p)) (outputs_for k (results p))" for k
    using key_frames_prefix [of k "consumed p"] c by metis
  with batches_decode [OF w] c inv(2) show ?thesis unfolding order_inv_def by blast
qed

theorem single_worker_in_order_witness:
  "\<exists>p. run_schedule stopping one_worker = Some p
     \<and> accepted p = map fst (results p) @ held p @ queue (decode_queue p)"
proof -
  obtain p where p: "run_schedule stopping one_worker = Some p"
    using stopping_run by (elim exE conjE)
  from single_worker_in_order [OF run_schedule_sound [OF p, unfolded one_worker_def]] p
  show ?thesis by blast
qed

text \<open>
  C3: the order is kept from the stream threads to Redis: with one worker and one publishing
  thread, not in dry-run mode and as long as Redis answers, in every reachable state and for every
  stream and event the payloads of the commands for that stream's key and that event, put one
  after the other in the order in which Redis received them, decode to the first of the results of
  the accepted frames of that stream and event, in the order of their acceptance: no image is
  missing in between, doubled, out of order or of another stream or event.
\<close>

theorem end_to_end_in_order:
  assumes "answered_step\<^sup>*\<^sup>* (pipeline_start base False 1 [conn] fs thr bthr) p"
  shows "accepted p = map fst (results p) @ held p @ queue (decode_queue p)
    \<and> (\<exists>imgs. decode_batch (entries_of k p) = Some imgs
          \<and> prefix imgs (map frame_image (outputs_for k (results p))))"
proof -
  note run = answered_pipeline [OF assms]
  have inv: "pipeline_inv p" "contents_inv p" using reachable_contents [OF run] by simp_all
  have order: "order_inv p" using single_worker.inv_steps [OF run] pipeline_inv_start order_inv_start by blast
  have w: "worker_inv p" "batches_inv p" using inv(1) by (simp_all add: pipeline_inv_def)
  have "send_order p" using single_sender_ts.inv_reachable assms by blast
  then obtain fbs rest where fbs: "batched p = fbs @ rest" "published p = map (command_of (queue_base p)) fbs"
    by (auto simp: send_order_def map_eq_append_conv)
  obtain imgs more where imgs: "decode_batch (entries_of k p) = Some imgs"
      "map frame_image (key_frames k (consumed p)) = imgs @ more"
    using first_batches_decode [OF w inv(2) fbs(1), of k] entries_of_batches [OF fbs(2), of k] by auto
  have "list_all (\<lambda>(d, outs). list_all (\<lambda>out. batch_key out = batch_key d) outs) (results p)"
    using w(1) by (auto simp: worker_inv_def list_all_iff)
  from key_frames_results [OF this] have "prefix (key_frames k (consumed p)) (outputs_for k (results p))"
    using key_frames_prefix [of k "consumed p"] order w(1) by (metis append_assoc order_inv_def worker_inv_def)
  then have "prefix (imgs @ more) (map frame_image (outputs_for k (results p)))"
    using imgs(2) map_mono_prefix by metis
  with imgs(1) order show ?thesis
    by (auto simp: order_inv_def dest: append_prefixD)
qed

text \<open>Two frames of an event with batches of one frame; the first has reached Redis.\<close>

definition single_input :: "64 word \<Rightarrow> DecodedFrame" where
  "single_input n = (numbered_input n)\<lparr>event_config := default_event\<lparr>ev_name := ''a'', batch_size := 1\<rparr>\<rparr>"

definition single_start :: pipeline where
  "single_start = pipeline_start ''fp'' False 1 [\<lparr>redis_context = Some 5\<rparr>]
     (sample_saver\<lparr>save_processed_enabled := False\<rparr>) 9 9"

definition publishing :: "schedule_op list" where
  "publishing =
     [DoDeliver 0 (single_input 1), DoDeliver 0 (single_input 2), DoTake 0, DoFilter 0 (numbered_env 1),
      DoSend 0 (numbered_env 1), DoBatch 0, DoTakeBatch 0,
      DoSendBatch 0 \<lparr>pub_now = 0, connect = None, replied = True\<rparr>]"

lemma serialize_numbered:
  "serialize_frame (numbered_frame n) [] = Some (image_bytes (frame_image (numbered_frame n)))"
proof -
  have "frame_ok (numbered_frame n)"
    using numbered_env_fields(1) [of n] by (simp add: planar_def numbered_env_def)
  from serialize_frame_ok [OF this, of "[]"] show ?thesis by simp
qed

lemma publishing_run:
  "\<exists>p. run_answered publishing single_start = Some p \<and> length (published p) = 1"
  by (simp add: publishing_def single_start_def pipeline_start_def one_worker_start deliver_def
      take_frame_def filter_frame_def send_result_def emit_frame_def world_of_def prepare_numbered
      fifo_new_def wait_and_pop_Cons Let_def single_input_def numbered_input_def sample_decoded_def
      processed_frame_def batch_step_def batch_frame_def empty_batcher_def in_memory_def new_batch_def
      serialize_numbered batch_key_def new_batches_def take_batch_def send_batch_def sender_of_def
      publish_batch_def connection_ready_def is_valid_def redis_get_def)

theorem end_to_end_in_order_witness:
  "\<exists>p. run_answered publishing single_start = Some p \<and> length (published p) = 1
     \<and> (\<exists>imgs. decode_batch (entries_of (7, ''a'') p) = Some imgs
            \<and> prefix imgs (map frame_image (outputs_for (7, ''a'') (results p))))"
proof -
  obtain p where p: "run_answered publishing single_start = Some p" "length (published p) = 1"
    using publishing_run by (elim exE conjE)
  from end_to_end_in_order [OF run_answered_sound [OF p(1), unfolded single_start_def]] p
  show ?thesis by blast
qed

end
