(* ===== verification/Quiescence.thy ===== *)
theory Quiescence
  imports Shutdown Ordering
begin

text \<open>
  The progress of the running pipeline: while nothing is stopped, no frame is delivered and Redis
  answers, the threads work off what is in the queues and in their hands after boundedly many
  steps, never stuck before, and then everything they received has been handed on. This is an
  instance of \<open>ending_threads\<close>, with the steps of all threads as the counted ones.
\<close>

section \<open>Steps that work off\<close>

text \<open>A command that Redis does not answer puts the batch back and is not progress.\<close>

inductive serving_step :: "pipeline \<Rightarrow> pipeline \<Rightarrow> bool" where
  "take_frame i p = Some p' \<Longrightarrow> serving_step p p'"
| "filter_frame i e p = Some p' \<Longrightarrow> planar e \<Longrightarrow> serving_step p p'"
| "send_result i e p = Some p' \<Longrightarrow> serving_step p p'"
| "batch_step t p = Some p' \<Longrightarrow> in_memory (batching p) \<Longrightarrow> serving_step p p'"
| "take_batch j p = Some p' \<Longrightarrow> serving_step p p'"
| "send_batch j c p = Some p' \<Longrightarrow> dry_run p \<or> published p' \<noteq> published p \<Longrightarrow> serving_step p p'"

inductive_cases serving_stepE: "serving_step p p'"

lemma serving_pipeline: "serving_step p p' \<Longrightarrow> pipeline_step p p'"
  by (erule serving_stepE) (blast intro: pipeline_step.intros)+

text \<open>Nothing has been stopped, and there is a thread of each kind.\<close>

definition running :: "pipeline \<Rightarrow> bool" where
  "running p \<longleftrightarrow> \<not> stopped (decode_queue p) \<and> \<not> stopped (processed_queue p)
     \<and> \<not> stopped (batch_queue (batching p)) \<and> \<not> batching_ended p
     \<and> Left \<notin> set (phases p) \<and> Gone \<notin> set (sending p) \<and> phases p \<noteq> [] \<and> sending p \<noteq> []"

definition idle :: "pipeline \<Rightarrow> bool" where
  "idle p \<longleftrightarrow> queue (decode_queue p) = [] \<and> queue (processed_queue p) = []
     \<and> queue (batch_queue (batching p)) = []
     \<and> list_all (\<lambda>ph. ph = AtPop) (phases p) \<and> list_all (\<lambda>ph. ph = Polling) (sending p)"

section \<open>The work that is left\<close>

text \<open>
  A batch in the queue needs two steps, a processed frame one and those of the batch it may
  complete, a frame in the graph a step per result and one to end, and at most five results.
\<close>

fun phase_weight :: "worker_phase \<Rightarrow> nat" where
  "phase_weight (Holding d) = 22"
| "phase_weight (Draining d fs) = 1 + 4 * length fs"
| "phase_weight _ = 0"

fun sending_weight :: "publisher_phase \<Rightarrow> nat" where
  "sending_weight (Sending fb) = 1"
| "sending_weight _ = 0"

definition weight :: "pipeline \<Rightarrow> nat" where
  "weight p = 23 * length (queue (decode_queue p)) + sum_list (map phase_weight (phases p))
     + 3 * length (queue (processed_queue p)) + 2 * length (queue (batch_queue (batching p)))
     + sum_list (map sending_weight (sending p))"

lemma weight_phase:
  assumes "i < length (phases p)" and "phases p' = (phases p)[i := ph]"
    and "sending p' = sending p" and "queue (batch_queue (batching p')) = queue (batch_queue (batching p))"
  shows "weight p' + phase_weight (phases p ! i)
      + 23 * length (queue (decode_queue p)) + 3 * length (queue (processed_queue p))
    = weight p + phase_weight ph
      + 23 * length (queue (decode_queue p')) + 3 * length (queue (processed_queue p'))"
  using sum_list_update_less [OF assms(1), of phase_weight ph] assms(2-4) by (simp add: weight_def)

lemma weight_sending:
  assumes "j < length (sending p)" and "sending p' = (sending p)[j := ph]"
    and "phases p' = phases p" and "decode_queue p' = decode_queue p" and "processed_queue p' = processed_queue p"
  shows "weight p' + sending_weight (sending p ! j) + 2 * length (queue (batch_queue (batching p)))
    = weight p + sending_weight ph + 2 * length (queue (batch_queue (batching p')))"
  using sum_list_update_less [OF assms(1), of sending_weight ph] assms(2-5) by (simp add: weight_def)

lemma update_not_in: "x \<notin> set xs \<Longrightarrow> y \<noteq> x \<Longrightarrow> x \<notin> set (xs[i := y])"
  using set_update_subset_insert [of xs i y] by auto

lemma batch_frame_queue:
  assumes "batch_frame t d b = Some b'"
  shows "stopped (batch_queue b') = stopped (batch_queue b)
    \<and> length (queue (batch_queue b')) \<le> Suc (length (queue (batch_queue b)))"
  using assms by (auto simp: batch_frame_def Let_def split: option.splits if_splits)

text \<open>Every step keeps the pipeline running and takes from the work that is left.\<close>

lemma serving_worker:
  assumes "running p"
  shows "take_frame i p = Some p' \<Longrightarrow> running p' \<and> weight p' < weight p"
    and "filter_frame i e p = Some p' \<Longrightarrow> running p' \<and> weight p' < weight p"
    and "send_result i e p = Some p' \<Longrightarrow> running p' \<and> weight p' < weight p"
proof -
  assume "take_frame i p = Some p'"
  then obtain d q where "i < length (phases p)" "phases p ! i = AtPop"
      "wait_and_pop (decode_queue p) = Popped d q"
      "p' = p\<lparr>decode_queue := q, phases := (phases p)[i := Holding d]\<rparr>"
    by (auto simp: take_frame_def split: if_splits pop_result.splits)
  then show "running p' \<and> weight p' < weight p"
    using assms weight_phase [of i p p' "Holding d"]
    by (auto simp: running_def wait_and_pop_Popped update_not_in)
next
  assume f: "filter_frame i e p = Some p'"
  then obtain d where i: "i < length (phases p)" "phases p ! i = Holding d"
    by (auto simp: filter_frame_def split: if_splits worker_phase.splits)
  obtain ph cs rs where ph: "p' = p\<lparr>caches := cs, phases := (phases p)[i := ph], results := rs\<rparr>"
      "phase_weight ph < 22" "ph \<noteq> Left"
  proof (cases "prepare_context e d (caches p ! i)")
    case None
    with f i show ?thesis
      by (intro that [where ph = AtPop and cs = "caches p" and rs = "results p @ [(d, [])]"]) (simp_all add: filter_frame_def)
  next
    case (Some wc)
    define gs where "gs = (if \<not> clone_ok e \<or> add_frame e < 0 then [] else drain_frames 5 (pulled e))"
    have "length gs \<le> 5" using length_drain_frames [of 5 "pulled e"] by (simp add: gs_def)
    with f i Some show ?thesis
      by (intro that [where ph = "Draining d gs" and cs = "(caches p)[i := fst wc]"
          and rs = "results p @ [(d, map (processed_frame d) gs)]"])
        (simp_all add: filter_frame_def Let_def split_beta gs_def)
  qed
  then show "running p' \<and> weight p' < weight p"
    using assms i weight_phase [of i p p' ph] by (auto simp: running_def update_not_in)
next
  assume s: "send_result i e p = Some p'"
  then obtain d fs where i: "i < length (phases p)" "phases p ! i = Draining d fs"
    by (auto simp: send_result_def split: if_splits worker_phase.splits)
  show "running p' \<and> weight p' < weight p"
  proof (cases fs)
    case Nil
    with s i have "p' = p\<lparr>phases := (phases p)[i := AtPop]\<rparr>" by (simp add: send_result_def)
    with assms i Nil show ?thesis
      using weight_phase [of i p p' AtPop] by (auto simp: running_def update_not_in)
  next
    case (Cons f gs)
    have "queue (processed_queue p') = queue (processed_queue p) @ [processed_frame d f]"
        "\<not> stopped (processed_queue p')"
      using s i Cons assms by (auto simp: send_result_def Let_def running_def world_of_def)
    moreover have "phases p' = (phases p)[i := Draining d gs]" "decode_queue p' = decode_queue p"
        "sending p' = sending p" "batching p' = batching p" "batching_ended p' = batching_ended p"
      using s i Cons by (auto simp: send_result_def Let_def)
    ultimately show ?thesis
      using assms i Cons weight_phase [of i p p' "Draining d gs"] by (auto simp: running_def update_not_in)
  qed
qed

lemma send_batch_answered:
  assumes "send_batch j c p = Some p'" and "dry_run p \<or> published p' \<noteq> published p"
  shows "batch_queue (batching p') = batch_queue (batching p)"
proof -
  obtain fb where j: "j < length (sending p)" "sending p ! j = Sending fb"
    using assms(1) by (auto simp: send_batch_def split: if_splits publisher_phase.splits)
  then show ?thesis
    using assms publish_batch_cases [of 0 "queue_base p" c fb "sender_of j p"]
      publish_batch_dry [of 0 "queue_base p" c fb "sender_of j p"]
    by (cases "dry_run p") (auto simp: send_batch_def Let_def sender_of_def)
qed

lemma serving_publisher:
  assumes "running p"
  shows "batch_step t p = Some p' \<Longrightarrow> running p' \<and> weight p' < weight p"
    and "take_batch j p = Some p' \<Longrightarrow> running p' \<and> weight p' < weight p"
    and "send_batch j c p = Some p' \<Longrightarrow> dry_run p \<or> published p' \<noteq> published p \<Longrightarrow>
      running p' \<and> weight p' < weight p"
proof -
  assume "batch_step t p = Some p'"
  then obtain d q b where b: "wait_and_pop (processed_queue p) = Popped d q"
      "batch_frame t d (batching p) = Some b"
      "p' = p\<lparr>processed_queue := q, batching := b, consumed := consumed p @ [d],
              batched := batched p @ new_batches (batching p) b\<rparr>"
    by (auto simp: batch_step_def split: pop_result.splits if_splits)
  then show "running p' \<and> weight p' < weight p"
    using assms batch_frame_queue [OF b(2)] by (auto simp: running_def weight_def wait_and_pop_Popped)
next
  assume "take_batch j p = Some p'"
  then obtain fb q where "j < length (sending p)" "sending p ! j = Polling"
      "wait_and_pop (batch_queue (batching p)) = Popped fb q"
      "p' = p\<lparr>batching := (batching p)\<lparr>batch_queue := q\<rparr>, sending := (sending p)[j := Sending fb]\<rparr>"
    by (auto simp: take_batch_def split: if_splits pop_result.splits)
  then show "running p' \<and> weight p' < weight p"
    using assms weight_sending [of j p p' "Sending fb"]
    by (auto simp: running_def wait_and_pop_Popped update_not_in)
next
  assume s: "send_batch j c p = Some p'" and a: "dry_run p \<or> published p' \<noteq> published p"
  then obtain fb where j: "j < length (sending p)" "sending p ! j = Sending fb"
    by (auto simp: send_batch_def split: if_splits publisher_phase.splits)
  with s have "sending p' = (sending p)[j := Polling]" "phases p' = phases p" "batching_ended p' = batching_ended p"
      "decode_queue p' = decode_queue p" "processed_queue p' = processed_queue p"
    by (auto simp: send_batch_def Let_def)
  then show "running p' \<and> weight p' < weight p"
    using assms j send_batch_answered [OF s a] weight_sending [of j p p' Polling]
    by (auto simp: running_def update_not_in)
qed

lemma serving_weight: "serving_step p p' \<Longrightarrow> running p \<Longrightarrow> running p' \<and> weight p' < weight p"
  by (erule serving_stepE) (blast dest: serving_worker serving_publisher)+

section \<open>Some thread can step\<close>

lemma redis_can_answer:
  "delivered (events_log (publish_batch False 0 base \<lparr>pub_now = 0, connect = Some (0, False), replied = True\<rparr>
     fb t)) = delivered (events_log t) @ [command_of base fb]"
  by (simp add: publish_batch_def connection_ready_def redis_ctor_def is_valid_def redis_get_def
      command_of_def Let_def split: option.split)

lemma worker_can_step:
  assumes "i < length (phases p)" and "phases p ! i \<noteq> AtPop" and "phases p ! i \<noteq> Left"
  shows "\<exists>p'. serving_step p p'"
proof (cases "phases p ! i")
  case (Holding d)
  with assms have "\<exists>p'. filter_frame i (numbered_env 0) p = Some p'" by (simp add: filter_frame_def)
  then show ?thesis by (blast intro: serving_step.intros(2) numbered_env_fields(1))
next
  case (Draining d fs)
  with assms have "\<exists>p'. send_result i sample_env p = Some p'"
    by (cases fs) (simp_all add: send_result_def Let_def)
  then show ?thesis by (blast intro: serving_step.intros)
qed (use assms in simp_all)

lemma sender_can_step:
  assumes "j < length (sending p)" and "sending p ! j = Sending fb"
  shows "\<exists>p'. serving_step p p'"
proof -
  let ?c = "\<lparr>pub_now = 0, connect = Some (0, False), replied = True\<rparr>"
  obtain p' where s: "send_batch j ?c p = Some p'" using assms by (simp add: send_batch_def Let_def)
  have "published p' \<noteq> published p" if "\<not> dry_run p"
    using s assms that by (auto simp: send_batch_def Let_def redis_can_answer)
  with s show ?thesis by (blast intro: serving_step.intros)
qed

lemma batching_can_step:
  assumes "pipeline_inv p" and "running p" and "in_memory (batching p)" and "queue (processed_queue p) = d # ds"
  shows "\<exists>p'. serving_step p p'"
proof -
  have w: "worker_inv p" "batch_inv (batching p)" "\<not> stopped (batch_queue (batching p))" "\<not> batching_ended p"
    using assms(1,2) by (simp_all add: pipeline_inv_def batches_inv_def running_def)
  have "d \<in> set (emitted p)" using assms(4) w(1) by (simp add: worker_inv_def)
  then have "frame_ok (frame d)" by (rule emitted_ok [OF w(1)])
  then obtain b where "batch_frame 0 d (batching p) = Some b"
    using batch_frame_step [OF w(2) _ w(3), of d 0] pending_bytes_bound [OF assms(3)] by blast
  then have "\<exists>p'. batch_step 0 p = Some p'" using assms(4) w(4) by (simp add: batch_step_def wait_and_pop_Cons)
  with assms(3) show ?thesis by (blast intro: serving_step.intros)
qed

lemma serving_not_stuck:
  assumes "pipeline_inv p" and "running p" and "\<not> (idle p \<or> \<not> in_memory (batching p))"
  shows "\<exists>p'. serving_step p p'"
proof (cases "list_all (\<lambda>ph. ph = AtPop) (phases p) \<and> list_all (\<lambda>ph. ph = Polling) (sending p)")
  case False
  then consider i where "i < length (phases p)" "phases p ! i \<noteq> AtPop"
    | j where "j < length (sending p)" "sending p ! j \<noteq> Polling"
    by (auto simp: list_all_length)
  then show ?thesis
  proof cases
    case 1
    then show ?thesis using worker_can_step assms(2) by (metis nth_mem running_def)
  next
    case 2
    then have "sending p ! j \<noteq> Gone" using assms(2) by (metis nth_mem running_def)
    with 2 show ?thesis using sender_can_step by (cases "sending p ! j") auto
  qed
next
  case True
  then have at: "phases p ! 0 = AtPop" "sending p ! 0 = Polling" "0 < length (phases p)" "0 < length (sending p)"
    using assms(2) by (auto simp: running_def list_all_length)
  consider d ds where "queue (decode_queue p) = d # ds" | d ds where "queue (processed_queue p) = d # ds"
    | fb fbs where "queue (batch_queue (batching p)) = fb # fbs"
    using assms(3) True by (auto simp: idle_def neq_Nil_conv)
  then show ?thesis
  proof cases
    case 1
    with at have "\<exists>p'. take_frame 0 p = Some p'" by (simp add: take_frame_def wait_and_pop_Cons)
    then show ?thesis by (blast intro: serving_step.intros)
  next
    case 2
    then show ?thesis using batching_can_step assms by blast
  next
    case 3
    with at have "\<exists>p'. take_batch 0 p = Some p'" by (simp add: take_batch_def wait_and_pop_Cons)
    then show ?thesis by (blast intro: serving_step.intros)
  qed
qed

interpretation serving: ending_threads pipeline_init serving_step pipeline_inv serving_step running weight
  "\<lambda>p. idle p \<or> \<not> in_memory (batching p)"
proof unfold_locales
  show "pipeline_inv p'" if "serving_step p p'" "pipeline_inv p" for p p'
    using that serving_pipeline pipeline_ts.inv_step by blast
qed (use serving_weight serving_not_stuck pipeline_inv_start in \<open>auto intro: less_imp_le\<close>)

text \<open>Schedules of these steps.\<close>

fun works :: "schedule_op \<Rightarrow> pipeline \<Rightarrow> pipeline \<Rightarrow> bool" where
  "works (DoTake i) p p' = True"
| "works (DoFilter i e) p p' = True"
| "works (DoSend i e) p p' = True"
| "works (DoBatch t) p p' = True"
| "works (DoTakeBatch j) p p' = True"
| "works (DoSendBatch j c) p p' = (dry_run p \<or> published p' \<noteq> published p)"
| "works _ p p' = False"

fun run_serving :: "schedule_op list \<Rightarrow> pipeline \<Rightarrow> pipeline option" where
  "run_serving [] p = Some p"
| "run_serving (a # as) p = Option.bind (schedule_step a p)
     (\<lambda>p'. if works a p p' then run_serving as p' else None)"

lemma run_serving_sound: "run_serving as p = Some p' \<Longrightarrow> (serving_step ^^ length as) p p'"
proof (induction as arbitrary: p)
  case (Cons a as)
  then obtain p1 where p1: "schedule_step a p = Some p1" "works a p p1" "run_serving as p1 = Some p'"
    by (auto simp: bind_eq_Some_conv split: if_splits)
  then have "serving_step p p1" by (cases a) (auto intro: serving_step.intros split: if_splits)
  with Cons.IH [OF p1(3)] show ?case unfolding list.size by (metis relpowp_Suc_I2 add_0_right add_Suc_right)
qed simp

section \<open>Properties\<close>

text \<open>
  C4: the running pipeline works off what it has accepted: in every reachable state in which
  nothing is stopped, as long as Redis answers and no further frame is delivered, the steps of all
  threads in any interleaving number at most \<open>weight p\<close>, and as long as the pipeline is not idle
  and its open batches fit in memory some thread can step; when it is idle, every accepted frame
  has been filtered, every result has reached the batching thread, no frame was refused and no
  batch lost, for every stream and event the batches and the open one decode to the frames
  received, and every batch was answered by Redis exactly once (simulated, in dry-run mode).
\<close>

theorem pipeline_quiesces:
  assumes "pipeline_step\<^sup>*\<^sup>* (pipeline_start base dry n conns fs thr bthr) p" and "running p"
    and "(serving_step ^^ m) p q"
  shows "m \<le> weight p \<and> (idle q \<or> \<not> in_memory (batching q) \<or> (\<exists>r. serving_step q r))
    \<and> (idle q \<longrightarrow> mset (accepted q) = mset (map fst (results q))
        \<and> mset (concat (map snd (results q))) = mset (consumed q) \<and> dropped q = [] \<and> lost q = []
        \<and> (\<forall>k. decode_batch (bytes_of k (batched q) @ pending_bytes k (batching q))
              = Some (map frame_image (key_frames k (consumed q))))
        \<and> mset (map (command_of (queue_base q)) (batched q))
          = mset (published q) + mset (map (command_of (queue_base q)) (simulated q)))"
proof -
  have inv: "pipeline_inv p" by (rule reachable_inv [OF assms(1)])
  have "interleaved serving_step serving_step m p q"
    using assms(3) by (induction m arbitrary: q) (auto intro: interleaved.intros)
  note bound = serving.own_steps_bounded [OF this inv assms(2)]
    and last = serving.interleaved_work [OF this inv assms(2)]
  have q: "worker_inv q" "batches_inv q" "sending_inv q" "stop_inv q" "running q"
    using last by (simp_all add: pipeline_inv_def)
  have none: "dropped q = []" "lost q = []" using q(4,5) by (auto simp: stop_inv_def running_def)
  have "held q = [] \<and> unsent q = [] \<and> underway q = []" if "idle q"
    using that by (auto simp: idle_def held_def unsent_def underway_def list_all_iff)
  with q(1,3) none have "mset (accepted q) = mset (map fst (results q))
      \<and> mset (concat (map snd (results q))) = mset (consumed q)
      \<and> mset (map (command_of (queue_base q)) (batched q))
        = mset (published q) + mset (map (command_of (queue_base q)) (simulated q))" if "idle q"
    using that by (simp add: idle_def worker_inv_def sending_inv_def)
  with none bound batches_decode [OF q(1,2)] show ?thesis by blast
qed

text \<open>One frame, taken, filtered, sent, batched and published.\<close>

definition working_off :: "schedule_op list" where
  "working_off =
     [DoTake 0, DoFilter 0 (numbered_env 1), DoSend 0 (numbered_env 1), DoSend 0 (numbered_env 1), DoBatch 0,
      DoTakeBatch 0, DoSendBatch 0 \<lparr>pub_now = 0, connect = None, replied = True\<rparr>]"

lemma working_off_run:
  "running (deliver 0 (single_input 1) single_start)"
  "\<exists>q. run_serving working_off (deliver 0 (single_input 1) single_start) = Some q
     \<and> idle q \<and> length (published q) = 1"
proof -
  show "running (deliver 0 (single_input 1) single_start)"
    by (simp add: running_def deliver_def single_start_def pipeline_start_def fifo_new_def empty_batcher_def)
  show "\<exists>q. run_serving working_off (deliver 0 (single_input 1) single_start) = Some q
      \<and> idle q \<and> length (published q) = 1"
    by (simp add: working_off_def single_start_def pipeline_start_def one_worker_start deliver_def
      take_frame_def filter_frame_def send_result_def emit_frame_def world_of_def prepare_numbered
      fifo_new_def wait_and_pop_Cons Let_def single_input_def numbered_input_def sample_decoded_def
      processed_frame_def batch_step_def batch_frame_def empty_batcher_def in_memory_def new_batch_def
      serialize_numbered batch_key_def new_batches_def take_batch_def send_batch_def sender_of_def
      publish_batch_def connection_ready_def is_valid_def redis_get_def idle_def)
qed

theorem pipeline_quiesces_witness:
  "\<exists>p q. running p \<and> (serving_step ^^ 7) p q \<and> 7 \<le> weight p \<and> idle q \<and> length (published q) = 1
     \<and> mset (accepted q) = mset (map fst (results q))"
proof -
  let ?p = "deliver 0 (single_input 1) single_start"
  obtain q where q: "run_serving working_off ?p = Some q" "idle q" "length (published q) = 1"
    using working_off_run(2) by (elim exE conjE)
  have "length working_off = 7" by (simp add: working_off_def)
  with run_serving_sound [OF q(1)] have m: "(serving_step ^^ 7) ?p q" by metis
  have "pipeline_step\<^sup>*\<^sup>* single_start ?p" by (blast intro: pipeline_step.intros)
  from pipeline_quiesces [OF this [unfolded single_start_def] _ m [unfolded single_start_def]]
    working_off_run(1) q m
  show ?thesis unfolding single_start_def by blast
qed

end
