(* ===== verification/StreamGraph.thy ===== *)
theory StreamGraph
  imports Types
begin

text \<open>
  \<open>setup_multi_output_filter_graph\<close> of \<open>src/src/components/stream_io/stream_io_manager.cpp\<close>:
  the arguments of the buffer source, the frame-selection interval of each event, the text of
  the filter graph and the map from event names to sinks. FFmpeg's answers are the record
  \<open>graph_calls\<close>, its \<open>av_q2d\<close> is the parameter \<open>q2d\<close>. \<open>None\<close> is undefined behaviour: a
  quotient outside the range of \<open>int\<close>, or the null pointer of a failed \<open>avfilter_inout_alloc\<close>.
\<close>

section \<open>The graph\<close>

record AVCodecParameters =
  cp_width :: int
  cp_height :: int
  cp_format :: int
  cp_sample_aspect_ratio :: AVRational

record AVStream =
  codecpar :: AVCodecParameters
  vs_time_base :: AVRational
  avg_frame_rate :: AVRational
  r_frame_rate :: AVRational

record graph_calls =
  inouts_allocated :: bool
  graph_allocated :: bool
  create_source :: "string \<Rightarrow> int"
  create_sink :: "nat \<Rightarrow> int"
  next_inout :: "nat \<Rightarrow> bool"
  parse_graph :: "string \<Rightarrow> int"
  config_graph :: int

definition source_args :: "AVStream \<Rightarrow> string" where
  "source_args vs =
     ''width='' @ show_int (cp_width (codecpar vs)) @ '':''
     @ ''height='' @ show_int (cp_height (codecpar vs)) @ '':''
     @ (if cp_format (codecpar vs) \<noteq> AV_PIX_FMT_NONE
        then ''pix_fmt='' @ show_int (cp_format (codecpar vs)) @ '':'' else [])
     @ ''time_base='' @ show_int (num (vs_time_base vs)) @ ''/''
     @ show_int (den (vs_time_base vs)) @ '':''
     @ ''pixel_aspect='' @ show_int (num (cp_sample_aspect_ratio (codecpar vs))) @ ''/''
     @ show_int (den (cp_sample_aspect_ratio (codecpar vs)))"

definition source_fps :: "(AVRational \<Rightarrow> double) \<Rightarrow> AVStream \<Rightarrow> double" where
  "source_fps q2d vs =
     (if den (avg_frame_rate vs) > 0 \<and> num (avg_frame_rate vs) > 0 then q2d (avg_frame_rate vs)
      else if den (r_frame_rate vs) > 0 \<and> num (r_frame_rate vs) > 0 then q2d (r_frame_rate vs)
      else 1)"

definition select_interval :: "double \<Rightarrow> EventConfig \<Rightarrow> int option" where
  "select_interval src_fps ev =
     (let target = (if ev_target_fps ev \<le> 0 then 1 else ev_target_fps ev)
      in Option.bind (double_div src_fps target) (\<lambda>q.
           map_option (\<lambda>interval. if interval < 1 then 1 else interval) (double_to_int q)))"

definition select_chain :: "nat \<Rightarrow> int \<Rightarrow> string" where
  "select_chain i interval =
     '';[s'' @ show_nat i @ '']select='' @ [CHR 0x27] @ ''not(mod(n'' @ [CHR 0x5C] @ '',''
     @ show_int interval @ ''))'' @ [CHR 0x27] @ ''[sink'' @ show_nat i @ '']''"

fun select_chains :: "double \<Rightarrow> nat \<Rightarrow> EventConfig list \<Rightarrow> string option" where
  "select_chains src_fps i [] = Some []"
| "select_chains src_fps i (e # es) =
     Option.bind (select_interval src_fps e) (\<lambda>interval.
       map_option (\<lambda>rest. select_chain i interval @ rest) (select_chains src_fps (Suc i) es))"

definition filter_spec :: "(AVRational \<Rightarrow> double) \<Rightarrow> AVStream \<Rightarrow> EventConfig list \<Rightarrow> string option" where
  "filter_spec q2d vs evs =
     map_option
       (\<lambda>chains. ''[in]split='' @ show_nat (length evs)
          @ concat (map (\<lambda>i. ''[s'' @ show_nat i @ '']'') [0..<length evs]) @ chains)
       (select_chains (source_fps q2d vs) 0 evs)"

text \<open>
  The loop that creates one sink per event: the map sends the event's name to the sink, so that
  a later event of the same name replaces the entry. The flag is false after a failed creation.
\<close>

fun create_sinks ::
  "graph_calls \<Rightarrow> nat \<Rightarrow> EventConfig list \<Rightarrow> (string, nat) smap \<Rightarrow> (bool \<times> (string, nat) smap) option"
where
  "create_sinks g i [] sinks = Some (True, sinks)"
| "create_sinks g i (e # es) sinks =
     (if create_sink g i < 0 then Some (False, sinks)
      else let sinks' = smap_insert (ev_name e) i sinks
           in if es \<noteq> [] \<and> \<not> next_inout g i then None
              else create_sinks g (Suc i) es sinks')"

definition setup_multi_output_filter_graph ::
  "(AVRational \<Rightarrow> double) \<Rightarrow> graph_calls \<Rightarrow> AVStream \<Rightarrow> EventConfig list
     \<Rightarrow> (bool \<times> (string, nat) smap) option" where
  "setup_multi_output_filter_graph q2d g vs evs =
     (if \<not> inouts_allocated g then Some (False, [])
      else if \<not> graph_allocated g then Some (False, [])
      else if create_source g (source_args vs) < 0 then Some (False, [])
      else (case filter_spec q2d vs evs of
              None \<Rightarrow> None
            | Some spec \<Rightarrow>
                (case create_sinks g 0 evs [] of
                   None \<Rightarrow> None
                 | Some (ok, sinks) \<Rightarrow>
                     if \<not> ok then Some (False, sinks)
                     else if parse_graph g spec < 0 then Some (False, sinks)
                     else if config_graph g < 0 then Some (False, sinks)
                     else Some (True, sinks))))"

section \<open>The sinks\<close>

lemma create_sinks_fold:
  "create_sinks g i es sinks = Some (True, sinks') \<Longrightarrow>
   sinks' = fold (\<lambda>x. smap_insert (ev_name (snd x)) (fst x)) (enumerate i es) sinks"
  by (induction g i es sinks rule: create_sinks.induct) (auto simp: Let_def split: if_splits)

lemma setup_sinks:
  assumes "setup_multi_output_filter_graph q2d g vs evs = Some (True, sinks)"
  shows "sinks = fold (\<lambda>x. smap_insert (ev_name (snd x)) (fst x)) (enumerate 0 evs) []"
  using assms create_sinks_fold [of g 0 evs "[]" sinks]
  by (auto simp: setup_multi_output_filter_graph_def case_prod_beta
      split: if_splits option.splits prod.splits)

text \<open>The sink of a name is that of the last event with the name.\<close>

lemma sinks_last:
  assumes "setup_multi_output_filter_graph q2d g vs evs = Some (True, sinks)"
    and "i < length evs" and "\<forall>j. i < j \<longrightarrow> j < length evs \<longrightarrow> ev_name (evs ! j) \<noteq> ev_name (evs ! i)"
  shows "map_of sinks (ev_name (evs ! i)) = Some i"
proof -
  let ?en = "enumerate 0 evs"
  let ?i = "(i, evs ! i)"
  have split: "?en = take i ?en @ ?i # drop (Suc i) ?en"
    using assms(2) id_take_nth_drop [of i ?en] by (simp add: nth_enumerate_eq)
  have "ev_name (evs ! i) \<notin> (\<lambda>x. ev_name (snd x)) ` set (drop (Suc i) ?en)"
  proof
    assume "ev_name (evs ! i) \<in> (\<lambda>x. ev_name (snd x)) ` set (drop (Suc i) ?en)"
    then obtain k where k: "k < length evs - Suc i" "ev_name (evs ! i) = ev_name (evs ! (Suc i + k))"
      by (auto simp: in_set_conv_nth nth_enumerate_eq)
    then have "i < Suc i + k" "Suc i + k < length evs" by simp_all
    with assms(3) k(2) show False by metis
  qed
  then have "map_of (fold (\<lambda>x. smap_insert (ev_name (snd x)) (fst x))
      (take i ?en @ ?i # drop (Suc i) ?en) []) (ev_name (evs ! i)) = Some (fst ?i)"
    by (intro smap.find_insert_list_last) auto
  with split show ?thesis using setup_sinks [OF assms(1)] by simp
qed

lemma sinks_dom:
  assumes "setup_multi_output_filter_graph q2d g vs evs = Some (True, sinks)"
  shows "map_of sinks nm = None \<longleftrightarrow> nm \<notin> ev_name ` set evs"
proof -
  have "(\<lambda>x. ev_name (snd x)) ` set (enumerate 0 evs) = ev_name ` set evs"
    by (metis image_image map_snd_enumerate list.set_map)
  then show ?thesis
    using smap.find_insert_list_None_iff [of "[]" "\<lambda>x. ev_name (snd x)" fst "enumerate 0 evs" nm]
      setup_sinks [OF assms] by simp
qed

section \<open>The interval\<close>

lemma truncate_nonneg:
  assumes "0 \<le> r" and "r \<le> of_int k" and "k \<le> int_max"
  shows "double_to_int r = Some \<lfloor>r\<rfloor>"
proof -
  have "\<lfloor>r\<rfloor> \<le> k" using assms(2) by linarith
  moreover have "0 \<le> \<lfloor>r\<rfloor>" using assms(1) by simp
  ultimately show ?thesis using assms by (simp add: double_to_int_def Let_def)
qed

lemma select_interval_rounded:
  assumes "0 < src" and "0 < ev_target_fps ev" and "src / ev_target_fps ev < 2 ^ 31 - 1"
  shows "\<exists>k. select_interval src ev = Some k \<and> 1 \<le> k
    \<and> src / of_int (k + 1) < ev_target_fps ev
    \<and> (k = 1 \<or> ev_target_fps ev \<le> src / of_int (k - 1))
    \<and> (\<forall>n. 1 \<le> n \<and> src = of_int n * ev_target_fps ev \<longrightarrow> k = n)
    \<and> (src \<le> ev_target_fps ev \<longrightarrow> k = 1)"
proof -
  let ?t = "ev_target_fps ev"
  let ?x = "src / ?t"
  have "?x < 2 ^ 31" using assms(3) by linarith
  then obtain r where r: "double_div src ?t = Some r" "of_int \<lfloor>?x\<rfloor> \<le> r"
      "r \<le> of_int (\<lfloor>?x\<rfloor> + 1)" "0 \<le> r" "\<And>k. ?x \<le> of_int k \<Longrightarrow> r \<le> of_int k"
    using double_div_bounds [OF assms(1,2)] by blast
  have fl: "0 \<le> \<lfloor>?x\<rfloor>" using assms(1,2) by simp
  have "\<lfloor>?x\<rfloor> + 1 \<le> int_max" using assms(3) by (simp add: floor_less_iff)
  then have i: "double_to_int r = Some \<lfloor>r\<rfloor>" by (rule truncate_nonneg [OF r(4,3)])
  define k where "k = (if \<lfloor>r\<rfloor> < 1 then 1 else \<lfloor>r\<rfloor>)"
  have k: "select_interval src ev = Some k"
    using assms(2) r(1) i by (simp add: select_interval_def k_def Let_def)
  have k1: "1 \<le> k" by (simp add: k_def)
  have "\<lfloor>?x\<rfloor> \<le> \<lfloor>r\<rfloor>" "\<lfloor>r\<rfloor> \<le> k" using r(2) by (simp_all add: le_floor_iff k_def)
  then have lo: "?x < of_int (k + 1)" by linarith
  have "\<lfloor>r\<rfloor> \<le> \<lfloor>?x\<rfloor> + 1" using r(3) by linarith
  then have "k = 1 \<or> k - 1 \<le> \<lfloor>?x\<rfloor>" by (simp add: k_def)
  then have hi: "k = 1 \<or> of_int (k - 1) \<le> ?x" by (simp add: le_floor_iff)
  have ex: "k = n" if "1 \<le> n" "src = of_int n * ?t" for n
  proof -
    have x: "?x = of_int n" using that assms(2) by simp
    then have "r \<le> of_int n" "of_int n \<le> r" using r(2) r(5) [of n] by simp_all
    then show ?thesis using that(1) by (simp add: k_def)
  qed
  have one: "k = 1" if "src \<le> ?t"
  proof -
    have "?x \<le> of_int 1" using that assms by simp
    then have "r \<le> 1" using r(5) [of 1] by simp
    then have "\<lfloor>r\<rfloor> \<le> 1" by linarith
    then have "k \<le> 1" by (simp only: k_def order_refl simp_thms split: if_split)
    with k1 show ?thesis by linarith
  qed
  have "src / of_int (k + 1) < ?t"
    using lo k1 assms(2) by (simp add: pos_divide_less_eq mult.commute)
  moreover have "?t \<le> src / of_int (k - 1)" if "k \<noteq> 1"
  proof -
    have "0 < (of_int (k - 1) :: rat)" using that k1 by simp
    then show ?thesis
      using that hi assms(2) by (simp only: simp_thms pos_le_divide_eq mult.commute)
  qed
  ultimately show ?thesis using k k1 ex one by blast
qed

lemma select_interval_exact:
  assumes "0 < ev_target_fps ev" and "1 \<le> n" and "n < 2 ^ 31 - 1"
  shows "select_interval (of_int n * ev_target_fps ev) ev = Some n"
proof -
  let ?s = "of_int n * ev_target_fps ev"
  have "0 < ?s" "?s / ev_target_fps ev < 2 ^ 31 - 1" using assms by simp_all
  from select_interval_rounded [OF this(1) assms(1) this(2)] assms(2) show ?thesis by blast
qed

text \<open>
  C23: for a source rate and a target rate whose exact quotient lies below \<open>2 ^ 31 - 1\<close>, the
  interval computed in double arithmetic is within one frame of the exact quotient: the rate it
  keeps is never more than one frame per interval away from the target. It is exactly the
  quotient when that is a whole number, and every frame is kept when the source is not faster
  than the target.
\<close>

theorem select_interval_bounds:
  assumes "0 < src" and "0 < ev_target_fps ev" and "src / ev_target_fps ev < 2 ^ 31 - 1"
  shows "\<exists>k. select_interval src ev = Some k \<and> 1 \<le> k
    \<and> src / of_int (k + 1) < ev_target_fps ev
    \<and> (k = 1 \<or> ev_target_fps ev \<le> src / of_int (k - 1))
    \<and> (\<forall>n. 1 \<le> n \<and> src = of_int n * ev_target_fps ev \<longrightarrow> k = n)
    \<and> (src \<le> ev_target_fps ev \<longrightarrow> k = 1)"
  by (rule select_interval_rounded [OF assms])

definition sample_event :: "string \<Rightarrow> double \<Rightarrow> EventConfig" where
  "sample_event nm f = default_event\<lparr>ev_name := nm, ev_target_fps := f\<rparr>"

theorem select_interval_bounds_witness:
  "select_interval 30 (sample_event ''motion'' 5) = Some 6"
proof -
  have "0 < (30::rat)" "0 < ev_target_fps (sample_event ''motion'' 5)"
    "30 / ev_target_fps (sample_event ''motion'' 5) < 2 ^ 31 - 1"
    by (simp_all add: sample_event_def)
  from select_interval_bounds [OF this] show ?thesis by (auto simp: sample_event_def)
qed

text \<open>
  after a successful setup every event has a sink, the sink of a name is the one created for
  the last event of that name, and two events share a sink exactly when they share the name.
\<close>

theorem sinks_by_name:
  assumes "setup_multi_output_filter_graph q2d g vs evs = Some (True, sinks)"
  shows "(\<forall>e \<in> set evs. \<exists>i < length evs. map_of sinks (ev_name e) = Some i
            \<and> ev_name (evs ! i) = ev_name e
            \<and> (\<forall>j. i < j \<longrightarrow> j < length evs \<longrightarrow> ev_name (evs ! j) \<noteq> ev_name e))
    \<and> (\<forall>e \<in> set evs. \<forall>e' \<in> set evs.
         map_of sinks (ev_name e) = map_of sinks (ev_name e') \<longleftrightarrow> ev_name e = ev_name e')"
proof -
  have ex: "\<exists>i < length evs. map_of sinks (ev_name e) = Some i \<and> ev_name (evs ! i) = ev_name e
      \<and> (\<forall>j. i < j \<longrightarrow> j < length evs \<longrightarrow> ev_name (evs ! j) \<noteq> ev_name e)"
    if "e \<in> set evs" for e
  proof -
    from that have "\<exists>x \<in> set evs. ev_name x = ev_name e" by blast
    then obtain xs x ys where s: "evs = xs @ x # ys" "ev_name x = ev_name e"
        "\<forall>y \<in> set ys. ev_name y \<noteq> ev_name e"
      by (rule split_list_last_propE)
    have i: "length xs < length evs" "evs ! length xs = x" using s(1) by simp_all
    have last: "\<forall>j. length xs < j \<longrightarrow> j < length evs \<longrightarrow> ev_name (evs ! j) \<noteq> ev_name e"
      using s(1,3) by (auto simp: nth_append nth_Cons')
    then have "map_of sinks (ev_name (evs ! length xs)) = Some (length xs)"
      using s(2) i(2) by (intro sinks_last [OF assms i(1)]) simp
    with i s(2) last show ?thesis by auto
  qed
  moreover have "ev_name e = ev_name e'"
    if "e \<in> set evs" "e' \<in> set evs" "map_of sinks (ev_name e) = map_of sinks (ev_name e')" for e e'
    using ex [OF that(1)] ex [OF that(2)] that(3) by auto
  ultimately show ?thesis by auto
qed

definition sample_stream :: AVStream where
  "sample_stream =
     \<lparr>codecpar = \<lparr>cp_width = 4, cp_height = 2, cp_format = 0,
                  cp_sample_aspect_ratio = \<lparr>num = 1, den = 1\<rparr>\<rparr>,
      vs_time_base = \<lparr>num = 1, den = 90000\<rparr>,
      avg_frame_rate = \<lparr>num = 30, den = 1\<rparr>, r_frame_rate = \<lparr>num = 30, den = 1\<rparr>\<rparr>"

definition sample_graph :: graph_calls where
  "sample_graph =
     \<lparr>inouts_allocated = True, graph_allocated = True, create_source = (\<lambda>_. 0),
      create_sink = (\<lambda>_. 0), next_inout = (\<lambda>_. True), parse_graph = (\<lambda>_. 0), config_graph = 0\<rparr>"

definition sample_q2d :: "AVRational \<Rightarrow> double" where
  "sample_q2d r = of_int (num r) / of_int (den r)"

lemma sample_setup:
  "setup_multi_output_filter_graph sample_q2d sample_graph sample_stream
     [sample_event ''a'' 5, sample_event ''b'' 10, sample_event ''a'' 1]
   = Some (True, [(''a'', 2), (''b'', 1)])"
proof -
  have "select_interval 30 (sample_event nm f) = Some n"
    if "30 = of_int n * f" "0 < f" "1 \<le> n" "n < 2 ^ 31 - 1" for nm f n
    using select_interval_exact [of "sample_event nm f" n] that by (simp add: sample_event_def)
  from this [of 6 5] this [of 3 10] this [of 30 1]
  have "select_interval 30 (sample_event nm 5) = Some 6"
    "select_interval 30 (sample_event nm 10) = Some 3"
    "select_interval 30 (sample_event nm 1) = Some 30" for nm
    by simp_all
  then have "filter_spec sample_q2d sample_stream
      [sample_event ''a'' 5, sample_event ''b'' 10, sample_event ''a'' 1] \<noteq> None"
    by (simp add: filter_spec_def source_fps_def sample_stream_def sample_q2d_def)
  moreover have "create_sinks sample_graph 0
      [sample_event ''a'' 5, sample_event ''b'' 10, sample_event ''a'' 1] []
      = Some (True, [(''a'', 2), (''b'', 1)])"
    by code_simp
  ultimately show ?thesis
    by (auto simp: setup_multi_output_filter_graph_def sample_graph_def)
qed

theorem sinks_by_name_witness:
  "\<exists>i < length [sample_event ''a'' 5, sample_event ''b'' 10, sample_event ''a'' 1].
     map_of [(''a'', 2), (''b'', 1)] ''a'' = Some i"
proof -
  have "sample_event ''a'' 5 \<in> set [sample_event ''a'' 5, sample_event ''b'' 10, sample_event ''a'' 1]"
    "ev_name (sample_event ''a'' 5) = ''a''"
    by (simp_all add: sample_event_def)
  with sinks_by_name [OF sample_setup] show ?thesis by metis
qed

end
