(* ===== verification/StreamRun.thy ===== *)
theory StreamRun
  imports StreamGraph
begin

text \<open>
  The thread function \<open>StreamIoManager::run_stream\<close>
  (\<open>src/src/components/stream_io/stream_io_manager.cpp\<close>) as a state machine: one step per
  iteration of its loops. The answers of FFmpeg and of the stop token during a step are the
  record \<open>stream_calls\<close>; a list of answers that runs out stands for \<open>AVERROR(EAGAIN)\<close>. The
  step returns the effects in program order: waits, opened and closed inputs, pushed frames.
\<close>

section \<open>States and effects\<close>

record session =
  video_index :: int
  sink_contexts :: "(string, nat) smap"

datatype pc =
  LoopHead | Connect int | Setup | Read session | Flush session | Finished | Terminated stdexc | Undefined

datatype effect =
  SleepMs nat | WaitSeconds int | OpenInput | CloseInput | PushFrame DecodedFrame
| PullFlushed nat

text \<open>The answer of one \<open>av_buffersink_get_frame\<close>: the return code and the frame.\<close>

type_synonym pull = "int \<times> AVFrame"

datatype receive_result =
  ReceiveError int
| Received AVFrame int "nat \<Rightarrow> pull list"

record stream_calls =
  stop_requested :: bool
  context_allocated :: bool
  open_input :: int
  find_stream_info :: int
  find_best_stream :: int
  decoder_found :: bool
  codec_context :: bool
  parameters_to_context :: int
  codec_open :: int
  video_stream :: AVStream
  graph :: graph_calls
  read_frame :: int
  packet_stream :: int
  send_packet :: int
  received :: "receive_result list"
  sink_time_base :: "nat \<Rightarrow> AVRational"
  flushed :: "nat \<Rightarrow> pull list"
  stop_after_flush :: bool

section \<open>Connecting\<close>

definition check_interrupt :: "bool option option \<Rightarrow> int" where
  "check_interrupt ctx =
     (case ctx of
        None \<Rightarrow> 0
      | Some st \<Rightarrow> (case st of None \<Rightarrow> 0 | Some requested \<Rightarrow> if requested then 1 else 0))"

abbreviation (input) max_retries :: int where "max_retries \<equiv> 5"

definition connect_failed :: "int \<Rightarrow> pc \<times> effect list" where
  "connect_failed current_retry =
     (if current_retry > max_retries then (Connect 0, [WaitSeconds 30])
      else (Connect (current_retry + 1), [WaitSeconds (2 ^ nat current_retry)]))"

text \<open>
  One iteration of the connection loop; with a stop request the loop ends unconnected, and the
  test after the loop ends the function.
\<close>

definition connect_step :: "stream_calls \<Rightarrow> int \<Rightarrow> pc \<times> effect list" where
  "connect_step e current_retry =
     (if stop_requested e then (Finished, [])
      else if \<not> context_allocated e then (Connect current_retry, [SleepMs 1000])
      else if open_input e = 0 then (Setup, [OpenInput])
      else connect_failed current_retry)"

text \<open>The setup after the connection: leaving the scope closes the input.\<close>

definition setup_step ::
  "(AVRational \<Rightarrow> double) \<Rightarrow> StreamConfig \<Rightarrow> stream_calls \<Rightarrow> pc \<times> effect list" where
  "setup_step q2d config e =
     (if stop_requested e then (Finished, [CloseInput])
      else if find_stream_info e < 0 then (LoopHead, [CloseInput])
      else if find_best_stream e < 0 then (Finished, [CloseInput])
      else if \<not> decoder_found e then (Finished, [CloseInput])
      else if \<not> codec_context e \<or> parameters_to_context e < 0 then (Finished, [CloseInput])
      else if codec_open e < 0 then (Finished, [CloseInput])
      else (case setup_multi_output_filter_graph q2d (graph e) (video_stream e) (events config) of
              None \<Rightarrow> (Undefined, [])
            | Some (ok, sinks) \<Rightarrow>
                if \<not> ok then (Finished, [CloseInput])
                else (Read \<lparr>video_index = find_best_stream e, sink_contexts = sinks\<rparr>, [])))"

section \<open>Reading and decoding\<close>

fun pull_frames :: "pull list \<Rightarrow> AVFrame list \<times> pull list" where
  "pull_frames [] = ([], [])"
| "pull_frames ((ret, f) # ps) =
     (if ret < 0 then ([], ps)
      else case pull_frames ps of (fs, rest) \<Rightarrow> (f # fs, rest))"

definition output_frame :: "StreamConfig \<Rightarrow> EventConfig \<Rightarrow> AVRational \<Rightarrow> AVFrame \<Rightarrow> DecodedFrame" where
  "output_frame config event tb f =
     \<lparr>frame = f, source_config = config, event_config = event, time_base = tb\<rparr>"

fun push_events ::
  "StreamConfig \<Rightarrow> (nat \<Rightarrow> AVRational) \<Rightarrow> (string, nat) smap \<Rightarrow> EventConfig list
     \<Rightarrow> (nat \<Rightarrow> pull list) \<Rightarrow> stdexc + DecodedFrame list" where
  "push_events config tb sinks [] pulls = Inr []"
| "push_events config tb sinks (event # es) pulls =
     (case map_of sinks (ev_name event) of
        None \<Rightarrow> Inl OutOfRange
      | Some k \<Rightarrow>
          (case pull_frames (pulls k) of (fs, rest) \<Rightarrow>
             rbind (push_events config tb sinks es (pulls(k := rest)))
               (\<lambda>outs. Inr (map (output_frame config event (tb k)) fs @ outs))))"

fun decode_loop ::
  "StreamConfig \<Rightarrow> (nat \<Rightarrow> AVRational) \<Rightarrow> (string, nat) smap \<Rightarrow> receive_result list
     \<Rightarrow> (stdexc \<times> DecodedFrame list) + (bool \<times> DecodedFrame list)" where
  "decode_loop config tb sinks [] = Inr (True, [])"
| "decode_loop config tb sinks (ReceiveError ret # rs) = Inr (False, [])"
| "decode_loop config tb sinks (Received raw push_ret pulls # rs) =
     (if push_ret < 0 then Inr (False, [])
      else (case push_events config tb sinks (events config) pulls of
              Inl x \<Rightarrow> Inl (x, [])
            | Inr outs \<Rightarrow>
                (case decode_loop config tb sinks rs of
                   Inl (x, outs') \<Rightarrow> Inl (x, outs @ outs')
                 | Inr (healthy, outs') \<Rightarrow> Inr (healthy, outs @ outs'))))"

text \<open>
  One iteration of the read loop. That \<open>av_packet_alloc\<close> or \<open>av_frame_alloc\<close> returns null, which
  the code does not check, is not modelled.
\<close>

definition read_step :: "StreamConfig \<Rightarrow> stream_calls \<Rightarrow> session \<Rightarrow> pc \<times> effect list" where
  "read_step config e s =
     (if stop_requested e then (Flush s, [])
      else if read_frame e < 0 then (Flush s, [])
      else if packet_stream e \<noteq> video_index s then (Read s, [])
      else if send_packet e \<noteq> 0 then (Read s, [])
      else (case decode_loop config (sink_time_base e) (sink_contexts s) (received e) of
              Inl (x, outs) \<Rightarrow> (Terminated x, map PushFrame outs)
            | Inr (healthy, outs) \<Rightarrow>
                (if healthy then Read s else Flush s, map PushFrame outs)))"

text \<open>
  The flush asks the sinks for their remaining frames and discards them; the loop body then
  ends, which closes the input.
\<close>

fun flush_events ::
  "(string, nat) smap \<Rightarrow> EventConfig list \<Rightarrow> (nat \<Rightarrow> pull list) \<Rightarrow> effect list" where
  "flush_events sinks [] pulls = []"
| "flush_events sinks (event # es) pulls =
     (case map_of sinks (ev_name event) of
        None \<Rightarrow> flush_events sinks es pulls
      | Some k \<Rightarrow>
          (case pull_frames (pulls k) of (fs, rest) \<Rightarrow>
             map (\<lambda>_. PullFlushed k) fs @ flush_events sinks es (pulls(k := rest))))"

definition flush_step :: "StreamConfig \<Rightarrow> stream_calls \<Rightarrow> session \<Rightarrow> pc \<times> effect list" where
  "flush_step config e s =
     (LoopHead, flush_events (sink_contexts s) (events config) (flushed e)
        @ (if stop_after_flush e then [] else [SleepMs 500]) @ [CloseInput])"

fun run_stream ::
  "(AVRational \<Rightarrow> double) \<Rightarrow> StreamConfig \<Rightarrow> stream_calls \<Rightarrow> pc \<Rightarrow> pc \<times> effect list" where
  "run_stream q2d config e LoopHead = (if stop_requested e then (Finished, []) else (Connect 0, []))"
| "run_stream q2d config e (Connect r) = connect_step e r"
| "run_stream q2d config e Setup = setup_step q2d config e"
| "run_stream q2d config e (Read s) = read_step config e s"
| "run_stream q2d config e (Flush s) = flush_step config e s"
| "run_stream q2d config e Finished = (Finished, [])"
| "run_stream q2d config e (Terminated x) = (Terminated x, [])"
| "run_stream q2d config e Undefined = (Undefined, [])"

fun run_steps ::
  "(AVRational \<Rightarrow> double) \<Rightarrow> StreamConfig \<Rightarrow> stream_calls list \<Rightarrow> pc \<Rightarrow> pc \<times> effect list" where
  "run_steps q2d config [] p = (p, [])"
| "run_steps q2d config (e # es) p =
     (case run_stream q2d config e p of (p1, fx1) \<Rightarrow>
        (case run_steps q2d config es p1 of (p2, fx2) \<Rightarrow> (p2, fx1 @ fx2)))"

section \<open>Helper lemmas\<close>

lemma run_steps_Cons:
  "run_steps q2d config (e # es) p =
     (fst (run_steps q2d config es (fst (run_stream q2d config e p))),
      snd (run_stream q2d config e p)
        @ snd (run_steps q2d config es (fst (run_stream q2d config e p))))"
  by (simp add: split_beta)

declare run_steps.simps(2) [simp del]

text \<open>The sinks of a session name every event of the stream.\<close>

fun pc_inv :: "StreamConfig \<Rightarrow> pc \<Rightarrow> bool" where
  "pc_inv config (Read s) \<longleftrightarrow> (\<forall>e \<in> set (events config). map_of (sink_contexts s) (ev_name e) \<noteq> None)"
| "pc_inv config (Flush s) \<longleftrightarrow> (\<forall>e \<in> set (events config). map_of (sink_contexts s) (ev_name e) \<noteq> None)"
| "pc_inv config (Connect r) \<longleftrightarrow> 0 \<le> r \<and> r \<le> 6"
| "pc_inv config (Terminated x) \<longleftrightarrow> False"
| "pc_inv config _ \<longleftrightarrow> True"

lemma pull_frames_first: "fst (pull_frames ps) = map snd (takeWhile (\<lambda>(ret, f). 0 \<le> ret) ps)"
  by (induction ps rule: pull_frames.induct) (auto split: prod.splits)

lemma push_events_total:
  "\<forall>e \<in> set es. map_of sinks (ev_name e) \<noteq> None \<Longrightarrow>
   \<exists>outs. push_events config tb sinks es pulls = Inr outs"
proof (induction es arbitrary: pulls)
  case Nil
  then show ?case by simp
next
  case (Cons e es)
  then obtain k where "map_of sinks (ev_name e) = Some k" by auto
  moreover obtain fs rest where "pull_frames (pulls k) = (fs, rest)" by fastforce
  moreover obtain outs where "push_events config tb sinks es (pulls(k := rest)) = Inr outs"
    using Cons by fastforce
  ultimately show ?case by simp
qed

lemma decode_loop_total:
  "\<forall>e \<in> set (events config). map_of sinks (ev_name e) \<noteq> None \<Longrightarrow>
   \<exists>healthy outs. decode_loop config tb sinks rs = Inr (healthy, outs)"
proof (induction config tb sinks rs rule: decode_loop.induct)
  case (3 config tb sinks raw push_ret pulls rs)
  obtain outs where "push_events config tb sinks (events config) pulls = Inr outs"
    using push_events_total [OF 3(2)] by blast
  moreover have "\<exists>healthy outs. decode_loop config tb sinks rs = Inr (healthy, outs)"
    if "\<not> push_ret < 0"
    using 3 that calculation by blast
  ultimately show ?case by (cases "push_ret < 0") auto
qed (simp_all, blast+)

lemma run_stream_inv:
  assumes "pc_inv config p"
  shows "pc_inv config (fst (run_stream q2d config e p))"
proof (cases p)
  case (Connect r)
  with assms show ?thesis by (auto simp: connect_step_def connect_failed_def)
next
  case Setup
  then show ?thesis
    using sinks_dom [of q2d "graph e" "video_stream e" "events config"]
    by (auto simp: setup_step_def split: option.splits)
next
  case (Read s)
  with assms obtain h outs
    where "decode_loop config (sink_time_base e) (sink_contexts s) (received e) = Inr (h, outs)"
    using decode_loop_total by (metis pc_inv.simps(1))
  with Read assms show ?thesis by (simp add: read_step_def)
next
  case (Terminated x)
  with assms show ?thesis by simp
qed (auto simp: flush_step_def)

interpretation stream_ts: transition_system "\<lambda>p. p = LoopHead"
  "\<lambda>p p'. \<exists>q2d e. p' = fst (run_stream q2d config e p)" "pc_inv config" for config
  by unfold_locales (auto simp: run_stream_inv)

lemma run_steps_reach:
  "(\<lambda>p p'. \<exists>q2d e. p' = fst (run_stream q2d config e p))\<^sup>*\<^sup>* p (fst (run_steps q2d config es p))"
proof (induction es arbitrary: p)
  case Nil
  then show ?case by simp
next
  case (Cons e es)
  have "\<exists>q2d' e'. fst (run_stream q2d config e p) = fst (run_stream q2d' config e' p)" by blast
  from converse_rtranclp_into_rtranclp [where r = "\<lambda>p p'. \<exists>q2d e. p' = fst (run_stream q2d config e p)",
      OF this Cons.IH]
  show ?case by (simp add: run_steps_Cons)
qed


lemma run_steps_append:
  "run_steps q2d config (es @ es') p =
     (fst (run_steps q2d config es' (fst (run_steps q2d config es p))),
      snd (run_steps q2d config es p)
        @ snd (run_steps q2d config es' (fst (run_steps q2d config es p))))"
  by (induction es arbitrary: p) (simp_all add: run_steps_Cons)

lemma run_steps_inv: "pc_inv config p \<Longrightarrow> pc_inv config (fst (run_steps q2d config es p))"
  by (induction es arbitrary: p) (simp_all add: run_steps_Cons run_stream_inv)

definition pushed :: "effect list \<Rightarrow> DecodedFrame list" where
  "pushed fx = List.map_filter (\<lambda>f. case f of PushFrame d \<Rightarrow> Some d | _ \<Rightarrow> None) fx"

lemma pushed_simps [simp]:
  "pushed [] = []" "pushed (PushFrame d # fx) = d # pushed fx" "pushed (OpenInput # fx) = pushed fx"
  "pushed (CloseInput # fx) = pushed fx" "pushed (SleepMs n # fx) = pushed fx"
  "pushed (WaitSeconds i # fx) = pushed fx" "pushed (PullFlushed k # fx) = pushed fx"
  by (simp_all add: pushed_def List.map_filter_def)

lemma pushed_append [simp]: "pushed (fx @ fx') = pushed fx @ pushed fx'"
  by (simp add: pushed_def List.map_filter_def)

lemma pushed_frames [simp]: "pushed (map PushFrame ds) = ds"
  by (induction ds) simp_all

lemma pushed_flush [simp]: "pushed (flush_events sinks es pulls) = []"
proof -
  have "pushed (map (\<lambda>_. PullFlushed k) fs) = []" for k and fs :: "AVFrame list"
    by (induction fs) simp_all
  then show ?thesis
    by (induction sinks es pulls rule: flush_events.induct) (auto split: option.splits prod.splits)
qed

definition belongs :: "StreamConfig \<Rightarrow> DecodedFrame \<Rightarrow> bool" where
  "belongs config d \<longleftrightarrow> source_config d = config \<and> event_config d \<in> set (events config)"

lemma push_events_belongs:
  "push_events config tb sinks es pulls = Inr outs \<Longrightarrow> set es \<subseteq> set (events config) \<Longrightarrow>
   list_all (belongs config) outs"
proof (induction es arbitrary: pulls outs)
  case Nil
  then show ?case by simp
next
  case (Cons e es)
  then show ?case
    by (auto simp: rbind_Inr_iff belongs_def output_frame_def list_all_iff
        split: option.splits prod.splits)
qed

lemma decode_loop_belongs:
  "decode_loop config tb sinks rs = Inr (h, outs) \<Longrightarrow> list_all (belongs config) outs"
proof (induction config tb sinks rs arbitrary: h outs rule: decode_loop.induct)
  case (3 config tb sinks raw push_ret pulls rs)
  show ?case
  proof (cases "push_ret < 0")
    case True
    with 3 show ?thesis by simp
  next
    case False
    with 3(2) obtain o1 h2 o2 where "push_events config tb sinks (events config) pulls = Inr o1"
      "decode_loop config tb sinks rs = Inr (h2, o2)" "outs = o1 @ o2"
      by (auto split: sum.splits prod.splits)
    moreover have "list_all (belongs config) o1"
      using push_events_belongs calculation(1) by blast
    moreover have "list_all (belongs config) o2" using 3(1) False calculation by blast
    ultimately show ?thesis by simp
  qed
qed simp_all

lemma run_stream_belongs:
  assumes "pc_inv config p"
  shows "list_all (belongs config) (pushed (snd (run_stream q2d config e p)))"
proof (cases p)
  case (Read s)
  with assms obtain h outs
    where "decode_loop config (sink_time_base e) (sink_contexts s) (received e) = Inr (h, outs)"
    using decode_loop_total by (metis pc_inv.simps(1))
  with Read show ?thesis by (simp add: read_step_def decode_loop_belongs)
qed (auto simp: connect_step_def connect_failed_def setup_step_def flush_step_def split: option.splits)

lemma run_steps_belongs:
  "pc_inv config p \<Longrightarrow> list_all (belongs config) (pushed (snd (run_steps q2d config es p)))"
  by (induction es arbitrary: p) (simp_all add: run_steps_Cons run_stream_belongs run_stream_inv)

text \<open>The inputs opened and closed.\<close>

definition input_ops :: "effect list \<Rightarrow> effect list" where
  "input_ops fx = filter (\<lambda>f. f = OpenInput \<or> f = CloseInput) fx"

fun has_input :: "pc \<Rightarrow> bool" where
  "has_input Setup = True"
| "has_input (Read s) = True"
| "has_input (Flush s) = True"
| "has_input Undefined = True"
| "has_input _ = False"

definition opens :: "nat \<Rightarrow> bool \<Rightarrow> effect list" where
  "opens n b = concat (replicate n [OpenInput, CloseInput]) @ (if b then [OpenInput] else [])"

lemma input_ops_append [simp]: "input_ops (fx @ fx') = input_ops fx @ input_ops fx'"
  by (simp add: input_ops_def)

lemma input_ops_frames [simp]: "input_ops (map PushFrame ds) = []"
  by (simp add: input_ops_def filter_empty_conv)

lemma input_ops_flush [simp]: "input_ops (flush_events sinks es pulls) = []"
proof -
  have "input_ops (map (\<lambda>_. PullFlushed k) fs) = []" "input_ops [] = []" for k and fs :: "AVFrame list"
    by (simp_all add: input_ops_def filter_empty_conv)
  then show ?thesis
    by (induction sinks es pulls rule: flush_events.induct) (auto split: option.splits prod.splits)
qed

lemma opens_close: "opens n True @ [CloseInput] = opens (Suc n) False"
  by (simp add: opens_def flip: replicate_append_same)

lemma run_stream_inputs:
  assumes "pc_inv config p"
  shows "\<exists>n'. opens n (has_input p) @ input_ops (snd (run_stream q2d config e p))
    = opens n' (has_input (fst (run_stream q2d config e p)))"
proof (cases p)
  case LoopHead
  then show ?thesis by (auto simp: input_ops_def)
next
  case (Connect r)
  have "opens n False @ [OpenInput] = opens n True" by (simp add: opens_def)
  with Connect show ?thesis by (auto simp: connect_step_def connect_failed_def input_ops_def)
next
  case Setup
  have "input_ops [CloseInput] = [CloseInput]" "input_ops [] = []" by (simp_all add: input_ops_def)
  with Setup show ?thesis using opens_close [of n]
    by (auto simp: setup_step_def split: option.splits)
next
  case (Read s)
  with assms obtain h outs
    where "decode_loop config (sink_time_base e) (sink_contexts s) (received e) = Inr (h, outs)"
    using decode_loop_total by (metis pc_inv.simps(1))
  moreover have "input_ops [] = []" by (simp add: input_ops_def)
  ultimately show ?thesis using Read by (auto simp: read_step_def)
next
  case (Flush s)
  have "input_ops [CloseInput] = [CloseInput]" "input_ops [SleepMs 500] = []" "input_ops [] = []"
    by (simp_all add: input_ops_def)
  with Flush show ?thesis using opens_close [of n] by (auto simp: flush_step_def)
qed (auto simp: input_ops_def)

lemma run_steps_inputs:
  "pc_inv config p \<Longrightarrow> \<exists>n'. opens n (has_input p) @ input_ops (snd (run_steps q2d config es p))
    = opens n' (has_input (fst (run_steps q2d config es p)))"
proof (induction es arbitrary: p n)
  case Nil
  then show ?case by (auto simp: input_ops_def)
next
  case (Cons e es)
  obtain n1 where "opens n (has_input p) @ input_ops (snd (run_stream q2d config e p))
      = opens n1 (has_input (fst (run_stream q2d config e p)))"
    using run_stream_inputs [OF Cons.prems] by blast
  moreover obtain n2 where
    "opens n1 (has_input (fst (run_stream q2d config e p)))
        @ input_ops (snd (run_steps q2d config es (fst (run_stream q2d config e p))))
      = opens n2 (has_input (fst (run_steps q2d config es (fst (run_stream q2d config e p)))))"
    using Cons.IH [OF run_stream_inv [OF Cons.prems]] by blast
  ultimately show ?case by (auto simp: run_steps_Cons append_assoc [symmetric])
qed


text \<open>With a sink of its own, every event gets exactly what its sink delivers.\<close>

lemma push_events_routed:
  "\<forall>j < length es. map_of sinks (ev_name (es ! j)) = Some (i + j) \<Longrightarrow>
   push_events config tb sinks es pulls =
     Inr (concat (map (\<lambda>j. map (output_frame config (es ! j) (tb (i + j)))
                              (fst (pull_frames (pulls (i + j))))) [0..<length es]))"
proof (induction es arbitrary: i pulls)
  case Nil
  then show ?case by simp
next
  case (Cons e es)
  obtain fs rest where pf: "pull_frames (pulls i) = (fs, rest)" by fastforce
  have e: "map_of sinks (ev_name e) = Some i" using Cons.prems by (metis length_greater_0_conv
      list.distinct(1) nth_Cons_0 add_0_right)
  have "\<forall>j < length es. map_of sinks (ev_name (es ! j)) = Some (Suc i + j)"
    using Cons.prems by fastforce
  from Cons.IH [OF this, of "pulls(i := rest)"]
  have IH: "push_events config tb sinks es (pulls(i := rest)) =
     Inr (concat (map (\<lambda>j. map (output_frame config (es ! j) (tb (Suc i + j)))
                              (fst (pull_frames (pulls (Suc i + j))))) [0..<length es]))"
    by (simp add: fun_upd_def)
  show ?case
    unfolding push_events.simps e option.case pf prod.case IH rbind_simps
    using pf by (simp add: upt_conv_Cons map_Suc_upt [symmetric] o_def del: upt_Suc)
qed

definition silent :: "stream_calls \<Rightarrow> bool" where
  "silent e \<longleftrightarrow> stop_requested e \<and> stop_after_flush e"

definition refused :: "stream_calls \<Rightarrow> bool" where
  "refused e \<longleftrightarrow> \<not> stop_requested e \<and> context_allocated e \<and> open_input e \<noteq> 0"


definition backoff :: "nat \<Rightarrow> int" where
  "backoff i = (if i mod 7 = 6 then 30 else 2 ^ (i mod 7))"

lemma run_steps_refused:
  "list_all refused es \<Longrightarrow>
   run_steps q2d config es (Connect 0)
     = (Connect (int (length es mod 7)), map (\<lambda>i. WaitSeconds (backoff i)) [0..<length es])"
proof (induction es rule: rev_induct)
  case Nil
  then show ?case by simp
next
  case (snoc e es)
  let ?n = "length es"
  have e: "refused e" and IH: "run_steps q2d config es (Connect 0)
      = (Connect (int (?n mod 7)), map (\<lambda>i. WaitSeconds (backoff i)) [0..<?n])"
    using snoc by simp_all
  have "run_stream q2d config e (Connect (int (?n mod 7)))
      = (Connect (int (Suc ?n mod 7)), [WaitSeconds (backoff ?n)])"
  proof (cases "?n mod 7 = 6")
    case True
    then have "Suc ?n mod 7 = 0" by presburger
    with True e show ?thesis
      by (simp add: connect_step_def connect_failed_def refused_def backoff_def)
  next
    case False
    have "?n mod 7 < 7" by simp
    with False have lt: "?n mod 7 \<le> 5" by linarith
    then have "Suc ?n mod 7 = Suc (?n mod 7)" by (simp add: mod_Suc)
    with lt False e show ?thesis
      by (simp add: connect_step_def connect_failed_def refused_def backoff_def)
  qed
  with IH show ?case by (simp add: run_steps_append run_steps_Cons)
qed

lemma run_stream_silent:
  assumes "silent e"
  shows "run_stream q2d config e LoopHead = (Finished, [])"
    and "run_stream q2d config e (Connect r) = (Finished, [])"
    and "run_stream q2d config e Setup = (Finished, [CloseInput])"
    and "run_stream q2d config e (Read s) = (Flush s, [])"
    and "run_stream q2d config e (Flush s) =
      (LoopHead, flush_events (sink_contexts s) (events config) (flushed e) @ [CloseInput])"
  using assms
  by (simp_all add: silent_def connect_step_def setup_step_def read_step_def flush_step_def)

lemma flush_events_pull: "set (flush_events sinks evs pulls) \<subseteq> range PullFlushed"
  by (induction evs arbitrary: pulls) (fastforce split: option.splits prod.splits)+

lemma silent_runs:
  assumes "silent e1" and "silent e2" and "silent e3"
  defines "ends \<equiv> \<lambda>r. fst r = Finished \<and> set (snd r) \<subseteq> insert CloseInput (range PullFlushed)"
  shows "ends (run_steps q2d config [e1, e2, e3] LoopHead)"
    and "ends (run_steps q2d config [e1, e2, e3] (Connect r))"
    and "ends (run_steps q2d config [e1, e2, e3] Setup)"
    and "ends (run_steps q2d config [e1, e2, e3] (Read s))"
    and "ends (run_steps q2d config [e1, e2, e3] (Flush s))"
    and "ends (run_steps q2d config [e1, e2, e3] Finished)"
proof -
  note sil = run_stream_silent [OF assms(1)] run_stream_silent [OF assms(2)]
    run_stream_silent [OF assms(3)]
  note fl = subset_insertI2 [OF flush_events_pull]
  show "ends (run_steps q2d config [e1, e2, e3] LoopHead)"
    by (simp add: ends_def run_steps_Cons sil del: run_stream.simps(1))
  show "ends (run_steps q2d config [e1, e2, e3] (Connect r))"
    by (simp add: ends_def run_steps_Cons sil del: run_stream.simps(2))
  show "ends (run_steps q2d config [e1, e2, e3] Setup)"
    by (simp add: ends_def run_steps_Cons sil del: run_stream.simps(3))
  show "ends (run_steps q2d config [e1, e2, e3] (Read s))"
    by (simp add: ends_def run_steps_Cons sil fl del: run_stream.simps(1,4,5))
  show "ends (run_steps q2d config [e1, e2, e3] (Flush s))"
    by (simp add: ends_def run_steps_Cons sil fl del: run_stream.simps(1,5))
  show "ends (run_steps q2d config [e1, e2, e3] Finished)"
    by (simp add: ends_def run_steps_Cons)
qed

lemma read_step_not_finished [simp]: "fst (read_step config e s) \<noteq> Finished"
  by (simp add: read_step_def case_prod_beta split: sum.splits)









definition sample_calls :: stream_calls where
  "sample_calls =
     \<lparr>stop_requested = False, context_allocated = True, open_input = 0, find_stream_info = 0,
      find_best_stream = 0, decoder_found = True, codec_context = True, parameters_to_context = 0,
      codec_open = 0, video_stream = sample_stream, graph = sample_graph, read_frame = 0,
      packet_stream = 0, send_packet = 0, received = [],
      sink_time_base = (\<lambda>_. \<lparr>num = 1, den = 90000\<rparr>), flushed = (\<lambda>_. []), stop_after_flush = False\<rparr>"

definition sample_config :: StreamConfig where
  "sample_config =
     \<lparr>st_id = 7, url = ''rtsp://a'', target_fps = 5, wait_for_keyframe = False, enabled = True,
      processing = default_processing, events = []\<rparr>"

definition sample_raw :: AVFrame where
  "sample_raw =
     \<lparr>width = 2, height = 2, format = AV_PIX_FMT_YUV420P, pts = 1, linesize = [2, 1, 1],
      data = [[1, 2, 3, 4], [5], [6]], sample_aspect_ratio = \<lparr>num = 1, den = 1\<rparr>\<rparr>"

lemma sample_sinks:
  "setup_multi_output_filter_graph sample_q2d sample_graph sample_stream [sample_event ''a'' 5]
     = Some (True, [(''a'', 0)])"
proof -
  have "select_interval 30 (sample_event ''a'' 5) = Some 6"
    using select_interval_exact [of "sample_event ''a'' 5" 6] by (simp add: sample_event_def)
  then show ?thesis
    by (simp add: setup_multi_output_filter_graph_def filter_spec_def source_fps_def
        sample_graph_def sample_stream_def sample_q2d_def)
      (simp add: sample_event_def)
qed

section \<open>Properties\<close>

text \<open>
  while the camera refuses connections, the waits between the attempts are 1, 2, 4, 8, 16,
  32 and 30 seconds, over and over: the seventh failure (not the fifth, which the log calls the
  maximum) starts the long wait and the next cycle.
\<close>

theorem connect_backoff:
  assumes "list_all refused es"
  shows "run_steps q2d config es (Connect 0)
     = (Connect (int (length es mod 7)),
        map (\<lambda>i. WaitSeconds (if i mod 7 = 6 then 30 else 2 ^ (i mod 7))) [0..<length es])"
  using run_steps_refused [OF assms] by (simp add: backoff_def)

theorem connect_backoff_witness:
  "snd (run_steps sample_q2d sample_config (replicate 9 (sample_calls\<lparr>open_input := - 111\<rparr>)) (Connect 0))
     = map WaitSeconds [1, 2, 4, 8, 16, 32, 30, 1, 2]"
proof -
  have "list_all refused (replicate 9 (sample_calls\<lparr>open_input := - 111\<rparr>))"
    by (simp add: refused_def sample_calls_def list_all_iff)
  from connect_backoff [OF this] show ?thesis by (simp add: upt_rec)
qed

text \<open>
  every frame that the thread pushes carries the configuration of its stream and one of that
  stream's events, and no run of the function raises an exception: the sink of an event is
  always found.
\<close>

theorem pushed_frames_belong:
  "(\<nexists>x. fst (run_steps q2d config es LoopHead) = Terminated x)
   \<and> list_all (\<lambda>d. source_config d = config \<and> event_config d \<in> set (events config))
       (pushed (snd (run_steps q2d config es LoopHead)))"
proof -
  have "pc_inv config (fst (run_steps q2d config es LoopHead))" by (simp add: run_steps_inv)
  moreover have "list_all (belongs config) (pushed (snd (run_steps q2d config es LoopHead)))"
    by (simp add: run_steps_belongs)
  ultimately show ?thesis by (auto simp: belongs_def [abs_def])
qed

text \<open>
  C16: the thread holds at most one open input: over any run the inputs are opened and closed in
  turn, and an input is open exactly between a connection and the end of that iteration; a
  finished thread holds none.
\<close>

theorem inputs_opened_and_closed:
  "\<exists>n. input_ops (snd (run_steps q2d config es LoopHead))
     = concat (replicate n [OpenInput, CloseInput])
       @ (if has_input (fst (run_steps q2d config es LoopHead)) then [OpenInput] else [])"
  using run_steps_inputs [of config LoopHead 0 q2d es] by (simp add: opens_def)

text \<open>
  C17: once a stop is requested the function returns within three steps from any point it can
  have reached (short of undefined behaviour), without another connection, frame or wait.
\<close>

theorem stop_ends_stream_thread:
  assumes "fst (run_steps q2d config es LoopHead) = p" and "p \<noteq> Undefined"
    and "silent e1" and "silent e2" and "silent e3"
  shows "fst (run_steps q2d config [e1, e2, e3] p) = Finished
    \<and> set (snd (run_steps q2d config [e1, e2, e3] p)) \<subseteq> insert CloseInput (range PullFlushed)"
proof -
  have "pc_inv config p" using assms(1) by (auto simp: run_steps_inv)
  note ends = silent_runs [OF assms(3-5), of q2d config]
  show ?thesis
  proof (cases p)
    case LoopHead
    show ?thesis unfolding LoopHead by (rule ends(1))
  next
    case (Connect r)
    show ?thesis unfolding Connect by (rule ends(2))
  next
    case Setup
    show ?thesis unfolding Setup by (rule ends(3))
  next
    case (Read s)
    show ?thesis unfolding Read by (rule ends(4))
  next
    case (Flush s)
    show ?thesis unfolding Flush by (rule ends(5))
  next
    case Finished
    show ?thesis unfolding Finished by (rule ends(6))
  qed (use assms(2) \<open>pc_inv config p\<close> in simp_all)
qed

theorem stop_ends_stream_thread_witness:
  "fst (run_steps sample_q2d sample_config
      [sample_calls\<lparr>stop_requested := True, stop_after_flush := True\<rparr>,
       sample_calls\<lparr>stop_requested := True, stop_after_flush := True\<rparr>,
       sample_calls\<lparr>stop_requested := True, stop_after_flush := True\<rparr>]
      (Read \<lparr>video_index = 0, sink_contexts = []\<rparr>)) = Finished"
proof -
  have "fst (run_steps sample_q2d sample_config [sample_calls, sample_calls, sample_calls] LoopHead)
      = Read \<lparr>video_index = 0, sink_contexts = []\<rparr>"
    by (simp add: run_steps_Cons connect_step_def setup_step_def sample_calls_def sample_config_def
        sample_graph_def setup_multi_output_filter_graph_def filter_spec_def)
  moreover have sil: "silent (sample_calls\<lparr>stop_requested := True, stop_after_flush := True\<rparr>)"
    by (simp add: silent_def)
  ultimately show ?thesis
    by (intro stop_ends_stream_thread [OF _ _ sil sil sil, THEN conjunct1]) simp_all
qed



text \<open>
  C19: with pairwise distinct event names, the frames pushed for one decoded frame are, event by
  event, exactly those that the event's own sink delivers before its first error code, in order,
  each with the time base of that sink and the configuration of the stream and the event.
\<close>

theorem event_frames_routed:
  assumes "setup_multi_output_filter_graph q2d g vs (events config) = Some (True, sinks)"
    and "distinct (map ev_name (events config))"
  shows "push_events config tb sinks (events config) pulls =
     Inr (concat (map (\<lambda>i. map (\<lambda>(ret, f). \<lparr>frame = f, source_config = config,
                                        event_config = events config ! i, time_base = tb i\<rparr>)
                              (takeWhile (\<lambda>(ret, f). 0 \<le> ret) (pulls i))) [0..<length (events config)]))"
proof -
  have "map_of sinks (ev_name (events config ! j)) = Some (0 + j)" if j: "j < length (events config)" for j
  proof -
    have "ev_name (events config ! k) \<noteq> ev_name (events config ! j)"
      if "j < k" "k < length (events config)" for k
      using nth_eq_iff_index_eq [OF assms(2), of k j] that j by simp
    then show ?thesis using sinks_last [OF assms(1) j] by simp
  qed
  then show ?thesis
    using push_events_routed [of "events config" sinks 0]
    by (simp add: pull_frames_first output_frame_def o_def case_prod_unfold)
qed

theorem event_frames_routed_witness:
  "push_events (sample_config\<lparr>events := [sample_event ''a'' 5]\<rparr>) (\<lambda>_. \<lparr>num = 1, den = 25\<rparr>)
      [(''a'', 0)] [sample_event ''a'' 5] (\<lambda>_. [(0, sample_raw), (- 11, sample_raw)])
   = Inr [\<lparr>frame = sample_raw, source_config = sample_config\<lparr>events := [sample_event ''a'' 5]\<rparr>,
            event_config = sample_event ''a'' 5, time_base = \<lparr>num = 1, den = 25\<rparr>\<rparr>]"
proof -
  let ?c = "sample_config\<lparr>events := [sample_event ''a'' 5]\<rparr>"
  have "setup_multi_output_filter_graph sample_q2d sample_graph sample_stream (events ?c)
      = Some (True, [(''a'', 0)])"
    using sample_sinks by simp
  moreover have "distinct (map ev_name (events ?c))" by simp
  ultimately show ?thesis
    using event_frames_routed [of sample_q2d sample_graph sample_stream ?c "[(''a'', 0)]"
        "\<lambda>_. \<lparr>num = 1, den = 25\<rparr>" "\<lambda>_. [(0, sample_raw), (- 11, sample_raw)]"]
    by (simp del: push_events.simps)
qed

end
