(* ===== verification/Capture.thy ===== *)
theory Capture
  imports StreamRun StreamManager BatchContents
begin

text \<open>
  The stream threads under the stream manager, in front of the running pipeline: an update of the
  manager computes which threads to stop and to start and then does so one after the other,
  waiting for the end of each thread it stops, while the stream threads and the pipeline go on.
  The update holds \<open>manager_mutex_\<close>, so a second one waits for its end. Whether a thread's function
  has returned is its own state here; the flag \<open>th_running\<close> of the manager's entries is not used.
\<close>

section \<open>State and steps\<close>

text \<open>A stream thread: its key in the manager's map, where it is, and the frames still to push.\<close>

record live_thread =
  lt_key :: int
  lt_config :: StreamConfig
  lt_pc :: pc
  lt_outbox :: "DecodedFrame list"
  lt_stop :: bool

record capture =
  manager :: StreamIoManager
  live :: "live_thread list"
  todo :: "io_action list"
  pipe :: pipeline
  given :: "StreamConfig list"

definition capture_start ::
  "string \<Rightarrow> bool \<Rightarrow> nat \<Rightarrow> RedisConnection list \<Rightarrow> FrameSaver \<Rightarrow> 64 word \<Rightarrow> 64 word \<Rightarrow> capture" where
  "capture_start base dry n conns fs thr bthr =
     \<lparr>manager = new_manager, live = [], todo = [],
      pipe = pipeline_start base dry n conns fs thr bthr, given = []\<rparr>"

text \<open>
  One iteration of the thread function; the frames it produces are pushed one by one before the
  next. The stop token answers what the manager has requested.
\<close>

definition advance ::
  "(AVRational \<Rightarrow> double) \<Rightarrow> nat \<Rightarrow> stream_calls \<Rightarrow> capture \<Rightarrow> capture option" where
  "advance q2d i e c =
     (if i < length (live c) \<and> lt_outbox (live c ! i) = [] \<and> stop_requested e = lt_stop (live c ! i)
         \<and> (lt_stop (live c ! i) \<longrightarrow> stop_after_flush e)
      then (let t = live c ! i in
            case run_stream q2d (lt_config t) e (lt_pc t) of (p, fx) \<Rightarrow>
              Some (c\<lparr>live := (live c)[i := t\<lparr>lt_pc := p, lt_outbox := pushed fx\<rparr>]\<rparr>))
      else None)"

definition push_next :: "nat \<Rightarrow> int \<Rightarrow> capture \<Rightarrow> capture option" where
  "push_next i u c =
     (if i < length (live c)
      then (case lt_outbox (live c ! i) of
              [] \<Rightarrow> None
            | d # ds \<Rightarrow> Some (c\<lparr>live := (live c)[i := (live c ! i)\<lparr>lt_outbox := ds\<rparr>],
                               pipe := deliver u d (pipe c)\<rparr>))
      else None)"

definition begin_update :: "StreamConfig list \<Rightarrow> capture \<Rightarrow> capture option" where
  "begin_update cfgs c =
     (if todo c \<noteq> [] then None
      else (case update_streams cfgs (manager c) of
              Inl x \<Rightarrow> None
            | Inr (m, acts) \<Rightarrow> Some (c\<lparr>manager := m, todo := acts, given := given c @ cfgs\<rparr>)))"

definition begin_stop_all :: "capture \<Rightarrow> capture option" where
  "begin_stop_all c =
     (if todo c \<noteq> [] then None
      else (case stop_all (manager c) of (m, acts) \<Rightarrow> Some (c\<lparr>manager := m, todo := acts\<rparr>)))"

text \<open>
  Of two threads of a key the older one is stopped: the assignment to the map's entry starts the
  new thread first.
\<close>

definition first_of :: "int \<Rightarrow> live_thread list \<Rightarrow> nat" where
  "first_of k ts = length (takeWhile (\<lambda>t. lt_key t \<noteq> k) ts)"

definition request_stop :: "capture \<Rightarrow> capture option" where
  "request_stop c =
     (case todo c of
        StopThread k # acts \<Rightarrow>
          let i = first_of k (live c)
          in if i < length (live c)
             then Some (c\<lparr>live := (live c)[i := (live c ! i)\<lparr>lt_stop := True\<rparr>]\<rparr>) else None
      | _ \<Rightarrow> None)"

definition join_thread :: "capture \<Rightarrow> capture option" where
  "join_thread c =
     (case todo c of
        StopThread k # acts \<Rightarrow>
          let i = first_of k (live c)
          in if i < length (live c) \<and> lt_stop (live c ! i) \<and> lt_pc (live c ! i) = Finished
                \<and> lt_outbox (live c ! i) = []
             then Some (c\<lparr>live := take i (live c) @ drop (Suc i) (live c), todo := acts\<rparr>) else None
      | _ \<Rightarrow> None)"

definition start_thread :: "capture \<Rightarrow> capture option" where
  "start_thread c =
     (case todo c of
        StartThread cfg # acts \<Rightarrow>
          Some (c\<lparr>live := live c @ [\<lparr>lt_key = key_of cfg, lt_config = cfg, lt_pc = LoopHead,
                                    lt_outbox = [], lt_stop = False\<rparr>], todo := acts\<rparr>)
      | _ \<Rightarrow> None)"

text \<open>The other threads of the pipeline go on; only the stream threads deliver frames.\<close>

inductive capture_step :: "(AVRational \<Rightarrow> double) \<Rightarrow> capture \<Rightarrow> capture \<Rightarrow> bool" for q2d where
  Advance: "advance q2d i e c = Some c' \<Longrightarrow> capture_step q2d c c'"
| PushNext: "push_next i u c = Some c' \<Longrightarrow> capture_step q2d c c'"
| BeginUpdate: "begin_update cfgs c = Some c' \<Longrightarrow> capture_step q2d c c'"
| BeginStopAll: "begin_stop_all c = Some c' \<Longrightarrow> capture_step q2d c c'"
| RequestStop: "request_stop c = Some c' \<Longrightarrow> capture_step q2d c c'"
| JoinThread: "join_thread c = Some c' \<Longrightarrow> capture_step q2d c c'"
| StartThread: "start_thread c = Some c' \<Longrightarrow> capture_step q2d c c'"
| Elsewhere: "pipeline_step (pipe c) p \<Longrightarrow> accepted p = accepted (pipe c) \<Longrightarrow>
    capture_step q2d c (c\<lparr>pipe := p\<rparr>)"

inductive_cases capture_stepE: "capture_step q2d c c'"

section \<open>Threads and configurations\<close>

definition configured :: "StreamConfig list \<Rightarrow> DecodedFrame \<Rightarrow> bool" where
  "configured cfgs d \<longleftrightarrow> (\<exists>cfg \<in> set cfgs. enabled cfg \<and> belongs cfg d)"

definition thread_ok :: "StreamConfig list \<Rightarrow> live_thread \<Rightarrow> bool" where
  "thread_ok cfgs t \<longleftrightarrow> lt_config t \<in> set cfgs \<and> enabled (lt_config t)
     \<and> pc_inv (lt_config t) (lt_pc t) \<and> list_all (belongs (lt_config t)) (lt_outbox t)"

fun action_ok :: "StreamConfig list \<Rightarrow> io_action \<Rightarrow> bool" where
  "action_ok cfgs (StartThread cfg) \<longleftrightarrow> cfg \<in> set cfgs \<and> enabled cfg"
| "action_ok cfgs (StopThread k) \<longleftrightarrow> True"

text \<open>The keys and configurations of the threads when the actions of an update are done.\<close>

definition drop_first :: "int \<Rightarrow> (int \<times> 'a) list \<Rightarrow> (int \<times> 'a) list" where
  "drop_first k xs = takeWhile (\<lambda>x. fst x \<noteq> k) xs @ tl (dropWhile (\<lambda>x. fst x \<noteq> k) xs)"

fun perform :: "io_action \<Rightarrow> (int \<times> StreamConfig) list \<Rightarrow> (int \<times> StreamConfig) list" where
  "perform (StopThread k) xs = drop_first k xs"
| "perform (StartThread cfg) xs = xs @ [(key_of cfg, cfg)]"

definition serves :: "StreamIoManager \<Rightarrow> (int \<times> StreamConfig) list \<Rightarrow> bool" where
  "serves m xs \<longleftrightarrow> distinct (map fst xs) \<and> map_of xs = map_of (active_stream_configs m)"

definition serving_pairs :: "capture \<Rightarrow> (int \<times> StreamConfig) list" where
  "serving_pairs c = map (\<lambda>t. (lt_key t, lt_config t)) (live c)"

text \<open>A thread that an action stops is there when its turn comes.\<close>

fun doable :: "io_action list \<Rightarrow> (int \<times> StreamConfig) list \<Rightarrow> bool" where
  "doable [] xs \<longleftrightarrow> True"
| "doable (StopThread k # acts) xs \<longleftrightarrow> k \<in> fst ` set xs \<and> doable acts (drop_first k xs)"
| "doable (StartThread cfg # acts) xs \<longleftrightarrow> doable acts (xs @ [(key_of cfg, cfg)])"

definition capture_inv :: "capture \<Rightarrow> bool" where
  "capture_inv c \<longleftrightarrow> manager_inv (manager c) \<and> pipeline_inv (pipe c) \<and> contents_inv (pipe c)
     \<and> list_all (thread_ok (given c)) (live c) \<and> list_all (action_ok (given c)) (todo c)
     \<and> list_all (configured (given c)) (accepted (pipe c))
     \<and> serves (manager c) (fold perform (todo c) (serving_pairs c))
     \<and> doable (todo c) (serving_pairs c)"

lemma drop_first_append:
  "k \<notin> fst ` set xs \<Longrightarrow> drop_first k (xs @ (k, v) # ys) = xs @ ys"
  by (induction xs) (auto simp: drop_first_def)

lemma drop_first_absent: "k \<notin> fst ` set xs \<Longrightarrow> drop_first k xs = xs"
  by (induction xs) (auto simp: drop_first_def)

lemma drop_first_serves:
  assumes "distinct (map fst xs)"
  shows "distinct (map fst (drop_first k xs)) \<and> map_of (drop_first k xs) = (map_of xs)(k := None)"
proof (cases "k \<in> fst ` set xs")
  case True
  then obtain v ys zs where xs: "xs = ys @ (k, v) # zs" by (auto simp: in_set_conv_decomp)
  with assms have n: "k \<notin> fst ` set ys" "k \<notin> fst ` set zs" by auto
  have "map_of (ys @ zs) = (map_of xs)(k := None)"
    using n [folded map_of_eq_None_iff] by (intro ext) (auto simp: xs map_add_def split: option.splits)
  then show ?thesis using assms by (simp add: xs drop_first_append [OF n(1)])
next
  case False
  then have "map_of xs k = None" by (simp add: map_of_eq_None_iff)
  then have "(map_of xs)(k := None) = map_of xs" by auto
  with False assms show ?thesis by (simp add: drop_first_absent)
qed

text \<open>The actions that \<open>start_threads\<close> and \<open>update_streams\<close> return.\<close>

lemma start_serves:
  assumes "manager_inv m" and "serves m xs"
  shows "serves (fst (start_threads [cfg] m)) (fold perform (snd (start_threads [cfg] m)) xs)"
proof -
  let ?k = "key_of cfg"
  have d: "distinct (map fst xs)" "map_of xs = map_of (active_stream_configs m)"
    using assms(2) by (simp_all add: serves_def)
  have inv: "smap_inv (active_stream_configs m)" using assms(1) by (simp add: manager_inv_def)
  have new: "map_of (active_stream_configs (fst (start_threads [cfg] m))) = (map_of xs)(?k \<mapsto> cfg)"
    using smap_find_insert [OF inv] d(2) by (simp add: Let_def)
  have thread: "map_of (stream_threads m) ?k = None \<longleftrightarrow> ?k \<notin> fst ` set xs"
    using thread_None_iff [OF assms(1)] d(2) by (metis map_of_eq_None_iff)
  show ?thesis
  proof (cases "?k \<in> fst ` set xs")
    case True
    then obtain v ys zs where xs: "xs = ys @ (?k, v) # zs" by (auto simp: in_set_conv_decomp)
    with d(1) have n: "?k \<notin> fst ` set ys" "?k \<notin> fst ` set zs" by auto
    have "fold perform (snd (start_threads [cfg] m)) xs = drop_first ?k (ys @ (?k, v) # (zs @ [(?k, cfg)]))"
      using True thread by (simp add: Let_def xs)
    then have f: "fold perform (snd (start_threads [cfg] m)) xs = ys @ zs @ [(?k, cfg)]"
      using drop_first_append [OF n(1)] by simp
    have "map_of (ys @ zs @ [(?k, cfg)]) = (map_of xs)(?k \<mapsto> cfg)"
      using n [folded map_of_eq_None_iff] by (intro ext) (auto simp: xs map_add_def split: option.splits)
    with f new d(1) n show ?thesis by (simp add: serves_def xs)
  next
    case False
    then have f: "fold perform (snd (start_threads [cfg] m)) xs = xs @ [(?k, cfg)]"
      using thread by (simp add: Let_def)
    have "map_of (xs @ [(?k, cfg)]) = (map_of xs)(?k \<mapsto> cfg)"
      using False [folded map_of_eq_None_iff] by (intro ext) (auto simp: map_add_def split: option.splits)
    with f new d(1) False show ?thesis by (simp add: serves_def)
  qed
qed

lemma starts_serve:
  "manager_inv m \<Longrightarrow> serves m xs \<Longrightarrow> \<forall>cfg \<in> set cfgs. enabled cfg \<Longrightarrow>
   serves (fst (start_threads cfgs m)) (fold perform (snd (start_threads cfgs m)) xs)"
proof (induction cfgs arbitrary: m xs)
  case (Cons cfg cfgs)
  let ?m = "fst (start_threads [cfg] m)" and ?xs = "fold perform (snd (start_threads [cfg] m)) xs"
  have "start_threads (cfg # cfgs) m = (fst (start_threads cfgs ?m),
      snd (start_threads [cfg] m) @ snd (start_threads cfgs ?m))"
    by (simp add: Let_def split_beta)
  moreover have "manager_inv ?m" using start_threads_inv [OF Cons.prems(1), of "[cfg]"] Cons.prems(3) by simp
  ultimately show ?case
    using Cons.IH [of ?m ?xs] start_serves [OF Cons.prems(1,2)] Cons.prems(3) by simp
qed simp

lemma stops_serve:
  assumes "serves m xs" and "manager_inv m"
  shows "serves (stopped_streams ks m) (fold perform (map StopThread ks) xs)"
  using assms
proof (induction ks arbitrary: m xs)
  case (Cons k ks)
  have "serves (stopped_streams [k] m) (drop_first k xs)"
    using Cons.prems(1) drop_first_serves [of xs k] by (auto simp: serves_def stopped_streams_def smap_find_erase)
  moreover have "stopped_streams (k # ks) m = stopped_streams ks (stopped_streams [k] m)"
    by (simp add: stopped_streams_def)
  ultimately show ?case using Cons.IH stopped_inv [OF Cons.prems(2)] by simp
qed (simp add: stopped_streams_def)

lemma update_serves:
  assumes "manager_inv m" and "serves m xs" and "update_streams cfgs m = Inr (m', acts)"
  shows "serves m' (fold perform acts xs)"
proof -
  let ?ks = "keys_to_stop (desired_configs cfgs) m" and ?cs = "collect_start (desired_configs cfgs) (stream_threads m)"
  have r: "m' = fst (start_threads ?cs (stopped_streams ?ks m))"
    "acts = map StopThread ?ks @ snd (start_threads ?cs (stopped_streams ?ks m))"
    using assms(3) by (simp_all add: update_streams_closed [OF assms(1)] Let_def)
  show ?thesis
    using starts_serve [OF stopped_inv [OF assms(1)] stops_serve [OF assms(2,1)] collect_start_enabled]
    by (simp add: r)
qed

lemma doable_append: "doable (as @ bs) xs \<longleftrightarrow> doable as xs \<and> doable bs (fold perform as xs)"
  by (induction as xs rule: doable.induct) auto

lemma drop_first_keys:
  assumes "distinct (map fst xs)"
  shows "fst ` set (drop_first k xs) = fst ` set xs - {k}"
proof -
  have "dom (map_of (drop_first k xs)) = dom (map_of xs) - {k}" using drop_first_serves [OF assms] by auto
  then show ?thesis by (simp add: dom_map_of_conv_image_fst)
qed

lemma stops_doable:
  "distinct ks \<Longrightarrow> set ks \<subseteq> fst ` set xs \<Longrightarrow> distinct (map fst xs) \<Longrightarrow> doable (map StopThread ks) xs"
proof (induction ks arbitrary: xs)
  case (Cons k ks)
  have "set ks \<subseteq> fst ` set (drop_first k xs)"
    using Cons.prems drop_first_keys [OF Cons.prems(3), of k] by auto
  then show ?case using Cons drop_first_serves [OF Cons.prems(3), of k] by simp
qed simp

lemma starts_doable: "doable (snd (start_threads cfgs m)) xs"
  by (induction cfgs arbitrary: m xs) (auto simp: Let_def split_beta)

lemma serves_keys: "manager_inv m \<Longrightarrow> serves m xs \<Longrightarrow> fst ` set xs = fst ` set (stream_threads m)"
  using thread_None_iff [of m] unfolding serves_def
  by (metis dom_map_of_conv_image_fst domIff set_eqI)

lemma update_doable:
  assumes "manager_inv m" and "serves m xs" and "update_streams cfgs m = Inr (m', acts)"
  shows "doable acts xs"
proof -
  let ?ks = "keys_to_stop (desired_configs cfgs) m" and ?cs = "collect_start (desired_configs cfgs) (stream_threads m)"
  have "distinct (map fst (stream_threads m))" using assms(1) smap_inv_distinct by (auto simp: manager_inv_def)
  then have "distinct ?ks" "set ?ks \<subseteq> fst ` set xs"
    using serves_keys [OF assms(1,2)] unfolding keys_to_stop_def by (blast intro: distinct_filter, auto)
  then have "doable (map StopThread ?ks) xs" using assms(2) by (intro stops_doable) (simp_all add: serves_def)
  moreover have "acts = map StopThread ?ks @ snd (start_threads ?cs (stopped_streams ?ks m))"
    using assms(3) by (simp add: update_streams_closed [OF assms(1)] Let_def)
  ultimately show ?thesis by (simp add: doable_append starts_doable)
qed

section \<open>The invariant\<close>

lemma capture_inv_start: "capture_inv (capture_start base dry n conns fs thr bthr)"
proof -
  have "contents_inv (pipeline_start base dry n conns fs thr bthr)"
    by (simp add: contents_inv_def pipeline_start_def empty_batcher_def)
  moreover have "accepted (pipeline_start base dry n conns fs thr bthr) = []" by (simp add: pipeline_start_def)
  ultimately show ?thesis
    by (simp add: capture_inv_def capture_start_def pipeline_inv_start serves_def serving_pairs_def new_manager_def)
      (simp flip: new_manager_def)
qed

lemma thread_ok_mono: "thread_ok cfgs t \<Longrightarrow> thread_ok (cfgs @ ds) t"
  by (simp add: thread_ok_def)

lemma configured_mono: "configured cfgs d \<Longrightarrow> configured (cfgs @ cs) d"
  by (auto simp: configured_def)

lemma list_all_update: "list_all P xs \<Longrightarrow> P x \<Longrightarrow> list_all P (xs[i := x])"
  by (auto simp: list_all_iff dest: in_set_takeD set_update_subset_insert [THEN subsetD])

lemma list_all_nth: "list_all P xs \<Longrightarrow> i < length xs \<Longrightarrow> P (xs ! i)"
  by (simp add: list_all_length)

lemma same_pairs:
  assumes "i < length (live c)" and "lt_key t = lt_key (live c ! i)" and "lt_config t = lt_config (live c ! i)"
  shows "map (\<lambda>t. (lt_key t, lt_config t)) ((live c)[i := t]) = serving_pairs c"
proof -
  have "(map (\<lambda>t. (lt_key t, lt_config t)) (live c)) ! i = (lt_key t, lt_config t)" using assms by simp
  then show ?thesis unfolding serving_pairs_def map_update by (metis list_update_id)
qed

text \<open>A thread changes and keeps its configuration.\<close>

lemma live_inv:
  assumes "capture_inv c" and "i < length (live c)" and "thread_ok (given c) t"
    and "lt_key t = lt_key (live c ! i)" and "lt_config t = lt_config (live c ! i)"
  shows "capture_inv (c\<lparr>live := (live c)[i := t]\<rparr>)"
proof -
  have "list_all (thread_ok (given c)) (live c)" using assms(1) by (simp add: capture_inv_def)
  then have "list_all (thread_ok (given c)) ((live c)[i := t])" using assms(3) by (rule list_all_update)
  moreover have "serving_pairs (c\<lparr>live := (live c)[i := t]\<rparr>) = serving_pairs c"
    using same_pairs [of i c t] assms(2,4,5) by (simp add: serving_pairs_def)
  ultimately show ?thesis using assms(1) by (simp add: capture_inv_def)
qed

lemma thread_ok_nth: "capture_inv c \<Longrightarrow> i < length (live c) \<Longrightarrow> thread_ok (given c) (live c ! i)"
  using list_all_nth unfolding capture_inv_def by blast

lemma advance_inv:
  assumes "capture_inv c" and "advance q2d i e c = Some c'"
  shows "capture_inv c'"
proof -
  let ?t = "live c ! i"
  obtain p fx where i: "i < length (live c)"
    and r: "run_stream q2d (lt_config ?t) e (lt_pc ?t) = (p, fx)"
    and c': "c' = c\<lparr>live := (live c)[i := ?t\<lparr>lt_pc := p, lt_outbox := pushed fx\<rparr>]\<rparr>"
    using assms(2) by (auto simp: advance_def Let_def split: if_splits prod.splits)
  have "pc_inv (lt_config ?t) (lt_pc ?t)" using thread_ok_nth [OF assms(1) i] by (simp add: thread_ok_def)
  from run_stream_inv [OF this, of q2d e] run_stream_belongs [OF this, of q2d e]
  have "thread_ok (given c) (?t\<lparr>lt_pc := p, lt_outbox := pushed fx\<rparr>)"
    using thread_ok_nth [OF assms(1) i] by (simp add: r thread_ok_def)
  from live_inv [OF assms(1) i this] show ?thesis by (simp add: c')
qed

lemma deliver_capture_inv:
  assumes "capture_inv c" and "configured (given c) d"
  shows "capture_inv (c\<lparr>pipe := deliver u d (pipe c)\<rparr>)"
proof -
  have "contents_inv (deliver u d (pipe c))" "pipeline_inv (deliver u d (pipe c))"
    using assms(1) contents_unchanged [of "pipe c" "deliver u d (pipe c)"] deliver_inv [of "pipe c"]
    by (simp_all add: capture_inv_def deliver_def)
  moreover have "list_all (configured (given c)) (accepted (deliver u d (pipe c)))"
    using assms by (simp add: capture_inv_def deliver_def)
  ultimately show ?thesis using assms(1) by (simp add: capture_inv_def serving_pairs_def)
qed

lemma push_next_inv:
  assumes "capture_inv c" and "push_next i u c = Some c'"
  shows "capture_inv c'"
proof -
  obtain d ds where i: "i < length (live c)" and o: "lt_outbox (live c ! i) = d # ds"
    and c': "c' = c\<lparr>live := (live c)[i := (live c ! i)\<lparr>lt_outbox := ds\<rparr>], pipe := deliver u d (pipe c)\<rparr>"
    using assms(2) by (auto simp: push_next_def split: if_splits list.splits)
  have "thread_ok (given c) ((live c ! i)\<lparr>lt_outbox := ds\<rparr>)" "configured (given c) d"
    using thread_ok_nth [OF assms(1) i] o by (auto simp: thread_ok_def configured_def)
  from live_inv [OF assms(1) i this(1)] this(2) show ?thesis
    using deliver_capture_inv [of "c\<lparr>live := (live c)[i := (live c ! i)\<lparr>lt_outbox := ds\<rparr>]\<rparr>" d u]
    by (simp add: c')
qed

lemma update_actions_ok:
  assumes "manager_inv m" and "update_streams cfgs m = Inr (m', acts)"
  shows "list_all (action_ok cfgs) acts"
proof -
  let ?ks = "keys_to_stop (desired_configs cfgs) m" and ?cs = "collect_start (desired_configs cfgs) (stream_threads m)"
  have "list_all (action_ok cfgs) (snd (start_threads cs m))"
    if "\<forall>c \<in> set cs. enabled c \<and> c \<in> set cfgs" for cs m
    using that by (induction cs arbitrary: m) (auto simp: Let_def split_beta)
  moreover have "\<forall>c \<in> set ?cs. enabled c \<and> c \<in> set cfgs"
    using desired_configs_inv [of cfgs] smap_in_find [OF smap_inv_desired, of _ _ cfgs]
    by (auto simp: collect_start_set)
  ultimately show ?thesis
    using assms(2) by (auto simp: update_streams_closed [OF assms(1)] Let_def list_all_iff)
qed

lemma action_ok_mono: "action_ok cfgs a \<Longrightarrow> action_ok (ds @ cfgs) a"
  by (cases a) simp_all

lemma begin_update_inv:
  assumes "capture_inv c" and "begin_update cfgs c = Some c'"
  shows "capture_inv c'"
proof -
  obtain m acts where u: "todo c = []" "update_streams cfgs (manager c) = Inr (m, acts)"
    and c': "c' = c\<lparr>manager := m, todo := acts, given := given c @ cfgs\<rparr>"
    using assms(2) by (auto simp: begin_update_def split: if_splits sum.splits)
  have inv: "manager_inv (manager c)" "serves (manager c) (serving_pairs c)"
    using assms(1) u(1) by (simp_all add: capture_inv_def)
  have "serves m (fold perform acts (serving_pairs c))" by (rule update_serves [OF inv u(2)])
  moreover have "doable acts (serving_pairs c)" by (rule update_doable [OF inv u(2)])
  moreover have "list_all (action_ok (given c @ cfgs)) acts"
    using update_actions_ok [OF inv(1) u(2)] action_ok_mono by (auto simp: list_all_iff)
  moreover have "list_all (thread_ok (given c @ cfgs)) (live c)"
      "list_all (configured (given c @ cfgs)) (accepted (pipe c))"
    using assms(1) thread_ok_mono configured_mono by (auto simp: capture_inv_def list_all_iff)
  ultimately show ?thesis
    using assms(1) update_streams_inv [OF inv(1) u(2)] by (simp add: capture_inv_def c' serving_pairs_def)
qed

lemma stop_all_serves:
  assumes "manager_inv m" and "serves m xs"
  shows "serves (fst (stop_all m)) (fold perform (snd (stop_all m)) xs)"
proof (cases "stream_threads m = []")
  case False
  let ?ks = "map fst (stream_threads m)"
  have acts: "snd (stop_all m) = map StopThread ?ks" "active_stream_configs (fst (stop_all m)) = []"
    using False by (auto simp: stop_all_def)
  have "map_of (active_stream_configs (stopped_streams ?ks m)) k = None" for k
  proof (cases "k \<in> set ?ks")
    case True
    then show ?thesis using map_of_stopped(1) [OF assms(1), of ?ks] by simp
  next
    case False
    then have "map_of (stream_threads m) k = None" by (simp add: map_of_eq_None_iff)
    then show ?thesis
      using map_of_stopped(1) [OF assms(1), of ?ks] thread_None_iff [OF assms(1), of k] by simp
  qed
  then have "map_of (active_stream_configs (stopped_streams ?ks m)) = Map.empty" by blast
  with stops_serve [OF assms(2,1), of ?ks] show ?thesis unfolding acts serves_def by simp
qed (use assms(2) in \<open>simp add: stop_all_def\<close>)

lemma stop_all_doable:
  assumes "manager_inv m" and "serves m xs"
  shows "doable (snd (stop_all m)) xs"
proof -
  have "distinct (map fst (stream_threads m))" using assms(1) smap_inv_distinct by (auto simp: manager_inv_def)
  then have "doable (map StopThread (map fst (stream_threads m))) xs"
    using assms(2) serves_keys [OF assms] by (intro stops_doable) (simp_all add: serves_def)
  moreover have "snd (stop_all m) = map StopThread (map fst (stream_threads m))" by (auto simp: stop_all_def)
  ultimately show ?thesis by simp
qed

lemma begin_stop_all_inv:
  assumes "capture_inv c" and "begin_stop_all c = Some c'"
  shows "capture_inv c'"
proof -
  have c': "todo c = []" "c' = c\<lparr>manager := fst (stop_all (manager c)), todo := snd (stop_all (manager c))\<rparr>"
    using assms(2) by (auto simp: begin_stop_all_def split: if_splits prod.splits)
  have inv: "manager_inv (manager c)" "serves (manager c) (serving_pairs c)"
    using assms(1) c'(1) by (simp_all add: capture_inv_def)
  have "list_all (action_ok cfgs) (snd (stop_all m))" for cfgs m
    by (simp add: stop_all_def list_all_iff split_beta)
  then show ?thesis
    using assms(1) c'(2) stop_all_serves [OF inv] stop_all_doable [OF inv] stop_all_inv [OF inv(1)]
    by (simp add: capture_inv_def serving_pairs_def)
qed

text \<open>The thread that is stopped and joined is the one whose entry \<open>perform\<close> takes out.\<close>

lemma first_of_split:
  assumes "first_of k ts < length ts"
  shows "\<exists>us t vs. ts = us @ t # vs \<and> first_of k ts = length us \<and> lt_key t = k \<and> (\<forall>u \<in> set us. lt_key u \<noteq> k)"
proof -
  let ?P = "\<lambda>t. lt_key t \<noteq> k"
  obtain t vs where d: "dropWhile ?P ts = t # vs"
    using assms takeWhile_dropWhile_id [of ?P ts] unfolding first_of_def
    by (metis append_Nil2 neq_Nil_conv less_irrefl)
  then have "\<not> ?P t" using hd_dropWhile [of ?P ts] by simp
  moreover have "ts = takeWhile ?P ts @ t # vs" using takeWhile_dropWhile_id [of ?P ts] d by simp
  moreover have "\<forall>u \<in> set (takeWhile ?P ts). ?P u" using set_takeWhileD by fastforce
  ultimately show ?thesis unfolding first_of_def by blast
qed

lemma request_stop_inv:
  assumes "capture_inv c" and "request_stop c = Some c'"
  shows "capture_inv c'"
proof -
  obtain i where i: "i < length (live c)" "c' = c\<lparr>live := (live c)[i := (live c ! i)\<lparr>lt_stop := True\<rparr>]\<rparr>"
    using assms(2) by (auto simp: request_stop_def Let_def split: list.splits io_action.splits if_splits)
  have "thread_ok (given c) ((live c ! i)\<lparr>lt_stop := True\<rparr>)"
    using thread_ok_nth [OF assms(1) i(1)] by (simp add: thread_ok_def)
  from live_inv [OF assms(1) i(1) this] show ?thesis by (simp add: i(2))
qed

lemma join_thread_inv:
  assumes "capture_inv c" and "join_thread c = Some c'"
  shows "capture_inv c'"
proof -
  obtain k acts where k: "todo c = StopThread k # acts" "first_of k (live c) < length (live c)"
    and c': "c' = c\<lparr>live := take (first_of k (live c)) (live c) @ drop (Suc (first_of k (live c))) (live c),
                    todo := acts\<rparr>"
    using assms(2) by (auto simp: join_thread_def Let_def split: list.splits io_action.splits if_splits)
  obtain us t vs where s: "live c = us @ t # vs" "first_of k (live c) = length us" "lt_key t = k"
      "\<forall>u \<in> set us. lt_key u \<noteq> k"
    using first_of_split [OF k(2)] by blast
  have l: "live c' = us @ vs" using s by (simp add: c')
  have "k \<notin> fst ` set (map (\<lambda>t. (lt_key t, lt_config t)) us)" using s(4) by auto
  from drop_first_append [OF this] have "drop_first k (serving_pairs c) = serving_pairs c'"
    by (simp add: serving_pairs_def l s(1,3))
  with assms(1) show ?thesis using s(1) l by (simp add: capture_inv_def k(1) c')
qed

lemma start_thread_inv:
  assumes "capture_inv c" and "start_thread c = Some c'"
  shows "capture_inv c'"
  using assms by (auto simp: start_thread_def capture_inv_def thread_ok_def serving_pairs_def
      split: list.splits io_action.splits)

lemma elsewhere_inv:
  assumes "capture_inv c" and "pipeline_step (pipe c) p" and "accepted p = accepted (pipe c)"
  shows "capture_inv (c\<lparr>pipe := p\<rparr>)"
  using assms contents_step [OF assms(2)] pipeline_ts.inv_step [OF assms(2)]
  by (simp add: capture_inv_def serving_pairs_def)

interpretation capture_ts: transition_system
  "\<lambda>c. \<exists>base dry n conns fs thr bthr. c = capture_start base dry n conns fs thr bthr" "capture_step q2d"
  capture_inv for q2d
  by unfold_locales
    (auto elim!: capture_stepE intro: capture_inv_start advance_inv push_next_inv begin_update_inv
      begin_stop_all_inv request_stop_inv join_thread_inv start_thread_inv elsewhere_inv)

lemma reachable_capture:
  "(capture_step q2d)\<^sup>*\<^sup>* (capture_start base dry n conns fs thr bthr) c \<Longrightarrow> capture_inv c"
  using capture_ts.inv_reachable by blast

section \<open>What the pipeline handles\<close>

text \<open>The stream and event of a batch are those of an accepted frame.\<close>

lemma batch_of_accepted:
  assumes "pipeline_inv p" and "contents_inv p" and "fb \<in> set (batched p)"
  shows "\<exists>d \<in> set (accepted p). batch_key d = key_of_batch fb"
proof -
  have w: "worker_inv p" using assms(1) by (simp add: pipeline_inv_def)
  have "holds_frames (consumed p) fb" using assms(2,3) by (simp add: contents_inv_def)
  then obtain f where "f \<in> set (key_frames (key_of_batch fb) (consumed p))"
    unfolding holds_frames_def by (metis list.set_intros(1) neq_Nil_conv subset_iff)
  then obtain d where d: "d \<in> set (consumed p)" "batch_key d = key_of_batch fb"
    by (auto simp: key_frames_def)
  then have "d \<in># mset (concat (map snd (results p)))" using w by (simp add: worker_inv_def)
  then obtain a outs where r: "(a, outs) \<in> set (results p)" "d \<in> set outs" by auto
  then have "a \<in># mset (map fst (results p))" by force
  then have "a \<in># mset (accepted p)" using w by (simp add: worker_inv_def)
  moreover have "batch_key d = batch_key a" using w r by (fastforce simp: worker_inv_def list_all_iff)
  ultimately show ?thesis using d(2) by auto
qed

lemma published_batches:
  assumes "sending_inv p" and "cmd \<in> set (published p)"
  shows "\<exists>fb \<in> set (batched p). cmd = command_of (queue_base p) fb"
proof -
  have "cmd \<in># mset (map (command_of (queue_base p)) (batched p))"
    using assms unfolding sending_inv_def by (metis in_multiset_in_set union_iff)
  then show ?thesis by auto
qed

definition configured_key :: "StreamConfig list \<Rightarrow> int \<times> string \<Rightarrow> bool" where
  "configured_key cfgs k \<longleftrightarrow>
     (\<exists>cfg \<in> set cfgs. enabled cfg \<and> st_id cfg = fst k \<and> snd k \<in> ev_name ` set (events cfg))"

lemma configured_batch_key: "configured cfgs d \<Longrightarrow> configured_key cfgs (batch_key d)"
  unfolding configured_def configured_key_def belongs_def batch_key_def by auto

section \<open>Schedules\<close>

datatype capture_op =
  DoAdvance nat stream_calls | DoPush nat int | DoUpdate "StreamConfig list" | DoStopAll
| DoRequest | DoJoin | DoStart | DoPipeline schedule_op

fun perform_op :: "(AVRational \<Rightarrow> double) \<Rightarrow> capture_op \<Rightarrow> capture \<Rightarrow> capture option" where
  "perform_op q2d (DoAdvance i e) c = advance q2d i e c"
| "perform_op q2d (DoPush i u) c = push_next i u c"
| "perform_op q2d (DoUpdate cfgs) c = begin_update cfgs c"
| "perform_op q2d DoStopAll c = begin_stop_all c"
| "perform_op q2d DoRequest c = request_stop c"
| "perform_op q2d DoJoin c = join_thread c"
| "perform_op q2d DoStart c = start_thread c"
| "perform_op q2d (DoPipeline a) c =
     (case schedule_step a (pipe c) of
        None \<Rightarrow> None
      | Some p \<Rightarrow> if accepted p = accepted (pipe c) then Some (c\<lparr>pipe := p\<rparr>) else None)"

fun run_capture :: "(AVRational \<Rightarrow> double) \<Rightarrow> capture_op list \<Rightarrow> capture \<Rightarrow> capture option" where
  "run_capture q2d [] c = Some c"
| "run_capture q2d (a # as) c = Option.bind (perform_op q2d a c) (run_capture q2d as)"

lemma run_capture_sound: "run_capture q2d as c = Some c' \<Longrightarrow> (capture_step q2d)\<^sup>*\<^sup>* c c'"
proof (induction as arbitrary: c)
  case (Cons a as)
  then obtain c1 where c1: "perform_op q2d a c = Some c1" "run_capture q2d as c1 = Some c'"
    by (auto simp: bind_eq_Some_conv)
  have "capture_step q2d c c1"
    using c1(1) by (cases a) (auto intro: capture_step.intros schedule_step_sound split: option.splits if_splits)
  with Cons.IH [OF c1(2)] show ?case by (blast intro: converse_rtranclp_into_rtranclp)
qed simp

text \<open>A camera is configured, its thread connects, and its first frame is accepted.\<close>

definition watched :: StreamConfig where
  "watched = sample_config\<lparr>events := [sample_event ''a'' 5]\<rparr>"

definition idle_capture :: capture where
  "idle_capture = capture_start ''fp'' False 1 [] sample_saver 9 9"

definition first_frame :: "capture_op list" where
  "first_frame =
     [DoUpdate [watched], DoStart, DoAdvance 0 StreamRun.sample_calls, DoAdvance 0 StreamRun.sample_calls,
      DoAdvance 0 StreamRun.sample_calls,
      DoAdvance 0 (StreamRun.sample_calls\<lparr>received := [Received sample_raw 0 (\<lambda>_. [(0, sample_raw)])]\<rparr>), DoPush 0 0]"

lemma watched_fields [simp]:
  "st_id watched = 7" "enabled watched" "events watched = [sample_event ''a'' 5]"
  "ev_name (sample_event ''a'' 5) = ''a''"
  by (simp_all add: watched_def sample_config_def sample_event_def)

lemma watch_update:
  "update_streams [watched] new_manager =
     Inr (\<lparr>stream_threads = [(7, \<lparr>th_config = watched, th_running = True\<rparr>)],
           active_stream_configs = [(7, watched)]\<rparr>, [StartThread watched])"
proof -
  have "narrow 32 7 = (7 :: int)" by code_simp
  then show ?thesis
    by (simp add: update_streams_def desired_configs_def new_manager_def collect_start_def Let_def)
qed

lemma first_frame_run:
  "\<exists>c. run_capture sample_q2d first_frame idle_capture = Some c \<and> todo c = []
     \<and> map frame (accepted (pipe c)) = [sample_raw]"
  by (simp add: first_frame_def idle_capture_def capture_start_def begin_update_def watch_update start_thread_def
      advance_def connect_step_def setup_step_def read_step_def StreamRun.sample_calls_def sample_sinks rbind_def
      output_frame_def push_next_def deliver_def pipeline_start_def fifo_new_def Let_def)

section \<open>Properties\<close>

text \<open>
  C5: nothing that was not configured is processed: with any updates and stops of the manager, any
  answers of the cameras and any interleaving of all threads, in every reachable state each
  accepted frame carries an enabled stream configuration that was given to the manager and one of
  its events, and each batch, and each command published to Redis, is of the id of such a
  configuration and the name of one of its events.
\<close>

theorem published_belongs:
  assumes "(capture_step q2d)\<^sup>*\<^sup>* (capture_start base dry n conns fs thr bthr) c"
  shows "(\<forall>d \<in> set (accepted (pipe c)). \<exists>cfg \<in> set (given c).
        enabled cfg \<and> source_config d = cfg \<and> event_config d \<in> set (events cfg))
    \<and> (\<forall>fb \<in> set (batched (pipe c)). configured_key (given c) (key_of_batch fb))
    \<and> (\<forall>(key, field, payload) \<in> set (published (pipe c)). \<exists>k. key = redis_key (queue_base (pipe c)) k
        \<and> configured_key (given c) (k, field))"
proof -
  have inv: "capture_inv c" by (rule reachable_capture [OF assms])
  then have p: "pipeline_inv (pipe c)" "contents_inv (pipe c)" "sending_inv (pipe c)"
    by (simp_all add: capture_inv_def pipeline_inv_def)
  have acc: "\<forall>d \<in> set (accepted (pipe c)). configured (given c) d"
    using inv by (simp add: capture_inv_def list_all_iff)
  have fbs: "\<forall>fb \<in> set (batched (pipe c)). configured_key (given c) (key_of_batch fb)"
    using batch_of_accepted [OF p(1,2)] acc configured_batch_key by metis
  then have "\<forall>cmd \<in> set (published (pipe c)). \<exists>k. fst cmd = redis_key (queue_base (pipe c)) k
      \<and> configured_key (given c) (k, fst (snd cmd))"
    using published_batches [OF p(3)] by (fastforce simp: command_of_def)
  with acc fbs show ?thesis unfolding configured_def belongs_def by fastforce
qed

theorem published_belongs_witness:
  "\<exists>c. run_capture sample_q2d first_frame idle_capture = Some c
     \<and> map frame (accepted (pipe c)) = [sample_raw]
     \<and> (\<forall>d \<in> set (accepted (pipe c)). source_config d \<in> set (given c))"
proof -
  obtain c where c: "run_capture sample_q2d first_frame idle_capture = Some c"
      "map frame (accepted (pipe c)) = [sample_raw]"
    using first_frame_run by (elim exE conjE)
  from published_belongs [OF run_capture_sound [OF c(1), unfolded idle_capture_def]] c
  show ?thesis by (intro exI [of _ c]) auto
qed

text \<open>
  C6: the threads are those the manager has on record: in every reachable state in which no update
  is in progress there is exactly one thread for every active configuration and none besides, and
  a frame that is accepted then belongs to an active configuration: when the update that removes
  or changes a stream is done, no frame of the old configuration is accepted any more.
\<close>

theorem threads_match_manager:
  assumes "(capture_step q2d)\<^sup>*\<^sup>* (capture_start base dry n conns fs thr bthr) c" and "todo c = []"
  shows "distinct (map lt_key (live c))
    \<and> map_of (map (\<lambda>t. (lt_key t, lt_config t)) (live c)) = map_of (active_stream_configs (manager c))
    \<and> (\<forall>c' d. capture_step q2d c c' \<longrightarrow> accepted (pipe c') = accepted (pipe c) @ [d] \<longrightarrow>
          (\<exists>cfg. map_of (active_stream_configs (manager c)) (key_of cfg) = Some cfg
             \<and> source_config d = cfg \<and> event_config d \<in> set (events cfg)))"
proof -
  have inv: "capture_inv c" by (rule reachable_capture [OF assms(1)])
  then have "serves (manager c) (serving_pairs c)" using assms(2) by (simp add: capture_inv_def)
  then have s: "distinct (map lt_key (live c))"
      "map_of (map (\<lambda>t. (lt_key t, lt_config t)) (live c)) = map_of (active_stream_configs (manager c))"
    by (simp_all add: serves_def serving_pairs_def o_def)
  have "\<exists>cfg. map_of (active_stream_configs (manager c)) (key_of cfg) = Some cfg \<and> belongs cfg d"
    if i: "i < length (live c)" "lt_outbox (live c ! i) = d # ds" for i d ds
  proof -
    have "(lt_key (live c ! i), lt_config (live c ! i)) \<in> set (map (\<lambda>t. (lt_key t, lt_config t)) (live c))"
      using i(1) by simp
    then have "map_of (active_stream_configs (manager c)) (lt_key (live c ! i)) = Some (lt_config (live c ! i))"
      using s by (metis (no_types, lifting) map_of_eq_Some_iff map_map o_def fst_conv map_eq_conv)
    moreover from this have "key_of (lt_config (live c ! i)) = lt_key (live c ! i)"
      using inv by (simp add: capture_inv_def manager_inv_def)
    moreover have "belongs (lt_config (live c ! i)) d"
      using thread_ok_nth [OF inv i(1)] i(2) by (simp add: thread_ok_def)
    ultimately show ?thesis by metis
  qed
  moreover have "\<exists>i ds. i < length (live c) \<and> lt_outbox (live c ! i) = d # ds"
    if "capture_step q2d c c'" "accepted (pipe c') = accepted (pipe c) @ [d]" for c' d
    using that by (auto elim!: capture_stepE simp: advance_def push_next_def begin_update_def begin_stop_all_def
        request_stop_def join_thread_def start_thread_def deliver_def Let_def
        split: if_splits list.splits sum.splits prod.splits io_action.splits) blast
  ultimately show ?thesis using s unfolding belongs_def by blast
qed

theorem threads_match_manager_witness:
  "\<exists>c. run_capture sample_q2d first_frame idle_capture = Some c
     \<and> map_of (map (\<lambda>t. (lt_key t, lt_config t)) (live c)) = map_of (active_stream_configs (manager c))"
proof -
  obtain c where c: "run_capture sample_q2d first_frame idle_capture = Some c" "todo c = []"
    using first_frame_run by (elim exE conjE)
  from threads_match_manager [OF run_capture_sound [OF c(1), unfolded idle_capture_def] c(2)] c
  show ?thesis by blast
qed

end
