(* ===== verification/CaptureUpdate.thy ===== *)
theory CaptureUpdate
  imports Capture
begin

text \<open>
  The end of an update of the stream manager: the thread that it stops ends after boundedly many
  of its own steps, whatever the other threads do, so that the join returns, and the whole update
  can be worked off. The stopped thread is an instance of \<open>ending_threads\<close>, for every key and
  every rest of the update.
\<close>

section \<open>The thread that is stopped\<close>

abbreviation target :: "int \<Rightarrow> capture \<Rightarrow> live_thread" where
  "target k c \<equiv> live c ! first_of k (live c)"

definition being_stopped :: "int \<Rightarrow> io_action list \<Rightarrow> capture \<Rightarrow> bool" where
  "being_stopped k acts c \<longleftrightarrow> todo c = StopThread k # acts \<and> first_of k (live c) < length (live c)
     \<and> lt_stop (target k c) \<and> lt_pc (target k c) \<noteq> Undefined"

inductive stopping_move :: "(AVRational \<Rightarrow> double) \<Rightarrow> int \<Rightarrow> capture \<Rightarrow> capture \<Rightarrow> bool" for q2d k where
  "advance q2d (first_of k (live c)) e c = Some c' \<Longrightarrow> lt_pc (target k c) \<noteq> Finished \<Longrightarrow>
     stopping_move q2d k c c'"
| "push_next (first_of k (live c)) u c = Some c' \<Longrightarrow> stopping_move q2d k c c'"

inductive_cases stopping_moveE: "stopping_move q2d k c c'"

fun stop_weight :: "pc \<Rightarrow> nat" where
  "stop_weight (Read s) = 3"
| "stop_weight (Flush s) = 2"
| "stop_weight Finished = 0"
| "stop_weight _ = 1"

definition stop_work :: "int \<Rightarrow> capture \<Rightarrow> nat" where
  "stop_work k c = length (lt_outbox (target k c)) + stop_weight (lt_pc (target k c))"

text \<open>All steps but the join.\<close>

abbreviation unjoined :: "(AVRational \<Rightarrow> double) \<Rightarrow> capture \<Rightarrow> capture \<Rightarrow> bool" where
  "unjoined q2d c c' \<equiv> capture_step q2d c c' \<and> join_thread c \<noteq> Some c'"

lemma first_of_less: "t \<in> set ts \<Longrightarrow> lt_key t = k \<Longrightarrow> first_of k ts < length ts"
  by (induction ts) (auto simp: first_of_def)

lemma first_of_update:
  assumes "i < length ts" and "lt_key t = lt_key (ts ! i)"
  shows "first_of k (ts[i := t]) = first_of k ts"
proof -
  have f: "first_of k us = length (takeWhile (\<lambda>x. x \<noteq> k) (map lt_key us))" for us
    by (simp add: first_of_def takeWhile_map o_def)
  have "map lt_key (ts[i := t]) = map lt_key ts"
    using assms by (metis list_update_id map_update nth_map)
  then show ?thesis unfolding f by simp
qed

lemma stopped_update:
  assumes "being_stopped k acts c" and "i < length (live c)" and "todo c' = todo c"
    and "live c' = (live c)[i := t]" and "lt_key t = lt_key (live c ! i)"
    and "i = first_of k (live c) \<Longrightarrow> lt_stop t \<and> lt_pc t \<noteq> Undefined"
  shows "being_stopped k acts c' \<and> stop_work k c' =
    (if i = first_of k (live c) then length (lt_outbox t) + stop_weight (lt_pc t) else stop_work k c)"
proof -
  have "first_of k (live c') = first_of k (live c)" using first_of_update assms(2,4,5) by metis
  then show ?thesis using assms by (auto simp: being_stopped_def stop_work_def)
qed

text \<open>A stopped thread goes towards its end and produces no frame.\<close>

lemma run_stopped:
  assumes "silent e" and "p \<noteq> Undefined" and "pc_inv config p"
  shows "fst (run_stream q2d config e p) \<noteq> Undefined \<and> pushed (snd (run_stream q2d config e p)) = []
    \<and> stop_weight (fst (run_stream q2d config e p)) \<le> stop_weight p - 1"
proof (cases p)
  case LoopHead
  then show ?thesis using run_stream_silent(1) [OF assms(1)] by simp
next
  case (Connect r)
  then show ?thesis using run_stream_silent(2) [OF assms(1)] by simp
next
  case Setup
  then show ?thesis using run_stream_silent(3) [OF assms(1)] by simp
next
  case (Read s)
  then show ?thesis using run_stream_silent(4) [OF assms(1)] by simp
next
  case (Flush s)
  then show ?thesis using run_stream_silent(5) [OF assms(1)] by simp
qed (use assms in simp_all)

lemma stopping_advance:
  assumes "capture_inv c" and "being_stopped k acts c" and "advance q2d i e c = Some c'"
  shows "being_stopped k acts c' \<and> stop_work k c' \<le> stop_work k c
    \<and> (i = first_of k (live c) \<longrightarrow> lt_pc (target k c) \<noteq> Finished \<longrightarrow> stop_work k c' < stop_work k c)"
proof -
  let ?t = "live c ! i"
  obtain p fx where i: "i < length (live c)" "lt_outbox ?t = []" "stop_requested e = lt_stop ?t"
      "lt_stop ?t \<longrightarrow> stop_after_flush e"
    and r: "run_stream q2d (lt_config ?t) e (lt_pc ?t) = (p, fx)"
    and c': "c' = c\<lparr>live := (live c)[i := ?t\<lparr>lt_pc := p, lt_outbox := pushed fx\<rparr>]\<rparr>"
    using assms(3) by (auto simp: advance_def Let_def split: if_splits prod.splits)
  show ?thesis
  proof (cases "i = first_of k (live c)")
    case True
    have t: "lt_stop ?t" "lt_pc ?t \<noteq> Undefined" using assms(2) True by (simp_all add: being_stopped_def)
    have "pc_inv (lt_config ?t) (lt_pc ?t)" using thread_ok_nth [OF assms(1) i(1)] by (simp add: thread_ok_def)
    from run_stopped [OF _ t(2) this, of e q2d] t(1) i(3,4)
    have p: "p \<noteq> Undefined" "pushed fx = []" "stop_weight p \<le> stop_weight (lt_pc ?t) - 1"
      by (simp_all add: silent_def r)
    have "0 < stop_weight q" if "q \<noteq> Finished" for q using that by (cases q) simp_all
    with p(3) have "lt_pc ?t \<noteq> Finished \<longrightarrow> stop_weight p < stop_weight (lt_pc ?t)" by fastforce
    with stopped_update [OF assms(2) i(1), of c' "?t\<lparr>lt_pc := p, lt_outbox := pushed fx\<rparr>"] p t(1) True i(2)
    show ?thesis by (simp add: c' stop_work_def)
  next
    case False
    with stopped_update [OF assms(2) i(1), of c' "?t\<lparr>lt_pc := p, lt_outbox := pushed fx\<rparr>"]
    show ?thesis by (simp add: c')
  qed
qed

lemma stopping_push:
  assumes "being_stopped k acts c" and "push_next i u c = Some c'"
  shows "being_stopped k acts c' \<and> stop_work k c' \<le> stop_work k c
    \<and> (i = first_of k (live c) \<longrightarrow> stop_work k c' < stop_work k c)"
proof -
  obtain d ds where i: "i < length (live c)" "lt_outbox (live c ! i) = d # ds"
    and c': "c' = c\<lparr>live := (live c)[i := (live c ! i)\<lparr>lt_outbox := ds\<rparr>], pipe := deliver u d (pipe c)\<rparr>"
    using assms(2) by (auto simp: push_next_def split: if_splits list.splits)
  have "i = first_of k (live c) \<Longrightarrow> lt_stop (live c ! i) \<and> lt_pc (live c ! i) \<noteq> Undefined"
    using assms(1) by (simp add: being_stopped_def)
  with stopped_update [OF assms(1) i(1), of c' "(live c ! i)\<lparr>lt_outbox := ds\<rparr>"] i(2)
  show ?thesis by (auto simp: c' stop_work_def)
qed

lemma stopping_step:
  assumes "unjoined q2d c c'" and "capture_inv c" and "being_stopped k acts c"
  shows "being_stopped k acts c' \<and> stop_work k c' \<le> stop_work k c"
proof -
  have todo: "todo c = StopThread k # acts" using assms(3) by (simp add: being_stopped_def)
  from assms(1) have "capture_step q2d c c'" by blast
  then show ?thesis
  proof (rule capture_stepE)
    fix i e
    assume "advance q2d i e c = Some c'"
    then show ?thesis using stopping_advance [OF assms(2,3)] by blast
  next
    fix i u
    assume "push_next i u c = Some c'"
    then show ?thesis using stopping_push [OF assms(3)] by blast
  next
    assume "request_stop c = Some c'"
    then have "c' = c\<lparr>live := (live c)[first_of k (live c) := (target k c)\<lparr>lt_stop := True\<rparr>]\<rparr>"
        "first_of k (live c) < length (live c)"
      using todo by (auto simp: request_stop_def Let_def split: if_splits)
    then show ?thesis
      using stopped_update [OF assms(3), of "first_of k (live c)" c' "(target k c)\<lparr>lt_stop := True\<rparr>"] assms(3)
      by (simp add: being_stopped_def stop_work_def)
  next
    fix p
    assume "c' = c\<lparr>pipe := p\<rparr>"
    then show ?thesis using assms(3) by (simp add: being_stopped_def stop_work_def)
  qed (use assms(1) todo in \<open>simp_all add: begin_update_def begin_stop_all_def start_thread_def\<close>)
qed

lemma stopping_move_work:
  assumes "stopping_move q2d k c c'" and "capture_inv c" and "being_stopped k acts c"
  shows "stop_work k c' < stop_work k c \<and> being_stopped k acts c'"
  using assms(1)
proof (rule stopping_moveE)
  fix e
  assume "advance q2d (first_of k (live c)) e c = Some c'" "lt_pc (target k c) \<noteq> Finished"
  then show ?thesis using stopping_advance [OF assms(2,3)] by blast
next
  fix u
  assume "push_next (first_of k (live c)) u c = Some c'"
  then show ?thesis using stopping_push [OF assms(3)] by blast
qed

lemma stopping_not_stuck:
  assumes "being_stopped k acts c" and "join_thread c = None"
  shows "\<exists>c'. stopping_move q2d k c c'"
proof (cases "lt_outbox (target k c)")
  case Nil
  let ?e = "StreamRun.sample_calls\<lparr>stop_requested := True, stop_after_flush := True\<rparr>"
  have "lt_pc (target k c) \<noteq> Finished"
    using assms Nil by (auto simp: being_stopped_def join_thread_def Let_def)
  moreover have "\<exists>c'. advance q2d (first_of k (live c)) ?e c = Some c'"
    using assms(1) Nil by (simp add: advance_def being_stopped_def Let_def split: prod.splits)
  ultimately show ?thesis by (blast intro: stopping_move.intros)
next
  case (Cons d ds)
  then have "\<exists>c'. push_next (first_of k (live c)) 0 c = Some c'"
    using assms(1) by (simp add: push_next_def being_stopped_def)
  then show ?thesis by (blast intro: stopping_move.intros)
qed

lemma stopping_move_step:
  assumes "stopping_move q2d k c c'"
  shows "unjoined q2d c c'"
proof -
  have "capture_step q2d c c'" using assms by (auto elim!: stopping_moveE intro: capture_step.intros)
  moreover have "todo c' = todo c"
    using assms by (auto elim!: stopping_moveE simp: advance_def push_next_def Let_def
        split: if_splits list.splits prod.splits)
  moreover have "todo d \<noteq> todo c" if "join_thread c = Some d" for d
    using that by (auto simp: join_thread_def Let_def split: list.splits io_action.splits if_splits)
  ultimately show ?thesis by blast
qed

interpretation stopping_thread: ending_threads
  "\<lambda>c. \<exists>base dry n conns fs thr bthr. c = capture_start base dry n conns fs thr bthr" "unjoined q2d"
  capture_inv "stopping_move q2d k" "being_stopped k acts" "stop_work k" "\<lambda>c. join_thread c \<noteq> None"
  for q2d k acts
proof unfold_locales
  fix s t
  show "capture_inv s" if "\<exists>base dry n conns fs thr bthr. s = capture_start base dry n conns fs thr bthr"
    using that capture_inv_start by blast
  show "capture_inv t" if "unjoined q2d s t" "capture_inv s" using that capture_ts.inv_step by blast
  show "unjoined q2d s t" if "stopping_move q2d k s t" using that by (rule stopping_move_step)
  show "being_stopped k acts t \<and> stop_work k t \<le> stop_work k s"
    if "unjoined q2d s t" "capture_inv s" "being_stopped k acts s" using that by (rule stopping_step)
  show "stop_work k t < stop_work k s"
    if "stopping_move q2d k s t" "capture_inv s" "being_stopped k acts s"
    using stopping_move_work [OF that] by blast
  show "\<exists>t. stopping_move q2d k s t" if "being_stopped k acts s" "\<not> join_thread s \<noteq> None"
    using stopping_not_stuck that by blast
qed

section \<open>The whole update\<close>

definition all_defined :: "capture \<Rightarrow> bool" where
  "all_defined c \<longleftrightarrow> (\<forall>t \<in> set (live c). lt_pc t \<noteq> Undefined)"

lemma stopping_move_live:
  assumes "stopping_move q2d k c c'" and "being_stopped k acts c"
  obtains t where "live c' = (live c)[first_of k (live c) := t]" "lt_key t = k" "manager c' = manager c"
proof -
  have i: "first_of k (live c) < length (live c)" using assms(2) by (simp add: being_stopped_def)
  then have "lt_key (target k c) = k" using first_of_split [OF i] by auto
  with assms(1) i have "live c' = (live c)[first_of k (live c) := target k c']
      \<and> lt_key (target k c') = k \<and> manager c' = manager c" if "first_of k (live c') = first_of k (live c)"
    using that by (auto elim!: stopping_moveE simp: advance_def push_next_def Let_def
        split: if_splits list.splits prod.splits)
  moreover have "first_of k (live c') = first_of k (live c)"
    using assms(1) i by (auto elim!: stopping_moveE simp: advance_def push_next_def Let_def first_of_update
        split: if_splits list.splits prod.splits)
  ultimately show ?thesis using that by metis
qed

lemma stopping_move_keeps:
  assumes "stopping_move q2d k c c'" and "capture_inv c" and "being_stopped k acts c" and "all_defined c"
  shows "being_stopped k acts c' \<and> all_defined c' \<and> manager c' = manager c \<and> capture_inv c'"
proof -
  obtain t where t: "live c' = (live c)[first_of k (live c) := t]" "lt_key t = k" "manager c' = manager c"
    by (rule stopping_move_live [OF assms(1,3)])
  have b: "being_stopped k acts c'" using stopping_move_work [OF assms(1-3)] by blast
  have i: "first_of k (live c) < length (live c)" using assms(3) by (simp add: being_stopped_def)
  then have "lt_key (target k c) = k" using first_of_split [OF i] by auto
  then have "first_of k (live c') = first_of k (live c)" using first_of_update [OF i] t(1,2) by metis
  then have "lt_pc t \<noteq> Undefined" using b i t(1) by (simp add: being_stopped_def)
  moreover have "set (live c') \<subseteq> insert t (set (live c))" unfolding t(1) by (rule set_update_subset_insert)
  ultimately have "all_defined c'" using assms(4) by (auto simp: all_defined_def)
  moreover have "capture_inv c'" using stopping_move_step [OF assms(1)] assms(2) capture_ts.inv_step by blast
  ultimately show ?thesis using b t(3) by blast
qed

lemma stop_can_join:
  assumes "capture_inv c" and "being_stopped k acts c" and "all_defined c"
  shows "\<exists>c'. (capture_step q2d)\<^sup>*\<^sup>* c c' \<and> todo c' = acts \<and> manager c' = manager c
    \<and> all_defined c' \<and> capture_inv c'"
proof -
  obtain q where q: "(stopping_move q2d k)\<^sup>*\<^sup>* c q" "join_thread q \<noteq> None"
    using stopping_thread.can_finish [OF assms(1,2)] by blast
  from q(1) have r: "(capture_step q2d)\<^sup>*\<^sup>* c q \<and> being_stopped k acts q \<and> all_defined q
      \<and> manager q = manager c \<and> capture_inv q"
  proof (induction rule: rtranclp_induct)
    case (step y z)
    then show ?case
      using stopping_move_keeps [of q2d k y z] stopping_move_step [OF step.hyps(2)]
      by (auto intro: rtranclp.rtrancl_into_rtrancl)
  qed (use assms in simp)
  obtain c' where j: "join_thread q = Some c'" using q(2) by blast
  then have s: "capture_step q2d q c'" by (rule capture_step.JoinThread)
  have "todo c' = acts" "manager c' = manager q" "set (live c') \<subseteq> set (live q)"
    using j r by (auto simp: join_thread_def being_stopped_def Let_def split: if_splits
        dest: in_set_takeD in_set_dropD)
  moreover have "capture_inv c'" using join_thread_inv j r by blast
  ultimately show ?thesis using r s
    by (intro exI [of _ c']) (auto simp: all_defined_def intro: rtranclp.rtrancl_into_rtrancl)
qed

lemma request_can_be_made:
  assumes "capture_inv c" and "todo c = StopThread k # acts" and "all_defined c"
  shows "\<exists>c'. request_stop c = Some c' \<and> being_stopped k acts c' \<and> all_defined c' \<and> manager c' = manager c"
proof -
  let ?i = "first_of k (live c)" and ?t = "(target k c)\<lparr>lt_stop := True\<rparr>"
  have "k \<in> fst ` set (serving_pairs c)" using assms(1,2) by (simp add: capture_inv_def)
  then have i: "?i < length (live c)"
    by (auto simp: serving_pairs_def intro: first_of_less)
  have "first_of k ((live c)[?i := ?t]) = ?i" by (rule first_of_update [OF i]) simp
  moreover have "lt_pc (target k c) \<noteq> Undefined" using assms(3) i by (simp add: all_defined_def)
  moreover have "set ((live c)[?i := ?t]) \<subseteq> insert ?t (set (live c))" by (rule set_update_subset_insert)
  ultimately show ?thesis
    using assms(2,3) i by (fastforce simp: request_stop_def being_stopped_def all_defined_def Let_def)
qed

lemma update_can_complete:
  "capture_inv c \<Longrightarrow> all_defined c \<Longrightarrow>
   \<exists>c'. (capture_step q2d)\<^sup>*\<^sup>* c c' \<and> todo c' = [] \<and> manager c' = manager c"
proof (induction "todo c" arbitrary: c)
  case (Cons a acts)
  have "\<exists>c1. (capture_step q2d)\<^sup>*\<^sup>* c c1 \<and> todo c1 = acts \<and> manager c1 = manager c
      \<and> all_defined c1 \<and> capture_inv c1"
  proof (cases a)
    case (StopThread k)
    obtain d where d: "request_stop c = Some d" "being_stopped k acts d" "all_defined d" "manager d = manager c"
      using request_can_be_made [OF Cons.prems(1) _ Cons.prems(2)] Cons.hyps(2) StopThread by metis
    then have "capture_step q2d c d" "capture_inv d"
      using capture_step.RequestStop request_stop_inv Cons.prems(1) by blast+
    with stop_can_join [OF _ d(2,3), of q2d] d(4) show ?thesis
      by (metis converse_rtranclp_into_rtranclp)
  next
    case (StartThread cfg)
    then obtain d where d: "start_thread c = Some d" using Cons.hyps(2) [symmetric] by (simp add: start_thread_def)
    then have s: "capture_step q2d c d" "capture_inv d"
      using capture_step.StartThread start_thread_inv Cons.prems(1) by blast+
    have "todo d = acts \<and> manager d = manager c \<and> all_defined d"
      using d Cons.hyps(2) [symmetric] StartThread Cons.prems(2) by (auto simp: start_thread_def all_defined_def)
    with s show ?thesis by blast
  qed
  then obtain c1 where c1: "(capture_step q2d)\<^sup>*\<^sup>* c c1" "todo c1 = acts" "manager c1 = manager c"
      "all_defined c1" "capture_inv c1" by blast
  from Cons.hyps(1) [of c1] c1 show ?case by (metis rtranclp_trans)
qed auto

section \<open>Properties\<close>

text \<open>
  C7: an update of the manager, which holds the manager's mutex until the threads it stops have
  ended, comes to its end: in every reachable state, the thread it is waiting for ends after at
  most as many of its own steps as it has frames to push, and three more, in every interleaving
  with all other threads, and until the join returns it is never stuck; and unless a thread ran
  into undefined behaviour, the rest of the update can be worked off.
\<close>

theorem update_completes:
  assumes "(capture_step q2d)\<^sup>*\<^sup>* (capture_start base dry n conns fs thr bthr) c"
  shows "(\<forall>k acts m q. being_stopped k acts c \<longrightarrow>
        interleaved (\<lambda>s t. capture_step q2d s t \<and> join_thread s \<noteq> Some t) (stopping_move q2d k) m c q \<longrightarrow>
        m \<le> length (lt_outbox (target k c)) + 3
        \<and> ((\<exists>r. join_thread q = Some r) \<or> (\<exists>r. stopping_move q2d k q r)))
    \<and> (all_defined c \<longrightarrow> (\<exists>c'. (capture_step q2d)\<^sup>*\<^sup>* c c' \<and> todo c' = [] \<and> manager c' = manager c))"
proof (intro conjI allI impI)
  have inv: "capture_inv c" by (rule reachable_capture [OF assms])
  show "\<exists>c'. (capture_step q2d)\<^sup>*\<^sup>* c c' \<and> todo c' = [] \<and> manager c' = manager c" if "all_defined c"
    by (rule update_can_complete [OF inv that])
  fix k acts m q
  assume b: "being_stopped k acts c" and i: "interleaved (unjoined q2d) (stopping_move q2d k) m c q"
  have "stop_weight p \<le> 3" for p by (cases p) simp_all
  then have "stop_work k c \<le> length (lt_outbox (target k c)) + 3" by (simp add: stop_work_def)
  with stopping_thread.own_steps_bounded [OF i inv b]
  show "m \<le> length (lt_outbox (target k c)) + 3" "(\<exists>r. join_thread q = Some r) \<or> (\<exists>r. stopping_move q2d k q r)"
    by auto
qed

lemma unwatch_update:
  "update_streams [] \<lparr>stream_threads = [(7, \<lparr>th_config = watched, th_running = True\<rparr>)],
     active_stream_configs = [(7, watched)]\<rparr> = Inr (new_manager, [StopThread 7])"
  by (simp add: update_streams_def desired_configs_def new_manager_def collect_start_def smap_erase_def)

theorem update_completes_witness:
  "\<exists>c c'. run_capture sample_q2d (first_frame @ [DoUpdate [], DoRequest]) idle_capture = Some c
     \<and> todo c = [StopThread 7] \<and> (capture_step sample_q2d)\<^sup>*\<^sup>* c c' \<and> todo c' = []"
proof -
  obtain c where c: "run_capture sample_q2d (first_frame @ [DoUpdate [], DoRequest]) idle_capture = Some c"
      "todo c = [StopThread 7]" "all_defined c"
    by (simp add: first_frame_def idle_capture_def capture_start_def begin_update_def watch_update unwatch_update
      start_thread_def advance_def connect_step_def setup_step_def read_step_def StreamRun.sample_calls_def
      sample_sinks rbind_def output_frame_def push_next_def deliver_def pipeline_start_def fifo_new_def
      request_stop_def first_of_def all_defined_def Let_def)
  from update_completes [OF run_capture_sound [OF c(1), unfolded idle_capture_def]] c
  show ?thesis by blast
qed

end
