(* ===== verification/Spec2Isabelle.thy ===== *)
theory Spec2Isabelle
  imports FifoWait Service Quiescence CaptureUpdate
begin

text \<open>
  Verification of Frame Processor, the multi-threaded C++ service under \<open>src/src\<close>: it reads RTSP
  streams, decodes them, selects frames per event, crops and scales them in a pool of workers,
  serialises them in batches and sends the batches to Redis; a parent process supervises the
  service process. The theories below translate that code and prove what its parts promise;
  \<open>src/src\<close> is left out of the file names that follow.

  Data flow and components, in the order of the theories:

  \<^item> \<open>Prelude\<close>: results of fallible calls, the conversions between C++ integers, \<open>std::stoi\<close> and
    \<open>std::stoll\<close>, fmt's printing of integers, \<open>get_env\<close>, \<open>std::map\<close> as a sorted association list
    behind the locale \<open>std_map\<close>, the locale \<open>transition_system\<close> on which every invariant rests, and
    the locale \<open>ending_threads\<close>: threads that, once told to end, do so within boundedly many of
    their own steps in every interleaving.
  \<^item> \<open>Fifo\<close> (\<open>utils/fifo.h\<close>): the stoppable queue between the threads. A method is one atomic
    step, because it runs under the queue's mutex. The locale \<open>stoppable_queue\<close> is the contract of
    the consumer loops, interpreted on the code's queue. Order, counters, shutdown. \<open>FifoWait\<close>: its
    condition variable with sleeping, notified and spuriously woken threads, which refines the
    atomic queue and loses no wake-up.
  \<^item> \<open>Doubles\<close>: the part of IEEE double arithmetic that the code depends on, division and
    truncation with round-to-nearest. \<open>Logger\<close> (\<open>utils/logger.h\<close>, \<open>.cpp\<close>): the level gate.
    \<open>Types\<close> (\<open>utils/types.h\<close>, \<open>.cpp\<close>): configuration records, their equality operators, frames,
    deleters. \<open>Handles\<close> (\<open>utils/redis_client.h\<close>, \<open>CurlHandle\<close>, the \<open>unique_ptr\<close> types): move-only
    ownership, with the locale \<open>move_only\<close> interpreted on all wrappers. \<open>FrameSaver\<close> (\<open>utils/frame_saver.h\<close>, \<open>.cpp\<close>): the
    JPEG writer and its resources.
  \<^item> \<open>ConfigManager\<close>, \<open>ConfigReload\<close> (\<open>components/config_manager\<close>): environment, filters, JSON to
    configuration, the API poll with its merge into the local file as a sequence of file
    operations, the reloader thread. What a document says is stated independently of the parser,
    as \<open>stream_entry\<close> with optional members and \<open>loaded_streams\<close>; the element of the API's document
    that the second parse invalidates is the unspecified argument \<open>reread\<close>.
  \<^item> \<open>StreamManager\<close>, \<open>StreamGraph\<close>, \<open>StreamRun\<close> (\<open>components/stream_io\<close>): reconciliation of the
    stream threads with the configuration; the filter graph with its selection intervals; the
    thread function as a state machine with one step per loop iteration.
  \<^item> \<open>Worker\<close> (\<open>components/worker\<close>): filter text, cache of graphs, loop body, shutdown.
  \<^item> \<open>FrameCodec\<close>, \<open>Publisher\<close> (\<open>components/publisher\<close>): the byte layout, the batching thread, the
    publishing threads, shutdown.
  \<^item> \<open>Supervisor\<close> (\<open>core/main.cpp\<close>, \<open>main\<close> and its signal handler): the parent process as a step
    relation over a process table. \<open>App\<close> (\<open>app_logic\<close>): start-up, callback and shutdown of the
    service process. \<open>Service\<close>: that process in operation, from its start through any number of
    reload cycles to the stop calls and destructors at its end, with the reloader in between: with
    callbacks at any time for what holds in all runs (\<open>exit_step\<close>), with the reloader's own guarded
    iterations for the run that goes wrong (\<open>shutdown_step\<close>).
  \<^item> \<open>System\<close>: all worker threads, the batching thread and the publishing threads running together
    and being shut down, as a step relation whose steps are the accesses to shared queues, built
    from the operations of the components; with the invariant that accounts for every frame and
    batch. \<open>Shutdown\<close>: the end of the workers, of the batching thread and of the publishing
    threads, three instances of \<open>ending_threads\<close>. \<open>BatchContents\<close>: what each single batch holds.
    \<open>Ordering\<close>: with one worker the order of the frames is kept in every interleaving, and with one
    publishing thread, while Redis answers, up to the stream entries in Redis. \<open>Quiescence\<close>: while
    nothing is stopped the pipeline works off what it has accepted.
  \<^item> \<open>Capture\<close>: the stream threads (\<open>StreamRun\<close>) under the manager (\<open>StreamManager\<close>) in front of
    \<open>System\<close>, with updates that stop, join and start threads one after the other while all other
    threads go on: what is processed was configured, and between updates the threads are those of
    the active configurations. \<open>CaptureUpdate\<close>: an update comes to its end.
  \<^item> This theory, last: one worker, the batching thread and drained queues, from the decoded frames
    to the bytes of the batches.

  Correspondence. A C++ struct or class is a record with the code's members, an enum a datatype; a
  counter of type \<open>size_t\<close> or \<open>uint64_t\<close> is a \<open>64 word\<close>, the index arithmetic of the row copies is
  done on \<open>32 word\<close>, \<open>int\<close> and \<open>long long\<close> are \<open>int\<close> with \<open>narrow\<close> at every conversion that can
  lose bits. A function that throws returns a sum, undefined behaviour and null pointers are
  \<open>None\<close>. What the program asks of code outside of it is an argument: the environment, the
  file system, the clock, FFmpeg (\<open>graph_calls\<close>, \<open>stream_calls\<close>, \<open>frame_calls\<close>, \<open>jpeg_calls\<close>,
  \<open>convert_calls\<close>), simdjson (\<open>simdjson\<close>), libcurl, hiredis (\<open>publish_calls\<close>), \<open>fork\<close> and
  \<open>waitpid\<close> (\<open>parent_calls\<close>). Each loop takes the list of the answers of its iterations, so that a
  loop that never ends is a list of any length; the theorems on termination say how long a list
  suffices (one more than the number of queued items for the consumer loops, three for a stopped
  stream thread). The step relations take no fuel; their bounds are the measures \<open>work\<close>,
  \<open>batching_work\<close>, \<open>publisher_work\<close>, \<open>weight\<close> and \<open>stop_work\<close>.

  Lemmas. Each theory ends with its properties; before them stand the equations of its operations,
  the invariant and its preservation. Shared are \<open>drain_closed\<close> (a stopped queue is emptied in
  order), \<open>batch_frame_step\<close> and \<open>decode_frames_bytes\<close> (what a batch holds), \<open>process_frame_queue\<close>
  and \<open>frame_outputs\<close> (what a worker emits), \<open>parse_streams_entries\<close> (what a document configures),
  \<open>reloader_changes\<close> (what a run of the reloader notifies), \<open>inv_reachable\<close> (invariants of reachable states).

  Bounds. The proofs on serialised data assume what memory guarantees: a batch below \<open>2 ^ 62\<close>
  bytes; and what the code assumes of the graph's frames: the planar layout, \<open>frame_ok\<close>. Frames
  outside of that layout are undefined behaviour in the code and \<open>None\<close> in the model.

  Some properties state behaviour that the documentation or the comments do not promise: a changed
  stream is stopped and started only by a second update, which an unchanged file never causes; the
  reloader may call into a destroyed stream manager at the end; a local file without global settings
  ends the process at the first answer of the API; several workers may exchange the frames of a stream, a batch that is sent again
  comes after later ones, the shutdown drops what the workers still process.

  Not modelled: \<open>describe_ffmpeg_error\<close> and the texts of the log messages, which have no effect on
  the state; time measurements; the one-second polling of the shutdown flag; what FFmpeg does with
  pixels; null results of \<open>av_packet_alloc\<close> and \<open>av_frame_alloc\<close> in the read loop; the memory model
  below mutexes and atomics. In \<open>System\<close> the stream threads are the step
  that delivers any frame; \<open>Capture\<close> replaces it by the threads themselves. The reloader and
  \<open>app_logic\<close> (\<open>Service\<close>) and the parent process (\<open>Supervisor\<close>) are not interleaved with the pipeline:
  in \<open>Capture\<close> an update may come at any time with any configurations, which includes theirs. The
  declarations of the headers without code, and their comments, have no counterpart.
\<close>

section \<open>The pipeline\<close>

text \<open>
  What one worker thread puts on its output queue for the frames it takes, frame by frame.
\<close>

fun worker_results ::
  "frame_calls list \<Rightarrow> DecodedFrame list \<Rightarrow> worker_world \<Rightarrow> DecodedFrame list list" where
  "worker_results (e # es) (d # ds) s =
     frame_outputs e d (thread s) # worker_results es ds (process_frame e d s)"
| "worker_results es ds s = []"

lemma worker_results_queue:
  "length ds \<le> length es \<Longrightarrow> \<not> stopped (out_queue s) \<Longrightarrow>
   queue (out_queue (fold (\<lambda>(e, d). process_frame e d) (zip es ds) s))
     = queue (out_queue s) @ concat (worker_results es ds s)
   \<and> length (worker_results es ds s) = length ds"
proof (induction es ds s rule: worker_results.induct)
  case (1 e es d ds s)
  then show ?case using process_frame_queue [of e d s] by simp
qed auto

lemma frame_outputs_belong:
  "out \<in> set (frame_outputs e d w) \<Longrightarrow>
   source_config out = source_config d \<and> event_config out = event_config d
   \<and> frame out \<in> snd ` set (pulled e)"
proof -
  have sub: "set (drain_frames n ps) \<subseteq> snd ` set ps" for n ps
    by (induction n ps rule: drain_frames.induct) auto
  show "out \<in> set (frame_outputs e d w) \<Longrightarrow>
   source_config out = source_config d \<and> event_config out = event_config d
   \<and> frame out \<in> snd ` set (pulled e)"
    using sub [of 5 "pulled e"]
    by (auto simp: frame_outputs_def processed_frame_def split: if_splits)
qed

lemma frame_outputs_key:
  "filter (\<lambda>out. batch_key out = k) (frame_outputs e d w)
     = (if batch_key d = k then frame_outputs e d w else [])"
proof -
  have "batch_key out = batch_key d" if "out \<in> set (frame_outputs e d w)" for out
    using frame_outputs_belong [OF that] by (simp add: batch_key_def)
  then show ?thesis by (auto simp: filter_id_conv filter_empty_conv)
qed

lemma worker_results_key:
  "filter (\<lambda>out. batch_key out = k) (concat (worker_results es ds s))
     = concat (map snd (filter (\<lambda>(d, outs). batch_key d = k) (zip ds (worker_results es ds s))))"
  by (induction es ds s rule: worker_results.induct) (simp_all add: frame_outputs_key)

lemma worker_results_frames:
  "out \<in> set (concat (worker_results es ds s)) \<Longrightarrow> \<exists>e \<in> set es. frame out \<in> snd ` set (pulled e)"
  by (induction es ds s rule: worker_results.induct) (auto dest: frame_outputs_belong)

lemma worker_results_step:
  "i < length ds \<Longrightarrow> i < length es \<Longrightarrow> out \<in> set (worker_results es ds s ! i) \<Longrightarrow>
   source_config out = source_config (ds ! i) \<and> event_config out = event_config (ds ! i)"
proof (induction es ds s arbitrary: i rule: worker_results.induct)
  case (1 e es d ds s)
  then show ?case by (cases i) (auto dest: frame_outputs_belong)
qed auto

text \<open>
  The frames one input frame yields: the first five the graph delivers before an error code, each
  with the stream, event and time base of the input, or none when the graph, the reference or
  the insertion fails.
\<close>

lemma frame_outputs_exact:
  "frame_outputs e d w \<in> {[], map (processed_frame d)
       (take 5 (map snd (takeWhile (\<lambda>(ret, f). 0 \<le> ret) (pulled e))))}"
  "create_processing_filter e (frame d) (processing (source_config d)) \<Longrightarrow> clone_ok e \<Longrightarrow> 0 \<le> add_frame e \<Longrightarrow>
   frame_outputs e d w = map (processed_frame d)
       (take 5 (map snd (takeWhile (\<lambda>(ret, f). 0 \<le> ret) (pulled e))))"
  "\<not> clone_ok e \<or> add_frame e < 0 \<Longrightarrow> frame_outputs e d w = []"
  using created_context [of e d w] by (auto simp: frame_outputs_def drain_frames_take)

lemma worker_results_nth:
  "i < length ds \<Longrightarrow> i < length es \<Longrightarrow> \<exists>w. worker_results es ds s ! i = frame_outputs (es ! i) (ds ! i) w"
proof (induction es ds s arbitrary: i rule: worker_results.induct)
  case (1 e es d ds s)
  then show ?case by (cases i) auto
qed auto

lemma worker_results_exact:
  assumes "i < length ds" and "i < length es"
  shows "let e = es ! i; d = ds ! i; outs = worker_results es ds s ! i; fs = map (processed_frame d)
        (take 5 (map snd (takeWhile (\<lambda>(ret, f). 0 \<le> ret) (pulled e))))
      in (outs = fs \<or> outs = [])
        \<and> (create_processing_filter e (frame d) (processing (source_config d))
              \<and> clone_ok e \<and> 0 \<le> add_frame e \<longrightarrow> outs = fs)
        \<and> (\<not> clone_ok e \<or> add_frame e < 0 \<longrightarrow> outs = [])"
proof -
  obtain w where "worker_results es ds s ! i = frame_outputs (es ! i) (ds ! i) w"
    using worker_results_nth [OF assms] by blast
  then show ?thesis using frame_outputs_exact [of "es ! i" "ds ! i" w] by (auto simp: Let_def)
qed

lemma key_frames_bound: "length (frames_bytes (key_frames k ds)) \<le> length (frames_bytes (map frame ds))"
proof (induction ds)
  case Nil
  then show ?case by (simp add: key_frames_def)
next
  case (Cons d ds)
  then show ?case by (auto simp: key_frames_Cons frames_bytes_Cons)
qed

lemma worker_loop_emptied:
  "worker_loop es inq s = (LoopEnded, inq', s') \<Longrightarrow> list_all (\<lambda>(stop, e). \<not> stop) es \<Longrightarrow> queue inq' = []"
  by (induction es inq s rule: worker_loop.induct)
    (auto simp: worker_iteration_def wait_and_pop_def split: pop_result.splits list.splits if_splits)

lemma worker_loop_ended:
  assumes "stopped dq" and "length (queue dq) < length wes" and "list_all (\<lambda>(stop, e). \<not> stop) wes"
    and "worker_loop wes dq s = (st, dq', s')"
  shows "st = LoopEnded" and "queue dq' = []"
proof -
  show st: "st = LoopEnded"
    using worker_loop_drain [OF assms(3), of dq s] fq.drain_closed [OF assms(1,2)] assms(4)
    by (simp add: split_beta)
  then show "queue dq' = []" using worker_loop_emptied assms(3,4) by blast
qed

text \<open>What a worker that drains its stopped input leaves on its output queue.\<close>

lemma worker_loop_results:
  assumes "stopped dq" and "length (queue dq) < length wes" and "list_all (\<lambda>(stop, e). \<not> stop) wes"
    and "queue (out_queue s) = []" and "\<not> stopped (out_queue s)"
    and "\<forall>(stop, e) \<in> set wes. \<forall>(ret, f) \<in> set (pulled e). frame_ok f"
  shows "queue (out_queue (snd (snd (worker_loop wes dq s)))) = concat (worker_results (map snd wes) (queue dq) s)"
    and "length (worker_results (map snd wes) (queue dq) s) = length (queue dq)"
    and "list_all (\<lambda>d. frame_ok (frame d)) (concat (worker_results (map snd wes) (queue dq) s))"
proof -
  let ?es = "map snd wes"
  have "snd (snd (worker_loop wes dq s)) = fold (\<lambda>(e, d). process_frame e d) (zip ?es (queue dq)) s"
    using worker_loop_drain [OF assms(3), of dq s] fq.drain_closed [OF assms(1,2)]
    by (simp add: split_beta)
  then show "queue (out_queue (snd (snd (worker_loop wes dq s)))) = concat (worker_results ?es (queue dq) s)"
      "length (worker_results ?es (queue dq) s) = length (queue dq)"
    using worker_results_queue [of "queue dq" ?es s] assms(2,4,5) by simp_all
  have "frame_ok (frame out)" if out: "out \<in> set (concat (worker_results ?es (queue dq) s))" for out
  proof -
    obtain e where "e \<in> set ?es" "frame out \<in> snd ` set (pulled e)"
      using worker_results_frames [OF out] by blast
    then show ?thesis using assms(6) by fastforce
  qed
  then show "list_all (\<lambda>d. frame_ok (frame d)) (concat (worker_results ?es (queue dq) s))"
    by (simp only: list_all_iff ball_simps) blast
qed

lemma decode_results:
  assumes "list_all (\<lambda>d. frame_ok (frame d)) (concat (worker_results es ds s))"
  shows "decode_batch (frames_bytes (key_frames k (concat (worker_results es ds s))))
    = Some (map (\<lambda>out. frame_image (frame out))
        (concat (map snd (filter (\<lambda>(d, os). batch_key d = k) (zip ds (worker_results es ds s))))))"
proof -
  let ?outs = "concat (worker_results es ds s)"
  have "key_frames k ?outs = map frame (concat (map snd
      (filter (\<lambda>(d, os). batch_key d = k) (zip ds (worker_results es ds s)))))"
    unfolding key_frames_def worker_results_key ..
  moreover have "decode_batch (frames_bytes (key_frames k ?outs)) = Some (map frame_image (key_frames k ?outs))"
    using assms by (intro decode_frames_bytes) (auto simp: list_all_iff key_frames_def)
  ultimately show ?thesis by (simp add: o_def)
qed

text \<open>
  C1: from the decoded frames to the published data, with one worker: when the decode queue is
  stopped and drained before the processed queue is stopped, and the latter before the batching
  thread is asked to end, the worker takes every decoded frame, and the content of the processed
  queue is the concatenation of one list per decoded frame, in order: the first five frames that
  the frame's graph delivers before an error code, each with the stream, event and time base of
  the decoded frame (no frame when the reference or the insertion into the graph fails, and
  possibly none when the graph cannot be built). The batching thread then takes all of them and
  ends with no open batch, and for every stream and event the batches handed to the publisher
  decode to exactly the frames of that stream and event in the processed queue, in their order.
  Nothing is lost, duplicated, reordered or mixed up between streams.
\<close>

theorem pipeline_in_order:
  assumes "stopped dq" and "length (queue dq) < length wes" and "list_all (\<lambda>(stop, e). \<not> stop) wes"
    and "queue (out_queue s) = []" and "\<not> stopped (out_queue s)"
    and "\<forall>(stop, e) \<in> set wes. \<forall>(ret, f) \<in> set (pulled e). frame_ok f"
    and "worker_loop wes dq s = (st, dq', s')"
    and "length (frames_bytes (map frame (queue (out_queue s')))) < 2 ^ 62"
    and "length (queue (out_queue s')) < length bes"
    and "list_all (\<lambda>(stop, now). \<not> stop) bes"
  shows "st = LoopEnded \<and> queue dq' = []
    \<and> (\<exists>outs. concat outs = queue (out_queue s') \<and> length outs = length (queue dq)
        \<and> (\<forall>i < length outs. let e = snd (wes ! i); d = queue dq ! i;
              fs = map (\<lambda>f. \<lparr>frame = f, source_config = source_config d, event_config = event_config d,
                               time_base = time_base d\<rparr>)
                     (take 5 (map snd (takeWhile (\<lambda>(ret, f). 0 \<le> ret) (pulled e))))
            in (outs ! i = fs \<or> outs ! i = [])
              \<and> (create_processing_filter e (frame d) (processing (source_config d))
                    \<and> clone_ok e \<and> 0 \<le> add_frame e \<longrightarrow> outs ! i = fs)
              \<and> (\<not> clone_ok e \<or> add_frame e < 0 \<longrightarrow> outs ! i = [])))
    \<and> (\<exists>pq b. batching_loop bes (fifo_stop (out_queue s')) (empty_batcher (fifo_new thr nm))
            = Some (LoopEnded, pq, b)
        \<and> queue pq = [] \<and> current_batches b = []
        \<and> (\<forall>k. decode_batch (concat (map data_buffer (filter (\<lambda>fb. key_of_batch fb = k)
                                    (queue (batch_queue b)))))
            = Some (map (\<lambda>out. frame_image (frame out))
                (filter (\<lambda>out. batch_key out = k) (queue (out_queue s'))))))"
proof -
  let ?out = "out_queue s'"
  let ?b = "empty_batcher (fifo_new thr nm)"
  define outs where "outs = worker_results (map snd wes) (queue dq) s"
  note res = worker_loop_results [OF assms(1-6), folded outs_def, unfolded assms(7) snd_conv]
  have ended: "st = LoopEnded" "queue dq' = []"
    using worker_loop_ended [OF assms(1-3,7)] by simp_all
  have pq: "queue (fifo_stop ?out) = queue ?out" "stopped (fifo_stop ?out)" by simp_all
  have "length (frames_bytes (key_frames k (queue ?out))) < 2 ^ 62" for k
    using key_frames_bound [of k "queue ?out"] assms(8) by linarith
  then have "room_for ?b (queue (fifo_stop ?out))"
    by (simp add: room_for_def pq(1) queued_bytes_def pending_bytes_def empty_batcher_def
        fifo_new_def del: split_paired_All)
  moreover have "length (queue (fifo_stop ?out)) < length bes" using assms(9) by simp
  moreover have ok: "list_all (\<lambda>d. frame_ok (frame d)) (queue (fifo_stop ?out))"
    using res(3) res(1) pq(1) by simp
  ultimately obtain pq' b where b: "batching_loop bes (fifo_stop ?out) ?b = Some (LoopEnded, pq', b)"
      "current_batches b = []" "\<And>k. queued_bytes k b = frames_bytes (key_frames k (queue ?out))"
    using batching_loop_from_empty [OF pq(2) _ assms(10), of thr nm] pq(1) by metis
  have "decode_batch (queued_bytes k b) = Some (map frame_image (key_frames k (queue ?out)))" for k
    unfolding b(3) using ok pq(1)
    by (intro decode_frames_bytes) (auto simp: list_all_iff key_frames_def)
  then have dec: "decode_batch (queued_bytes k b) = Some (map (\<lambda>out. frame_image (frame out))
      (filter (\<lambda>out. batch_key out = k) (queue ?out)))" for k
    by (simp add: key_frames_def o_def)
  note each = worker_results_exact [of _ "queue dq" "map snd wes" s, folded outs_def]
  have each: "\<forall>i < length outs. let e = snd (wes ! i); d = queue dq ! i; fs = map (processed_frame d)
        (take 5 (map snd (takeWhile (\<lambda>(ret, f). 0 \<le> ret) (pulled e))))
      in (outs ! i = fs \<or> outs ! i = [])
        \<and> (create_processing_filter e (frame d) (processing (source_config d))
              \<and> clone_ok e \<and> 0 \<le> add_frame e \<longrightarrow> outs ! i = fs)
        \<and> (\<not> clone_ok e \<or> add_frame e < 0 \<longrightarrow> outs ! i = [])"
    using each assms(2) res(2) by (simp add: Let_def)
  note b' = b(1) batching_loop_emptied [OF b(1) assms(10)] b(2) allI [OF dec, unfolded queued_bytes_def]
  show ?thesis
    by (intro conjI exI) (rule ended res(1)[symmetric] res(2) each [unfolded processed_frame_def [abs_def]] b')+
qed

definition pipeline_env :: frame_calls where
  "pipeline_env = sample_env\<lparr>pulled := [(0, padded_frame)]\<rparr>"

definition pipeline_world :: worker_world where
  "pipeline_world =
     \<lparr>thread = new_worker_thread, saver = sample_saver\<lparr>save_processed_enabled := False\<rparr>,
      out_queue = fifo_new 9 ''processed'', saved = []\<rparr>"

definition pipeline_input :: "DecodedFrame fifo" where
  "pipeline_input = fifo_stop (push 1 (sample_decoded ''b'') (push 1 (sample_decoded ''a'')
     (fifo_new 9 ''decoded'')))"

lemma pipeline_sample:
  "map frame (queue (out_queue (snd (snd (worker_loop (replicate 3 (False, pipeline_env))
      pipeline_input pipeline_world))))) = [padded_frame, padded_frame]"
  by code_simp

theorem pipeline_in_order_witness:
  "\<exists>dq' s' pq b. worker_loop (replicate 3 (False, pipeline_env)) pipeline_input pipeline_world
      = (LoopEnded, dq', s') \<and> map frame (queue (out_queue s')) = [padded_frame, padded_frame]
    \<and> batching_loop (replicate 3 (False, 0)) (fifo_stop (out_queue s')) (empty_batcher (fifo_new 9 ''batches''))
      = Some (LoopEnded, pq, b) \<and> queue dq' = [] \<and> queue pq = []"
proof -
  obtain st dq' s' where r: "worker_loop (replicate 3 (False, pipeline_env)) pipeline_input pipeline_world
      = (st, dq', s')"
    by (rule prod_cases3)
  have sample: "map frame (queue (out_queue s')) = [padded_frame, padded_frame]"
    using pipeline_sample unfolding r by simp
  have q: "queue pipeline_input = [sample_decoded ''a'', sample_decoded ''b'']" "stopped pipeline_input"
    by (simp_all add: pipeline_input_def fifo_stop_def fifo_new_def stopped_push)
  have w: "queue (out_queue pipeline_world) = []" "\<not> stopped (out_queue pipeline_world)"
    by (simp_all add: pipeline_world_def fifo_new_def)
  have ok: "\<forall>(stop, e) \<in> set (replicate 3 (False, pipeline_env)). \<forall>(ret, f) \<in> set (pulled e). frame_ok f"
    by (simp add: pipeline_env_def padded_frame_ok)
  have "length (image_bytes (frame_image padded_frame)) = 22"
    using frame_image_ok [OF padded_frame_ok]
    by (simp add: image_bytes_def image_ok_def) (simp add: frame_image_def padded_frame_def)
  then have size: "length (frames_bytes (map frame (queue (out_queue s')))) < 2 ^ 62"
    unfolding sample by (simp add: frames_bytes_def)
  have "length (queue (out_queue s')) = 2" using arg_cong [OF sample, of length] by simp
  then have len: "length (queue (out_queue s')) < length (replicate 3 (False, 0 :: int))" by simp
  have few: "length (queue pipeline_input) < length (replicate 3 (False, pipeline_env))"
    by (simp add: q(1))
  have running: "list_all (\<lambda>(stop, e). \<not> stop) (replicate 3 (False, x))" for x :: 'x
    by (simp add: list_all_iff)
  from pipeline_in_order [OF q(2) few running w ok r size len running, of 9 "''batches''"]
  obtain pq b where "st = LoopEnded" "queue dq' = []" "queue pq = []"
    "batching_loop (replicate 3 (False, 0)) (fifo_stop (out_queue s')) (empty_batcher (fifo_new 9 ''batches''))
      = Some (LoopEnded, pq, b)"
    by blast
  with r sample show ?thesis by metis
qed

end
